(* ===== verification/Prelude.thy ===== *)
theory Prelude
  imports Main "HOL-Library.Word" "HOL-Library.Multiset" "HOL-Library.Monad_Syntax"
begin

text \<open>
  What every component of the development shares: the collections of rewrite rules and
  introduction rules the component theories fill, the model of an indexed access to a
  \<^verbatim>\<open>std::vector\<close> (an access out of range is undefined behaviour of the program, and it
  is the value \<open>None\<close> here), the compiler's population count, and the facts on the lowest
  set bit of a word that the bit-twiddling loops of the program rest on.
\<close>

unbundle bit_operations_syntax

named_theorems vec_simps "reading and writing the elements of a vector"
named_theorems lit_simps "what the operations of a cube do to its literals"
named_theorems wf_intros "well-formedness of what an operation returns"
named_theorems eval_simps "the Boolean function of what an operation returns"

type_synonym u32 = "32 word"
type_synonym u64 = "64 word"

section \<open>Vectors\<close>

text \<open>
  \<^verbatim>\<open>v[i]\<close> as a value and as a place that is written. Neither checks its index in C++;
  the model does, and a theorem that a routine returns \<open>Some\<close> says that each of
  its accesses is in range.
\<close>

definition vec_at :: "'a list \<Rightarrow> nat \<Rightarrow> 'a option" where
  "vec_at xs i = (if i < length xs then Some (xs ! i) else None)"

definition vec_modify :: "nat \<Rightarrow> ('a \<Rightarrow> 'a) \<Rightarrow> 'a list \<Rightarrow> 'a list option" where
  "vec_modify i f xs = (if i < length xs then Some (xs[i := f (xs ! i)]) else None)"

text \<open>\<^verbatim>\<open>v.resize(n)\<close>: cut to \<open>n\<close> elements, or filled up with \<open>d\<close>, the element's default.\<close>

definition vec_resize :: "'a \<Rightarrow> nat \<Rightarrow> 'a list \<Rightarrow> 'a list" where
  "vec_resize d n xs = take n xs @ replicate (n - length xs) d"

lemma vec_at_Some [vec_simps]: "i < length xs \<Longrightarrow> vec_at xs i = Some (xs ! i)"
  by (simp add: vec_at_def)

lemma vec_modify_Some [vec_simps]:
  "i < length xs \<Longrightarrow> vec_modify i f xs = Some (xs[i := f (xs ! i)])"
  by (simp add: vec_modify_def)

lemma vec_at_iff: "vec_at xs i = Some x \<longleftrightarrow> i < length xs \<and> x = xs ! i"
  by (auto simp: vec_at_def)

lemma vec_modify_iff:
  "vec_modify i f xs = Some ys \<longleftrightarrow> i < length xs \<and> ys = xs[i := f (xs ! i)]"
  by (auto simp: vec_modify_def)

lemma vec_resize_shrink [vec_simps]: "n \<le> length xs \<Longrightarrow> vec_resize d n xs = take n xs"
  by (simp add: vec_resize_def)

lemma length_vec_resize [simp]: "length (vec_resize d n xs) = n"
  by (simp add: vec_resize_def)

text \<open>
  A vector of buckets, flattened: updating one bucket exchanges that bucket's elements
  and leaves the others.
\<close>

lemma mset_concat_update:
  "i < length xs \<Longrightarrow>
   mset (concat (xs[i := ys])) + mset (xs ! i) = mset (concat xs) + mset ys"
proof (induction xs arbitrary: i)
  case Nil
  then show ?case by simp
next
  case (Cons x xs)
  then show ?case by (cases i) (auto simp: ac_simps)
qed

lemma set_concat_nth: "i < length xs \<Longrightarrow> set (xs ! i) \<subseteq> set (concat xs)"
  by (auto intro: nth_mem)

section \<open>Bits of a word\<close>

text \<open>\<^verbatim>\<open>__builtin_popcount\<close>: the number of bits set in a 32-bit integer.\<close>

definition popcount :: "u32 \<Rightarrow> nat" where
  "popcount w = length (filter (bit w) [0..<32])"

lemma popcount_card: "popcount w = card {i. i < 32 \<and> bit w i}"
proof -
  have "popcount w = card (set (filter (bit w) [0..<32]))"
    unfolding popcount_def by (rule distinct_card [symmetric]) simp
  also have "set (filter (bit w) [0..<32]) = {i. i < 32 \<and> bit w i}"
    by auto
  finally show ?thesis .
qed

lemma bit_u32_less: "bit (w :: u32) i \<Longrightarrow> i < 32"
  using bit_imp_le_length [of w i] by simp

lemma bit_u32_ge [simp]: "\<not> i < 32 \<Longrightarrow> \<not> bit (w :: u32) i"
  using bit_u32_less by blast

lemma u32_eqI: "(\<And>i. i < 32 \<Longrightarrow> bit (v :: u32) i = bit w i) \<Longrightarrow> v = w"
  by (rule bit_word_eqI) simp

lemma popcount_0_iff: "popcount w = 0 \<longleftrightarrow> w = 0"
  by (auto simp: popcount_def filter_empty_conv intro!: u32_eqI)

lemma popcount_le_32: "popcount w \<le> 32"
  unfolding popcount_def by (rule order_trans [OF length_filter_le]) simp

text \<open>\<^verbatim>\<open>1 << n\<close>, which is defined for \<open>n < 32\<close>.\<close>

definition shl1 :: "nat \<Rightarrow> u32" where
  "shl1 n = push_bit n 1"

lemma bit_shl1 [simp]: "bit (shl1 n) i \<longleftrightarrow> i = n \<and> n < 32"
  by (auto simp: shl1_def bit_simps)

text \<open>The two ways in which the program tests a bit.\<close>

lemma and_shl1_iff: "w AND shl1 k \<noteq> 0 \<longleftrightarrow> bit w k"
proof
  show "bit w k \<Longrightarrow> w AND shl1 k \<noteq> 0"
    by (auto simp: bit_eq_iff bit_simps dest: bit_u32_less)
  have "w AND shl1 k = 0" if "\<not> bit w k"
    by (rule u32_eqI) (use that in \<open>auto simp: bit_simps\<close>)
  then show "w AND shl1 k \<noteq> 0 \<Longrightarrow> bit w k" by blast
qed

lemma drop_bit_and_one: "drop_bit k w AND 1 = 0 \<longleftrightarrow> \<not> bit (w :: u32) k"
  by (simp add: and_one_eq bit_iff_odd_drop_bit odd_iff_mod_2_eq_one even_iff_mod_2_eq_zero)

text \<open>
  The lowest bit that is set. \<open>x AND - x\<close> isolates it and \<open>x AND (x - 1)\<close> clears it,
  the two idioms by which the program walks over the set bits of a word.
\<close>

definition lowbit :: "u32 \<Rightarrow> nat" where
  "lowbit x = (LEAST i. bit x i)"

lemma bit_lowbit: "x \<noteq> 0 \<Longrightarrow> bit x (lowbit x)"
  by (metis LeastI lowbit_def bit_eqI bit_0_eq bot_apply bot_bool_def)

lemma not_bit_below_lowbit: "j < lowbit x \<Longrightarrow> \<not> bit x j"
  unfolding lowbit_def by (rule not_less_Least)

lemma bit_minus_one:
  fixes x :: u32
  assumes "bit x k" and low: "\<And>j. j < k \<Longrightarrow> \<not> bit x j"
  shows "bit (x - 1) j \<longleftrightarrow> (if j < k then True else bit x j \<and> j \<noteq> k)"
proof -
  have k: "k < 32" using assms(1) by (rule bit_u32_less)
  let ?m = "mask k :: u32" let ?r = "x AND NOT (push_bit k 1)"
  have "x = ?r OR push_bit k 1"
    by (rule u32_eqI) (use assms(1) in \<open>auto simp: bit_simps\<close>)
  also have "\<dots> = ?r + push_bit k 1"
    by (rule disjunctive_add [symmetric]) (auto simp: bit_simps)
  also have "\<dots> = ?r + ?m + 1"
    by (simp add: mask_eq_exp_minus_1 push_bit_eq_mult)
  finally have "x - 1 = ?r + ?m" by (rule iffD2 [OF diff_eq_eq])
  also have "\<dots> = ?r OR ?m"
    by (rule disjunctive_add) (use low in \<open>auto simp: bit_simps\<close>)
  finally show ?thesis
    using low k bit_u32_less [of x j] by (auto simp: bit_simps)
qed

lemma lowbit_less: "x \<noteq> 0 \<Longrightarrow> lowbit x < 32"
  by (rule bit_u32_less) (rule bit_lowbit)

lemma and_minus_lowbit:
  assumes "x \<noteq> 0"
  shows "x AND - x = shl1 (lowbit x)"
proof (rule u32_eqI)
  fix i :: nat assume i: "i < 32"
  have "bit (- x) i \<longleftrightarrow> \<not> bit (x - 1) i"
    using i by (simp add: minus_eq_not_minus_1 bit_not_iff)
  then show "bit (x AND - x) i = bit (shl1 (lowbit x)) i"
    using bit_minus_one [OF bit_lowbit [OF assms] not_bit_below_lowbit, of i]
      bit_lowbit [OF assms] not_bit_below_lowbit lowbit_less [OF assms]
    by (auto simp: bit_simps)
qed

lemma and_minus_one_lowbit:
  assumes "x \<noteq> 0"
  shows "bit (x AND (x - 1)) i \<longleftrightarrow> bit x i \<and> i \<noteq> lowbit x"
  using bit_minus_one [OF bit_lowbit [OF assms] not_bit_below_lowbit, of i]
    bit_lowbit [OF assms] not_bit_below_lowbit
  by (auto simp: bit_simps)

lemma popcount_clear_low:
  assumes "x \<noteq> 0"
  shows "popcount x = Suc (popcount (x AND (x - 1)))"
proof -
  let ?S = "{i. i < 32 \<and> bit x i}"
  have eq: "{i. i < 32 \<and> bit (x AND (x - 1)) i} = ?S - {lowbit x}"
    using assms by (auto simp: and_minus_one_lowbit)
  have mem: "lowbit x \<in> ?S" using assms by (simp add: bit_lowbit lowbit_less)
  show ?thesis
    unfolding popcount_card eq by (rule card.remove [OF _ mem]) simp
qed

lemma popcount_xor_bound: "popcount v \<le> popcount w + popcount (v XOR w)"
proof -
  have "{i. i < 32 \<and> bit v i} \<subseteq> {i. i < 32 \<and> bit w i} \<union> {i. i < 32 \<and> bit (v XOR w) i}"
    by (auto simp: bit_simps)
  then have "card {i. i < 32 \<and> bit v i}
      \<le> card ({i. i < 32 \<and> bit w i} \<union> {i. i < 32 \<and> bit (v XOR w) i})"
    by (rule card_mono [rotated]) simp
  also have "\<dots> \<le> card {i. i < 32 \<and> bit w i} + card {i. i < 32 \<and> bit (v XOR w) i}"
    by (rule card_Un_le)
  finally show ?thesis by (simp add: popcount_card)
qed

lemma popcount_mono: "(\<And>i. bit v i \<Longrightarrow> bit w i) \<Longrightarrow> popcount v \<le> popcount w"
  unfolding popcount_card by (rule card_mono) auto

lemma popcount_below: "(\<And>i. bit v i \<Longrightarrow> i < n) \<Longrightarrow> popcount v \<le> n"
proof -
  assume "\<And>i. bit v i \<Longrightarrow> i < n"
  then have "card {i. i < 32 \<and> bit v i} \<le> card {..<n}"
    by (intro card_mono) auto
  then show ?thesis by (simp add: popcount_card)
qed

end
