(* ===== verification/Unordered_Set.thy ===== *)
theory Unordered_Set
  imports Prelude
begin

text \<open>
  \<^verbatim>\<open>std::unordered_set\<close> as the program uses it: default construction, \<^verbatim>\<open>insert\<close>,
  \<^verbatim>\<open>erase\<close> of a key or of a found iterator, \<^verbatim>\<open>find\<close>, \<^verbatim>\<open>size\<close>, \<^verbatim>\<open>clear\<close> and iteration.
  The order of iteration is not specified by the language. The model keeps the
  elements in their current order and a hidden number (the bucket count); what an
  insertion does to both is decided by a \<open>policy\<close>, an argument of every routine that
  inserts, so that each theorem of the development holds for every order, and for
  every way the order depends on the history. An erasure keeps the order of the other
  elements, as the standard requires.

  The locale \<open>unordered_set\<close> is the contract the clients rely on, \<open>parity_set\<close>
  adds what a set of products means as an exclusive sum. Both are interpreted on the
  model at the end.
\<close>

section \<open>The container\<close>

record 'a uset =
  bucket_count :: nat
  elems :: "'a list"

record 'a policy =
  grow :: "nat \<Rightarrow> nat \<Rightarrow> nat"
  order :: "nat \<Rightarrow> 'a list \<Rightarrow> 'a \<Rightarrow> nat"

text \<open>One policy, for examples: a new element goes to the front.\<close>

definition newest_first :: "'a policy" where
  "newest_first = \<lparr>grow = \<lambda>_ _. 0, order = \<lambda>_ _ _. 0\<rparr>"

definition uset_empty :: "'a uset" where
  "uset_empty = \<lparr>bucket_count = 1, elems = []\<rparr>"

definition uset_find :: "'a \<Rightarrow> 'a uset \<Rightarrow> bool" where
  "uset_find x s = List.member (elems s) x"

definition uset_size :: "'a uset \<Rightarrow> nat" where
  "uset_size s = length (elems s)"

definition uset_insert :: "'a policy \<Rightarrow> 'a \<Rightarrow> 'a uset \<Rightarrow> 'a uset" where
  "uset_insert P x s =
     (if uset_find x s then s
      else let b = grow P (bucket_count s) (Suc (uset_size s)); xs = x # elems s
           in \<lparr>bucket_count = b, elems = sort_key (order P b xs) xs\<rparr>)"

definition uset_erase :: "'a \<Rightarrow> 'a uset \<Rightarrow> 'a uset" where
  "uset_erase x s = s\<lparr>elems := remove1 x (elems s)\<rparr>"

definition uset_clear :: "'a uset \<Rightarrow> 'a uset" where
  "uset_clear s = s\<lparr>elems := []\<rparr>"

definition uset_inv :: "'a uset \<Rightarrow> bool" where
  "uset_inv s = distinct (elems s)"

section \<open>The contract\<close>

text \<open>
  \<open>inv\<close> is the container's invariant and \<open>valid\<close> says which elements it can take:
  every one for the library's container, the cubes over the declared variables for a
  container that is built from several.
\<close>

locale unordered_set =
  fixes empty :: "'s"
    and insert :: "'a \<Rightarrow> 's \<Rightarrow> 's"
    and erase :: "'a \<Rightarrow> 's \<Rightarrow> 's"
    and find :: "'a \<Rightarrow> 's \<Rightarrow> bool"
    and items :: "'s \<Rightarrow> 'a list"
    and inv :: "'s \<Rightarrow> bool"
    and valid :: "'a \<Rightarrow> bool"
  assumes inv_empty: "inv empty"
    and inv_insert: "inv s \<Longrightarrow> valid x \<Longrightarrow> inv (insert x s)"
    and inv_erase: "inv s \<Longrightarrow> valid x \<Longrightarrow> inv (erase x s)"
    and inv_distinct: "inv s \<Longrightarrow> distinct (items s)"
    and items_empty: "items empty = []"
    and find_iff: "inv s \<Longrightarrow> valid x \<Longrightarrow> find x s \<longleftrightarrow> x \<in> set (items s)"
    and insert_present: "inv s \<Longrightarrow> valid x \<Longrightarrow> find x s \<Longrightarrow> insert x s = s"
    and mset_insert: "inv s \<Longrightarrow> valid x \<Longrightarrow> \<not> find x s \<Longrightarrow>
      mset (items (insert x s)) = add_mset x (mset (items s))"
    and mset_erase: "inv s \<Longrightarrow> valid x \<Longrightarrow> mset (items (erase x s)) = mset (items s) - {#x#}"
begin

lemma set_insert:
  assumes "inv s" and "valid x"
  shows "set (items (insert x s)) = Set.insert x (set (items s))"
proof (cases "find x s")
  case True
  then show ?thesis using assms by (auto simp: insert_present find_iff)
next
  case False
  have "set_mset (mset (items (insert x s))) = Set.insert x (set (items s))"
    by (simp add: mset_insert [OF assms False])
  then show ?thesis by simp
qed

lemma set_erase:
  assumes "inv s" and "valid x"
  shows "set (items (erase x s)) = set (items s) - {x}"
proof -
  have "mset (items (erase x s)) = mset (remove1 x (items s))"
    by (simp add: mset_erase [OF assms])
  then have "set (items (erase x s)) = set (remove1 x (items s))"
    by (rule mset_eq_setD)
  then show ?thesis by (simp add: inv_distinct [OF assms(1)])
qed

lemma length_insert:
  assumes "inv s" and "valid x" and "\<not> find x s"
  shows "length (items (insert x s)) = Suc (length (items s))"
  using arg_cong [OF mset_insert [OF assms], of size] by simp

lemma length_erase:
  assumes "inv s" and "valid x" and "find x s"
  shows "Suc (length (items (erase x s))) = length (items s)"
proof -
  have "x \<in># mset (items s)" using assms by (simp add: find_iff)
  then have "mset (items s) = add_mset x (mset (items (erase x s)))"
    by (simp add: mset_erase [OF assms(1,2)])
  from arg_cong [OF this, of size] show ?thesis by simp
qed

end

text \<open>
  The elements are read as the terms of an exclusive sum: \<open>holds v x\<close> says that term
  \<open>x\<close> is true at the assignment \<open>v\<close>, and the set stands for the parity of its true terms.
\<close>

locale parity_set = unordered_set empty insert erase find items inv valid
  for empty :: "'s" and insert :: "'a \<Rightarrow> 's \<Rightarrow> 's" and erase and find and items and inv and valid +
  fixes holds :: "'v \<Rightarrow> 'a \<Rightarrow> bool"
    and parity :: "'v \<Rightarrow> 'a list \<Rightarrow> bool"
  assumes parity_items: "parity v xs = odd (size (filter_mset (holds v) (mset xs)))"
begin

lemma parity_empty: "\<not> parity v (items empty)"
  by (simp add: parity_items items_empty)

lemma parity_insert:
  assumes "inv s" and "valid x" and "\<not> find x s"
  shows "parity v (items (insert x s)) = (parity v (items s) \<noteq> holds v x)"
  by (simp add: parity_items mset_insert [OF assms])

lemma parity_erase:
  assumes "inv s" and "valid x" and "find x s"
  shows "parity v (items (erase x s)) = (parity v (items s) \<noteq> holds v x)"
proof -
  have "mset (items s) = add_mset x (mset (items (erase x s)))"
    using assms by (simp add: mset_erase [OF assms(1,2)] find_iff)
  then have "parity v (items s) = (parity v (items (erase x s)) \<noteq> holds v x)"
    by (simp add: parity_items)
  then show ?thesis by auto
qed

end

section \<open>The model keeps the contract\<close>

lemma uset_find_iff: "uset_find x s \<longleftrightarrow> x \<in> set (elems s)"
  by (simp add: uset_find_def)

lemma elems_uset_empty [simp]: "elems uset_empty = []"
  by (simp add: uset_empty_def)

lemma elems_uset_clear [simp]: "elems (uset_clear s) = []"
  by (simp add: uset_clear_def)

lemma elems_uset_erase: "elems (uset_erase x s) = remove1 x (elems s)"
  by (simp add: uset_erase_def)

lemma mset_uset_insert:
  "\<not> uset_find x s \<Longrightarrow> mset (elems (uset_insert P x s)) = add_mset x (mset (elems s))"
  by (simp add: uset_insert_def Let_def)

interpretation us: unordered_set uset_empty "uset_insert P" uset_erase uset_find elems uset_inv
    "\<lambda>_. True"
  for P :: "'a policy"
proof unfold_locales
  fix x :: 'a and s :: "'a uset"
  assume inv: "uset_inv s"
  then show "uset_inv (uset_insert P x s)"
    by (auto simp: uset_inv_def uset_insert_def Let_def uset_find_iff distinct_insort)
  show "uset_inv (uset_erase x s)" using inv by (simp add: uset_inv_def elems_uset_erase)
  show "uset_find x s \<Longrightarrow> uset_insert P x s = s" by (simp add: uset_insert_def)
qed (simp_all add: uset_inv_def uset_find_iff elems_uset_erase mset_uset_insert)

lemma uset_inv_empty [simp]: "uset_inv uset_empty"
  by (rule us.inv_empty)

lemma uset_inv_clear [simp]: "uset_inv (uset_clear s)"
  by (simp add: uset_inv_def)

lemma uset_erase_smaller: "uset_find d s \<Longrightarrow> length (elems (uset_erase d s)) < length (elems s)"
  using length_pos_if_in_set [of d "elems s"]
  by (simp add: elems_uset_erase uset_find_iff length_remove1)

end
