(* ===== verification/Cube32.thy ===== *)
theory Cube32
  imports Unordered_Set
begin

text \<open>
  \<^verbatim>\<open>source/kernel/cube32.hpp\<close>: the cube, a product of literals over at most 32
  variables in two 32-bit words. \<^verbatim>\<open>mask\<close> says which variables occur and
  \<^verbatim>\<open>polarity\<close> with which sign; the union's third view, the 64-bit \<^verbatim>\<open>value\<close>, has
  \<^verbatim>\<open>mask\<close> in its upper half (the little-endian layout the program's test assumes).

  The first section holds the operations as the code has them. The second says what a
  cube means: the literal it has at each variable, the assignments it is true at, and
  the exclusive and inclusive sum of a list of cubes. The rest proves each operation
  against that meaning, literal by literal, and from there for the Boolean function.
\<close>

section \<open>The data structure and its operations\<close>

datatype cube32 = Cube32 (lit_mask: u32) (polarity: u32)

definition cube_value :: "cube32 \<Rightarrow> u64" where
  "cube_value c = word_cat (lit_mask c) (polarity c)"

definition cube_of_value :: "u64 \<Rightarrow> cube32" where
  "cube_of_value v = Cube32 (ucast (drop_bit 32 v)) (ucast v)"

definition cube32_zero :: cube32 where
  "cube32_zero = Cube32 0xFFFFFFFF 0x00000000"

definition cube32_one :: cube32 where
  "cube32_one = Cube32 0 0"

text \<open>\<^verbatim>\<open>cube32()\<close>, which the elements of a value-initialised array get.\<close>

definition cube32_default :: cube32 where
  "cube32_default = cube_of_value 0"

definition cube_eq :: "cube32 \<Rightarrow> cube32 \<Rightarrow> bool" where
  "cube_eq c that \<longleftrightarrow> cube_value c = cube_value that"

definition cube_neq :: "cube32 \<Rightarrow> cube32 \<Rightarrow> bool" where
  "cube_neq c that \<longleftrightarrow> cube_value c \<noteq> cube_value that"

definition cube_eq_value :: "cube32 \<Rightarrow> u64 \<Rightarrow> bool" where
  "cube_eq_value c v \<longleftrightarrow> cube_value c = v"

definition cube_neq_value :: "cube32 \<Rightarrow> u64 \<Rightarrow> bool" where
  "cube_neq_value c v \<longleftrightarrow> cube_value c \<noteq> v"

definition cube_less :: "cube32 \<Rightarrow> cube32 \<Rightarrow> bool" where
  "cube_less c that \<longleftrightarrow> cube_value c < cube_value that"

lemma inj_cube_value: "cube_value c = cube_value d \<Longrightarrow> c = d"
proof -
  assume eq: "cube_value c = cube_value d"
  have "lit_mask c = lit_mask d"
  proof (rule u32_eqI)
    fix i :: nat assume "i < 32"
    then show "bit (lit_mask c) i = bit (lit_mask d) i"
      using arg_cong [OF eq, of "\<lambda>w. bit w (i + 32)"]
      by (simp add: cube_value_def bit_word_cat_iff)
  qed
  moreover have "polarity c = polarity d"
  proof (rule u32_eqI)
    fix i :: nat assume "i < 32"
    then show "bit (polarity c) i = bit (polarity d) i"
      using arg_cong [OF eq, of "\<lambda>w. bit w i"]
      by (simp add: cube_value_def bit_word_cat_iff)
  qed
  ultimately show "c = d" by (rule cube32.expand [OF conjI])
qed

instantiation cube32 :: linorder
begin

definition less_cube32 :: "cube32 \<Rightarrow> cube32 \<Rightarrow> bool" where
  "less_cube32 c that \<longleftrightarrow> cube_less c that"

definition less_eq_cube32 :: "cube32 \<Rightarrow> cube32 \<Rightarrow> bool" where
  "less_eq_cube32 c that \<longleftrightarrow> cube_value c \<le> cube_value that"

instance
  by standard (auto simp: less_cube32_def cube_less_def less_eq_cube32_def intro: inj_cube_value)

end

definition cube_and :: "cube32 \<Rightarrow> cube32 \<Rightarrow> cube32" where
  "cube_and c that =
     (let tmp_mask = lit_mask c AND lit_mask that
      in if (polarity c XOR polarity that) AND tmp_mask \<noteq> 0 then Cube32 0xFFFFFFFF 0x00000000
         else cube_of_value (cube_value c OR cube_value that))"

definition n_lits :: "cube32 \<Rightarrow> nat" where
  "n_lits c = popcount (lit_mask c)"

definition add_lit :: "nat \<Rightarrow> u32 \<Rightarrow> cube32 \<Rightarrow> cube32" where
  "add_lit var p c = Cube32 (lit_mask c OR shl1 var) (polarity c OR push_bit var p)"

definition invert :: "cube32 \<Rightarrow> cube32" where
  "invert c = Cube32 (lit_mask c) (polarity c XOR lit_mask c)"

definition cube_rotate :: "nat \<Rightarrow> cube32 \<Rightarrow> cube32" where
  "cube_rotate var c =
     (let tmp = lit_mask c XOR (NOT (polarity c) AND shl1 var);
          pol = polarity c XOR (NOT (polarity c XOR lit_mask c) AND shl1 var)
      in Cube32 tmp pol)"

definition cube_str :: "nat \<Rightarrow> cube32 \<Rightarrow> string" where
  "cube_str n_inputs c =
     map (\<lambda>i. if drop_bit i (lit_mask c) AND 1 = 0 then CHR ''-''
              else if polarity c AND shl1 i \<noteq> 0 then CHR ''1''
              else CHR ''0'') [0..<n_inputs]"

definition difference :: "cube32 \<Rightarrow> cube32 \<Rightarrow> u32" where
  "difference lhs rhs = (polarity lhs XOR polarity rhs) OR (lit_mask lhs XOR lit_mask rhs)"

definition distance :: "cube32 \<Rightarrow> cube32 \<Rightarrow> nat" where
  "distance lhs rhs = popcount (difference lhs rhs)"

definition merge :: "cube32 \<Rightarrow> cube32 \<Rightarrow> cube32" where
  "merge lhs rhs =
     (let diff = difference lhs rhs
      in Cube32 (lit_mask lhs XOR (lit_mask rhs AND diff))
                (polarity lhs XOR (NOT (polarity rhs) AND diff)))"

text \<open>\<^verbatim>\<open>std::hash<std::uint64_t>\<close> is the library's, an argument here.\<close>

definition cube32_hash :: "(u64 \<Rightarrow> nat) \<Rightarrow> cube32 \<Rightarrow> nat" where
  "cube32_hash std_hash c = std_hash (cube_value c)"

section \<open>What a cube means\<close>

datatype literal = Dash | Neg | Pos

fun lit_sat :: "literal \<Rightarrow> bool \<Rightarrow> bool" where
  "lit_sat Dash b = True"
| "lit_sat Neg b = (\<not> b)"
| "lit_sat Pos b = b"

text \<open>
  The literal that is the exclusive sum of two different ones: of \<open>1\<close>, \<open>x\<close> and its
  complement, the one that is missing.
\<close>

fun other :: "literal \<Rightarrow> literal \<Rightarrow> literal" where
  "other Dash Neg = Pos"
| "other Dash Pos = Neg"
| "other Neg Dash = Pos"
| "other Pos Dash = Neg"
| "other Neg Pos = Dash"
| "other Pos Neg = Dash"
| "other l _ = l"

fun next_lit :: "literal \<Rightarrow> literal" where
  "next_lit Dash = Pos"
| "next_lit Pos = Neg"
| "next_lit Neg = Dash"

definition lit_at :: "cube32 \<Rightarrow> nat \<Rightarrow> literal" where
  "lit_at c i = (if bit (lit_mask c) i then (if bit (polarity c) i then Pos else Neg) else Dash)"

text \<open>
  A variable that does not occur has polarity bit 0 in every cube the program builds, and
  the comparison of two cubes as words relies on it. \<open>cube_ok n\<close> adds that only the
  first \<open>n\<close> variables occur.
\<close>

definition canonical :: "cube32 \<Rightarrow> bool" where
  "canonical c \<longleftrightarrow> polarity c AND NOT (lit_mask c) = 0"

definition cube_ok :: "nat \<Rightarrow> cube32 \<Rightarrow> bool" where
  "cube_ok n c \<longleftrightarrow> canonical c \<and> take_bit n (lit_mask c) = lit_mask c"

definition cube_eval :: "cube32 \<Rightarrow> (nat \<Rightarrow> bool) \<Rightarrow> bool" where
  "cube_eval c v = list_all (\<lambda>i. lit_sat (lit_at c i) (v i)) [0..<32]"

primrec esop_eval :: "(nat \<Rightarrow> bool) \<Rightarrow> cube32 list \<Rightarrow> bool" where
  "esop_eval v [] = False"
| "esop_eval v (c # cs) = (cube_eval c v \<noteq> esop_eval v cs)"

definition sop_eval :: "(nat \<Rightarrow> bool) \<Rightarrow> cube32 list \<Rightarrow> bool" where
  "sop_eval v cs = list_ex (\<lambda>c. cube_eval c v) cs"

section \<open>The operations, literal by literal\<close>

lemma lit_sat_other: "l \<noteq> m \<Longrightarrow> lit_sat (other l m) b = (lit_sat l b \<noteq> lit_sat m b)"
  by (cases l; cases m) auto

lemma other_sym: "other l m = other m l"
  by (cases l; cases m) auto

lemma other_neq: "l \<noteq> m \<Longrightarrow> other l m \<noteq> l \<and> other l m \<noteq> m"
  by (cases l; cases m) auto

lemma next_lit_cycle: "next_lit (next_lit (next_lit l)) = l"
  by (cases l) auto

lemma next_lit_neq: "l \<noteq> m \<Longrightarrow> m = next_lit l \<or> m = next_lit (next_lit l)"
  by (cases l; cases m) auto

lemma lit_at_Cube32:
  "lit_at (Cube32 m p) i = (if bit m i then (if bit p i then Pos else Neg) else Dash)"
  by (simp add: lit_at_def)

lemma canonical_iff: "canonical c \<longleftrightarrow> (\<forall>i. bit (polarity c) i \<longrightarrow> bit (lit_mask c) i)"
proof -
  have "polarity c AND NOT (lit_mask c) = 0 \<longleftrightarrow>
      (\<forall>i. \<not> bit (polarity c AND NOT (lit_mask c)) i)"
    by (auto intro: bit_eqI)
  also have "\<dots> \<longleftrightarrow> (\<forall>i. bit (polarity c) i \<longrightarrow> bit (lit_mask c) i)"
    using bit_u32_less by (auto simp: bit_simps)
  finally show ?thesis by (simp add: canonical_def)
qed

lemma cube_ok_iff: "cube_ok n c \<longleftrightarrow> canonical c \<and> (\<forall>i. bit (lit_mask c) i \<longrightarrow> i < n)"
proof -
  have "take_bit n (lit_mask c) = lit_mask c \<longleftrightarrow> (\<forall>i. bit (lit_mask c) i \<longrightarrow> i < n)"
    by (auto simp: bit_eq_iff bit_simps dest: bit_u32_less)
  then show ?thesis by (simp add: cube_ok_def)
qed

lemma cube_ok_canonical: "cube_ok n c \<Longrightarrow> canonical c"
  by (simp add: cube_ok_def)

lemma cube_ok_lit: "cube_ok n c \<Longrightarrow> lit_at c i \<noteq> Dash \<Longrightarrow> i < n"
  by (auto simp: cube_ok_iff lit_at_def split: if_splits)

lemma cube_okI:
  "canonical c \<Longrightarrow> (\<And>i. lit_at c i \<noteq> Dash \<Longrightarrow> i < n) \<Longrightarrow> cube_ok n c"
  by (auto simp: cube_ok_iff lit_at_def split: if_splits)

lemma cube_ok_mono: "cube_ok n c \<Longrightarrow> n \<le> m \<Longrightarrow> cube_ok m c"
  by (auto simp: cube_ok_iff)

lemma cube_ok_32: "canonical c \<Longrightarrow> cube_ok 32 c"
  by (auto simp: cube_ok_iff dest: bit_u32_less)

lemma lit_at_ge [simp]: "\<not> i < 32 \<Longrightarrow> lit_at c i = Dash"
  by (simp add: lit_at_def)

text \<open>Canonical cubes are their literals, and the code's comparison tells them apart.\<close>

lemma bit_of_lit:
  "canonical c \<Longrightarrow> bit (lit_mask c) i = (lit_at c i \<noteq> Dash) \<and> bit (polarity c) i = (lit_at c i = Pos)"
  by (auto simp: lit_at_def canonical_iff)

lemma cube_eqI:
  assumes "canonical c" and "canonical d" and "\<And>i. i < 32 \<Longrightarrow> lit_at c i = lit_at d i"
  shows "c = d"
proof -
  have "lit_mask c = lit_mask d" "polarity c = polarity d"
    using assms by (auto intro!: u32_eqI simp: bit_of_lit)
  then show ?thesis by (simp add: cube32.expand)
qed

lemma cube_eq_iff: "cube_eq c d \<longleftrightarrow> c = d"
  by (auto simp: cube_eq_def intro: inj_cube_value)

lemma cube_neq_iff: "cube_neq c d \<longleftrightarrow> c \<noteq> d"
  by (auto simp: cube_neq_def intro: inj_cube_value)

lemma lit_mask_of_value: "lit_mask (cube_of_value (cube_value c OR cube_value d)) = lit_mask c OR lit_mask d"
  by (rule u32_eqI) (simp add: cube_of_value_def cube_value_def bit_simps bit_word_cat_iff)

lemma polarity_of_value: "polarity (cube_of_value (cube_value c OR cube_value d)) = polarity c OR polarity d"
  by (rule u32_eqI) (simp add: cube_of_value_def cube_value_def bit_simps bit_word_cat_iff)

lemma cube_of_value_value: "cube_of_value (cube_value c) = c"
  using lit_mask_of_value [of c c] polarity_of_value [of c c] by (simp add: cube32.expand)

lemma cube_value_of_value: "cube_value (cube_of_value v) = v"
  by (rule bit_word_eqI)
    (auto simp: cube_of_value_def cube_value_def bit_simps bit_word_cat_iff)

lemma cube32_default_one: "cube32_default = cube32_one"
  by (simp add: cube32_default_def cube32_one_def cube_of_value_def)

lemma lit_at_one [lit_simps]: "lit_at cube32_one i = Dash"
  by (simp add: cube32_one_def lit_at_Cube32)

lemma lit_at_zero [lit_simps]: "i < 32 \<Longrightarrow> lit_at cube32_zero i = Neg"
proof -
  assume "i < 32"
  moreover have ones: "(0xFFFFFFFF :: u32) = - 1" by simp
  ultimately show ?thesis unfolding cube32_zero_def ones by (simp add: lit_at_Cube32)
qed

lemma canonical_one [wf_intros]: "canonical cube32_one"
  by (simp add: canonical_def cube32_one_def)

lemma cube_ok_one [wf_intros]: "cube_ok n cube32_one"
  by (simp add: cube_ok_def canonical_one) (simp add: cube32_one_def)

text \<open>\<^verbatim>\<open>difference\<close> marks the variables at which two cubes have different literals.\<close>

lemma bit_difference [lit_simps]:
  "canonical c \<Longrightarrow> canonical d \<Longrightarrow> bit (difference c d) i \<longleftrightarrow> lit_at c i \<noteq> lit_at d i"
  by (cases "i < 32")
    (auto simp: difference_def lit_at_def canonical_iff bit_simps)

lemma bit_merge:
  assumes "canonical c" and "canonical d" and "i < 32"
  shows "bit (lit_mask (merge c d)) i =
      (bit (lit_mask c) i \<noteq> (bit (lit_mask d) i \<and> lit_at c i \<noteq> lit_at d i))"
    and "bit (polarity (merge c d)) i =
      (bit (polarity c) i \<noteq> (\<not> bit (polarity d) i \<and> lit_at c i \<noteq> lit_at d i))"
  using assms bit_difference [OF assms(1,2), of i] by (simp_all add: merge_def Let_def bit_simps)

lemma lit_at_merge [lit_simps]:
  assumes "canonical c" and "canonical d"
  shows "lit_at (merge c d) i =
    (if lit_at c i = lit_at d i then lit_at c i else other (lit_at c i) (lit_at d i))"
proof (cases "i < 32")
  case True
  show ?thesis
    by (subst lit_at_def, cases "lit_at c i"; cases "lit_at d i")
      (simp_all add: bit_merge [OF assms True] bit_of_lit [OF assms(1)] bit_of_lit [OF assms(2)])
qed simp

lemma canonical_merge [wf_intros]:
  assumes "canonical c" and "canonical d"
  shows "canonical (merge c d)"
  unfolding canonical_iff
proof (intro allI impI)
  fix i assume pol: "bit (polarity (merge c d)) i"
  then have i: "i < 32" by (rule bit_u32_less)
  from pol show "bit (lit_mask (merge c d)) i"
    by (cases "lit_at c i"; cases "lit_at d i")
      (simp_all add: bit_merge [OF assms i] bit_of_lit [OF assms(1)] bit_of_lit [OF assms(2)])
qed

lemma cube_ok_merge [wf_intros]:
  assumes "cube_ok n c" and "cube_ok n d"
  shows "cube_ok n (merge c d)"
proof (rule cube_okI)
  show "canonical (merge c d)"
    using assms by (auto intro: wf_intros dest: cube_ok_canonical)
  fix i assume "lit_at (merge c d) i \<noteq> Dash"
  then have "lit_at c i \<noteq> Dash \<or> lit_at d i \<noteq> Dash"
    using assms by (auto simp: lit_simps cube_ok_canonical split: if_splits)
  then show "i < n" using assms cube_ok_lit by blast
qed

lemma lit_at_rotate [lit_simps]:
  assumes "canonical c" and "var < 32"
  shows "lit_at (cube_rotate var c) i = (if i = var then next_lit (lit_at c i) else lit_at c i)"
  using assms by (cases "i < 32")
    (auto simp: lit_at_def cube_rotate_def Let_def bit_simps canonical_iff)

lemma canonical_rotate [wf_intros]: "canonical c \<Longrightarrow> canonical (cube_rotate var c)"
  unfolding canonical_iff using bit_u32_less
  by (fastforce simp: cube_rotate_def Let_def bit_simps)

lemma cube_ok_rotate [wf_intros]:
  "cube_ok n c \<Longrightarrow> var < n \<Longrightarrow> var < 32 \<Longrightarrow> cube_ok n (cube_rotate var c)"
  by (rule cube_okI)
    (auto intro: wf_intros cube_ok_canonical cube_ok_lit simp: lit_simps cube_ok_canonical split: if_splits)

lemma lit_at_invert [lit_simps]:
  "canonical c \<Longrightarrow> lit_at (invert c) i = (case lit_at c i of Dash \<Rightarrow> Dash | Neg \<Rightarrow> Pos | Pos \<Rightarrow> Neg)"
  by (auto simp: lit_at_def invert_def bit_simps)

lemma canonical_invert [wf_intros]: "canonical c \<Longrightarrow> canonical (invert c)"
  by (auto simp: canonical_iff invert_def bit_simps)

lemma cube_ok_invert [wf_intros]: "cube_ok n c \<Longrightarrow> cube_ok n (invert c)"
  by (auto simp: cube_ok_def canonical_invert) (simp add: invert_def)

lemma lit_at_add_lit [lit_simps]:
  assumes "canonical c" and "var < 32" and "lit_at c var = Dash" and "p = 0 \<or> p = 1"
  shows "lit_at (add_lit var p c) i = (if i = var then (if p = 1 then Pos else Neg) else lit_at c i)"
  using assms
  by (cases "i < 32") (auto simp: lit_at_def add_lit_def bit_simps canonical_iff split: if_splits)

lemma canonical_add_lit [wf_intros]:
  "canonical c \<Longrightarrow> p = 0 \<or> p = 1 \<Longrightarrow> canonical (add_lit var p c)"
  by (auto simp: canonical_iff add_lit_def bit_simps)

lemma conflict_iff:
  assumes "canonical c" and "canonical d"
  shows "(polarity c XOR polarity d) AND (lit_mask c AND lit_mask d) \<noteq> 0 \<longleftrightarrow>
    (\<exists>i < 32. lit_at c i \<noteq> Dash \<and> lit_at d i \<noteq> Dash \<and> lit_at c i \<noteq> lit_at d i)"
    (is "?w \<noteq> 0 \<longleftrightarrow> _")
proof -
  have "?w \<noteq> 0 \<longleftrightarrow> (\<exists>i. bit ?w i)"
    by (metis bit_eqI bit_0_eq bot_apply bot_bool_def)
  also have "\<dots> \<longleftrightarrow> (\<exists>i < 32. bit ?w i)"
    using bit_u32_less by blast
  also have "\<dots> \<longleftrightarrow>
      (\<exists>i < 32. lit_at c i \<noteq> Dash \<and> lit_at d i \<noteq> Dash \<and> lit_at c i \<noteq> lit_at d i)"
    by (auto simp: bit_simps lit_at_def)
  finally show ?thesis .
qed

lemma cube_and_conflict:
  assumes "canonical c" and "canonical d" and "i < 32"
    and "lit_at c i \<noteq> Dash" and "lit_at d i \<noteq> Dash" and "lit_at c i \<noteq> lit_at d i"
  shows "cube_and c d = cube32_zero"
  using conflict_iff [OF assms(1,2)] assms
  by (auto simp: cube_and_def cube32_zero_def Let_def)

lemma cube_and_no_conflict:
  assumes "canonical c" and "canonical d"
    and "\<And>i. i < 32 \<Longrightarrow> lit_at c i = Dash \<or> lit_at d i = Dash \<or> lit_at c i = lit_at d i"
  shows "lit_at (cube_and c d) i = (if lit_at c i = Dash then lit_at d i else lit_at c i)"
    and "canonical (cube_and c d)"
proof -
  have "(polarity c XOR polarity d) AND (lit_mask c AND lit_mask d) = 0"
    using conflict_iff [OF assms(1,2)] assms(3) by blast
  then have "cube_and c d = cube_of_value (cube_value c OR cube_value d)"
    by (simp add: cube_and_def Let_def)
  then have m: "lit_mask (cube_and c d) = lit_mask c OR lit_mask d"
    and p: "polarity (cube_and c d) = polarity c OR polarity d"
    by (simp_all add: lit_mask_of_value polarity_of_value)
  show "canonical (cube_and c d)"
    using assms(1,2) by (auto simp: canonical_iff m p bit_simps)
  show "lit_at (cube_and c d) i = (if lit_at c i = Dash then lit_at d i else lit_at c i)"
  proof (cases "i < 32")
    case True
    then show ?thesis
      using assms(3) [OF True]
      by (subst lit_at_def, cases "lit_at c i"; cases "lit_at d i")
        (simp_all add: m p bit_simps bit_of_lit [OF assms(1)] bit_of_lit [OF assms(2)])
  qed simp
qed

lemma canonical_zero [wf_intros]: "canonical cube32_zero"
  by (simp add: canonical_def cube32_zero_def)

lemma canonical_and [wf_intros]:
  "canonical c \<Longrightarrow> canonical d \<Longrightarrow> canonical (cube_and c d)"
  using cube_and_conflict [of c d] cube_and_no_conflict(2) [of c d] canonical_zero by metis

section \<open>The Boolean function of a cube\<close>

lemma cube_eval_iff: "cube_eval c v \<longleftrightarrow> (\<forall>i < 32. lit_sat (lit_at c i) (v i))"
  by (auto simp: cube_eval_def list_all_iff)

lemma cube_evalI: "(\<And>i. i < 32 \<Longrightarrow> lit_sat (lit_at c i) (v i)) \<Longrightarrow> cube_eval c v"
  by (simp add: cube_eval_iff)

text \<open>One variable pulled out of the product: the shape every exchange of literals has.\<close>

lemma cube_eval_at:
  "k < 32 \<Longrightarrow> cube_eval c v \<longleftrightarrow>
    lit_sat (lit_at c k) (v k) \<and> (\<forall>i < 32. i \<noteq> k \<longrightarrow> lit_sat (lit_at c i) (v i))"
  by (auto simp: cube_eval_iff)

lemma cube_eval_one [eval_simps]: "cube_eval cube32_one v"
  by (simp add: cube_eval_iff lit_simps)

lemma cube_eval_zero: "cube_eval cube32_zero v \<longleftrightarrow> (\<forall>i < 32. \<not> v i)"
  by (simp add: cube_eval_iff lit_simps)

lemma cube_eval_and:
  assumes "canonical c" and "canonical d" and "cube_and c d \<noteq> cube32_zero"
  shows "cube_eval (cube_and c d) v \<longleftrightarrow> cube_eval c v \<and> cube_eval d v"
proof -
  have nc: "lit_at c i = Dash \<or> lit_at d i = Dash \<or> lit_at c i = lit_at d i" if "i < 32" for i
    using cube_and_conflict [OF assms(1,2) that] assms(3) by blast
  have "lit_sat (lit_at (cube_and c d) i) b \<longleftrightarrow> lit_sat (lit_at c i) b \<and> lit_sat (lit_at d i) b"
    if "i < 32" for i b
    using nc [OF that] by (auto simp: cube_and_no_conflict(1) [OF assms(1,2) nc])
  then show ?thesis by (auto simp: cube_eval_iff)
qed

text \<open>
  The product of two cubes over fewer than 32 variables is the zero cube exactly where
  the cubes have no common point. (With 32 variables the zero cube is also the product
  of all 32 negative literals, as the root theory states.)
\<close>

lemma cube_and_zero_iff:
  assumes c: "cube_ok n c" and d: "cube_ok n d" and n: "n < 32"
  shows "cube_and c d = cube32_zero \<longleftrightarrow> (\<nexists>v. cube_eval c v \<and> cube_eval d v)"
proof (cases "\<exists>i < 32. lit_at c i \<noteq> Dash \<and> lit_at d i \<noteq> Dash \<and> lit_at c i \<noteq> lit_at d i")
  case True
  then obtain i where i: "i < 32" "lit_at c i \<noteq> Dash" "lit_at d i \<noteq> Dash" "lit_at c i \<noteq> lit_at d i"
    by blast
  then have "\<not> (lit_sat (lit_at c i) b \<and> lit_sat (lit_at d i) b)" for b
    by (cases "lit_at c i"; cases "lit_at d i") auto
  with i show ?thesis
    using cube_and_conflict [OF cube_ok_canonical [OF c] cube_ok_canonical [OF d] i]
    by (auto simp: cube_eval_iff)
next
  case False
  then have nc: "lit_at c i = Dash \<or> lit_at d i = Dash \<or> lit_at c i = lit_at d i" if "i < 32" for i
    using that by blast
  have "lit_at c n = Dash" "lit_at d n = Dash"
    using cube_ok_lit [OF c] cube_ok_lit [OF d] by blast+
  then have "lit_at (cube_and c d) n = Dash"
    using cube_and_no_conflict(1) [OF cube_ok_canonical [OF c] cube_ok_canonical [OF d] nc] by simp
  then have neq: "cube_and c d \<noteq> cube32_zero" using n by (auto simp: lit_simps)
  define v where "v i \<longleftrightarrow> lit_at c i = Pos \<or> lit_at d i = Pos" for i
  have "lit_sat (lit_at c i) (v i) \<and> lit_sat (lit_at d i) (v i)" if "i < 32" for i
    using nc [OF that] by (cases "lit_at c i"; cases "lit_at d i") (auto simp: v_def)
  then have "cube_eval c v \<and> cube_eval d v" by (simp add: cube_eval_iff)
  with neq show ?thesis by blast
qed

lemma cube_ok_and:
  assumes "cube_ok n c" and "cube_ok n d" and "cube_and c d \<noteq> cube32_zero"
  shows "cube_ok n (cube_and c d)"
proof (rule cube_okI)
  have can: "canonical c" "canonical d" using assms by (auto dest: cube_ok_canonical)
  then show "canonical (cube_and c d)" by (rule canonical_and)
  have nc: "lit_at c i = Dash \<or> lit_at d i = Dash \<or> lit_at c i = lit_at d i" if "i < 32" for i
    using cube_and_conflict [OF can that] assms(3) by blast
  fix i assume "lit_at (cube_and c d) i \<noteq> Dash"
  then have "lit_at c i \<noteq> Dash \<or> lit_at d i \<noteq> Dash"
    by (auto simp: cube_and_no_conflict(1) [OF can nc] split: if_splits)
  then show "i < n" using assms cube_ok_lit by blast
qed

lemma cube_eval_invert:
  assumes "canonical c" and "n_lits c = 1"
  shows "cube_eval (invert c) v = (\<not> cube_eval c v)"
proof -
  have "card {i. i < 32 \<and> bit (lit_mask c) i} = 1"
    using assms(2) by (simp add: n_lits_def popcount_card)
  then obtain k where k: "{i. i < 32 \<and> bit (lit_mask c) i} = {k}"
    by (auto simp: card_1_singleton_iff)
  have k32: "k < 32" and occ: "lit_at c k \<noteq> Dash"
    using k by (auto simp: lit_at_def set_eq_iff)
  have rest: "lit_at c i = Dash" if "i \<noteq> k" for i
    using k that by (cases "i < 32") (auto simp: lit_at_def set_eq_iff)
  show ?thesis
    using occ by (cases "lit_at c k")
      (auto simp: cube_eval_at [OF k32] lit_at_invert [OF assms(1)] rest)
qed

section \<open>Distance\<close>

lemma distance_card:
  "canonical c \<Longrightarrow> canonical d \<Longrightarrow> distance c d = card {i. i < 32 \<and> lit_at c i \<noteq> lit_at d i}"
  by (simp add: distance_def popcount_card bit_difference)

lemma distance_0_iff:
  "canonical c \<Longrightarrow> canonical d \<Longrightarrow> distance c d = 0 \<longleftrightarrow> c = d"
  by (auto simp: distance_card intro: cube_eqI)

lemma difference_sym: "difference c d = difference d c"
  by (simp add: difference_def ac_simps)

lemma distance_sym: "distance c d = distance d c"
  by (simp add: distance_def difference_sym)

lemma distance_le_ok:
  assumes "cube_ok n c" and "cube_ok n d"
  shows "distance c d \<le> n"
  unfolding distance_def
proof (rule popcount_below)
  fix i assume "bit (difference c d) i"
  then have "lit_at c i \<noteq> Dash \<or> lit_at d i \<noteq> Dash"
    using assms by (metis bit_difference cube_ok_canonical)
  then show "i < n" using assms cube_ok_lit by blast
qed

lemma distance_1D:
  assumes "canonical c" and "canonical d" and "distance c d = 1"
  obtains k where "k < 32" and "lit_at c k \<noteq> lit_at d k"
    and "\<And>i. i \<noteq> k \<Longrightarrow> lit_at c i = lit_at d i"
proof -
  have "card {i. i < 32 \<and> lit_at c i \<noteq> lit_at d i} = 1"
    using assms by (simp add: distance_card)
  then obtain k where k: "{i. i < 32 \<and> lit_at c i \<noteq> lit_at d i} = {k}"
    by (auto simp: card_1_singleton_iff)
  show thesis
  proof (rule that [of k])
    show "k < 32" "lit_at c k \<noteq> lit_at d k" using k by auto
    fix i assume "i \<noteq> k"
    then show "lit_at c i = lit_at d i" using k by (cases "i < 32") auto
  qed
qed

lemma distance_1I:
  assumes "canonical c" and "canonical d" and "k < 32" and "lit_at c k \<noteq> lit_at d k"
    and "\<And>i. i \<noteq> k \<Longrightarrow> lit_at c i = lit_at d i"
  shows "distance c d = 1"
proof -
  have "{i. i < 32 \<and> lit_at c i \<noteq> lit_at d i} = {k}"
    using assms(3-5) by auto
  then show ?thesis using assms(1,2) by (simp add: distance_card)
qed

lemma n_lits_le: "cube_ok n c \<Longrightarrow> n_lits c \<le> n"
  unfolding n_lits_def by (rule popcount_below) (auto simp: cube_ok_iff)

lemma n_lits_distance: "n_lits c \<le> n_lits d + distance c d"
proof -
  have "popcount (lit_mask c XOR lit_mask d) \<le> distance c d"
    unfolding distance_def difference_def by (rule popcount_mono) (simp add: bit_simps)
  with popcount_xor_bound [of "lit_mask c" "lit_mask d"] show ?thesis
    by (simp add: n_lits_def)
qed

lemma n_lits_one: "n_lits cube32_one = 0"
  by (simp add: n_lits_def cube32_one_def popcount_0_iff)

text \<open>Two cubes that differ at one variable: their exclusive sum is one cube, \<^verbatim>\<open>merge\<close>.\<close>

lemma cube_eval_merge:
  assumes "canonical c" and "canonical d" and "distance c d = 1"
  shows "cube_eval (merge c d) v = (cube_eval c v \<noteq> cube_eval d v)"
proof -
  obtain k where k: "k < 32" "lit_at c k \<noteq> lit_at d k"
    and rest: "\<And>i. i \<noteq> k \<Longrightarrow> lit_at c i = lit_at d i"
    using distance_1D [OF assms] by blast
  have m: "lit_at (merge c d) k = other (lit_at c k) (lit_at d k)"
    and mr: "\<And>i. i \<noteq> k \<Longrightarrow> lit_at (merge c d) i = lit_at d i"
    using k rest by (simp_all add: lit_at_merge [OF assms(1,2)])
  show ?thesis
    using k by (auto simp: cube_eval_at [OF k(1)] m mr rest lit_sat_other)
qed

text \<open>
  \<^verbatim>\<open>rotate(i)\<close> walks through the three literals of variable \<open>i\<close>; applied once and
  twice for each variable it reaches every cube at distance 1.
\<close>

lemma rotate_cycle:
  assumes "canonical c" and "i < 32"
  shows "cube_rotate i (cube_rotate i (cube_rotate i c)) = c"
  by (rule cube_eqI) (use assms in \<open>auto intro: wf_intros simp: lit_simps wf_intros next_lit_cycle\<close>)

lemma next_lit_changes: "next_lit l \<noteq> l" "next_lit (next_lit l) \<noteq> l"
  by (cases l; simp)+

lemma rotate_distance:
  assumes "canonical c" and "i < 32"
  shows "distance c (cube_rotate i c) = 1"
  by (rule distance_1I [where k = i])
    (use assms next_lit_changes [of "lit_at c i"] in \<open>auto intro: wf_intros simp: lit_simps\<close>)

lemma rotate2_distance:
  assumes "canonical c" and "i < 32"
  shows "distance c (cube_rotate i (cube_rotate i c)) = 1"
  by (rule distance_1I [where k = i])
    (use assms next_lit_changes [of "lit_at c i"] in \<open>auto intro: wf_intros simp: lit_simps wf_intros\<close>)

lemma rotate_reaches:
  assumes c: "cube_ok n c" and d: "cube_ok n d" and dist: "distance c d = 1"
  obtains i where "i < n" and "i < 32"
    and "d = cube_rotate i c \<or> d = cube_rotate i (cube_rotate i c)"
proof -
  have can: "canonical c" "canonical d" using c d by (auto dest: cube_ok_canonical)
  obtain k where k: "k < 32" "lit_at c k \<noteq> lit_at d k"
    and rest: "\<And>i. i \<noteq> k \<Longrightarrow> lit_at c i = lit_at d i"
    using distance_1D [OF can dist] by blast
  have "k < n" using k(2) cube_ok_lit [OF c, of k] cube_ok_lit [OF d, of k] by metis
  moreover have "d = cube_rotate k c \<or> d = cube_rotate k (cube_rotate k c)"
    using next_lit_neq [OF k(2)]
  proof
    assume "lit_at d k = next_lit (lit_at c k)"
    then have "d = cube_rotate k c"
      by (intro cube_eqI) (use can k rest in \<open>auto intro: wf_intros simp: lit_simps\<close>)
    then show ?thesis ..
  next
    assume "lit_at d k = next_lit (next_lit (lit_at c k))"
    then have "d = cube_rotate k (cube_rotate k c)"
      by (intro cube_eqI) (use can k rest in \<open>auto intro: wf_intros simp: lit_simps wf_intros\<close>)
    then show ?thesis ..
  qed
  ultimately show thesis using k(1) that by blast
qed

section \<open>The exclusive sum of a list of cubes\<close>

lemma esop_eval_parity:
  "esop_eval v cs = odd (size (filter_mset (\<lambda>c. cube_eval c v) (mset cs)))"
  by (induction cs) auto

lemma esop_eval_append [eval_simps]:
  "esop_eval v (cs @ ds) = (esop_eval v cs \<noteq> esop_eval v ds)"
  by (induction cs) auto

lemma esop_eval_cong_mset: "mset cs = mset ds \<Longrightarrow> esop_eval v cs = esop_eval v ds"
  by (simp add: esop_eval_parity)

lemma esop_eval_mset_add:
  "mset cs = add_mset c (mset ds) \<Longrightarrow> esop_eval v cs = (cube_eval c v \<noteq> esop_eval v ds)"
  using esop_eval_cong_mset [of cs "c # ds"] by simp

lemma sop_eval_simps [eval_simps]:
  "sop_eval v [] = False"
  "sop_eval v (c # cs) = (cube_eval c v \<or> sop_eval v cs)"
  by (simp_all add: sop_eval_def)

text \<open>Products that are never true together: their inclusive sum is the exclusive one.\<close>

lemma sop_eq_esop:
  "sorted_wrt (\<lambda>c d. \<nexists>v. cube_eval c v \<and> cube_eval d v) cs \<Longrightarrow> sop_eval v cs = esop_eval v cs"
proof (induction cs)
  case (Cons c cs)
  have "\<not> sop_eval v cs" if "cube_eval c v"
    using Cons.prems that by (auto simp: sop_eval_def list_ex_iff)
  with Cons show ?case by (auto simp: eval_simps)
qed (simp add: eval_simps)

interpretation cs: parity_set uset_empty "uset_insert P" uset_erase uset_find elems uset_inv
    "\<lambda>_. True" "\<lambda>v c. cube_eval c v" esop_eval
  for P :: "cube32 policy"
  by unfold_locales (rule esop_eval_parity)

text \<open>\<^verbatim>\<open>distance\<close> counts the variables with different literals. For cubes over \<open>n\<close> variables it is at
  most \<open>n\<close>, zero for equal cubes only, and bounds how far their numbers of literals are apart,
  which is why \<^verbatim>\<open>add_cube\<close> need only look at some of the buckets.\<close>

theorem distance_counts:
  assumes "cube_ok n c" and "cube_ok n d"
  shows "distance c d = card {i. i < 32 \<and> lit_at c i \<noteq> lit_at d i} \<and> distance c d \<le> n \<and>
    (distance c d = 0 \<longleftrightarrow> c = d) \<and> distance c d = distance d c \<and>
    n_lits c \<le> n_lits d + distance c d"
proof -
  have can: "canonical c" "canonical d" using assms by (simp_all add: cube_ok_canonical)
  show ?thesis
    using distance_card [OF can] distance_le_ok [OF assms] distance_0_iff [OF can]
      distance_sym [of c d] n_lits_distance [of c d] by blast
qed

end
