(* ===== verification/Two_Lvl32.thy ===== *)
theory Two_Lvl32
  imports Cube32 "HOL-Library.Sublist"
begin

text \<open>
  \<^verbatim>\<open>source/kernel/two_lvl32.hpp\<close>: a function with several outputs as one list of cubes
  per output, to be read as an inclusive or an exclusive sum according to \<open>kind\<close>.
  \<^verbatim>\<open>add_cube\<close> reads one row of a PLA file. A literal at an index of 32 or more is a shift
  by at least the width of the word, and an output column without a list is a write
  out of range: both are undefined, \<open>None\<close> here.
\<close>

datatype kind_t = SOP | ESOP | UNDEF

record two_lvl32 =
  kind :: kind_t
  n_inputs :: nat
  cubes :: "cube32 list list"

text \<open>
  \<^verbatim>\<open>two_lvl32 f;\<close> leaves \<^verbatim>\<open>_kind\<close> and \<^verbatim>\<open>_n_inputs\<close> indeterminate: the arguments are
  whatever they happen to hold.
\<close>

definition two_lvl32_uninit :: "kind_t \<Rightarrow> nat \<Rightarrow> two_lvl32" where
  "two_lvl32_uninit k n = \<lparr>kind = k, n_inputs = n, cubes = []\<rparr>"

definition set_n_inputs :: "nat \<Rightarrow> two_lvl32 \<Rightarrow> two_lvl32" where
  "set_n_inputs n_in f = f\<lparr>n_inputs := n_in\<rparr>"

definition set_n_outputs :: "nat \<Rightarrow> two_lvl32 \<Rightarrow> two_lvl32" where
  "set_n_outputs n_out f = f\<lparr>cubes := vec_resize [] n_out (cubes f)\<rparr>"

text \<open>\<^verbatim>\<open>k.find(pat) != std::string::npos\<close>\<close>

fun str_contains :: "string \<Rightarrow> string \<Rightarrow> bool" where
  "str_contains pat [] = (pat = [])"
| "str_contains pat (c # cs) = (take (length pat) (c # cs) = pat \<or> str_contains pat cs)"

definition set_kind :: "string \<Rightarrow> two_lvl32 \<Rightarrow> two_lvl32" where
  "set_kind k f =
     (if str_contains ''esop'' k then f\<lparr>kind := ESOP\<rparr>
      else if str_contains ''sop'' k then f\<lparr>kind := SOP\<rparr>
      else f\<lparr>kind := UNDEF\<rparr>)"

fun read_lits :: "nat \<Rightarrow> string \<Rightarrow> cube32 \<Rightarrow> cube32 option" where
  "read_lits i [] cube = Some cube"
| "read_lits i (ch # chs) cube =
     (if ch = CHR ''-'' then read_lits (Suc i) chs cube
      else if ch = CHR ''1'' then
        (if i < 32 then read_lits (Suc i) chs (add_lit i 1 cube) else None)
      else if ch = CHR ''0'' then
        (if i < 32 then read_lits (Suc i) chs (add_lit i 0 cube) else None)
      else read_lits (Suc i) chs cube)"

fun push_outputs :: "cube32 \<Rightarrow> nat \<Rightarrow> string \<Rightarrow> cube32 list list \<Rightarrow> cube32 list list option" where
  "push_outputs cube i [] cs = Some cs"
| "push_outputs cube i (ch # chs) cs =
     (if ch = CHR ''1''
      then do { cs' \<leftarrow> vec_modify i (\<lambda>esop. esop @ [cube]) cs; push_outputs cube (Suc i) chs cs' }
      else push_outputs cube (Suc i) chs cs)"

definition two_lvl_add_cube :: "string \<Rightarrow> string \<Rightarrow> two_lvl32 \<Rightarrow> two_lvl32 option" where
  "two_lvl_add_cube inp out f =
     do { cube \<leftarrow> read_lits 0 inp cube32_default;
          cs \<leftarrow> push_outputs cube 0 out (cubes f);
          Some (f\<lparr>cubes := cs\<rparr>) }"

text \<open>
  The function of output \<open>k\<close>, and what it means for a two-level form to be well-formed:
  at most 32 inputs, and each cube canonical over them.
\<close>

definition output_eval :: "two_lvl32 \<Rightarrow> nat \<Rightarrow> (nat \<Rightarrow> bool) \<Rightarrow> bool" where
  "output_eval f k v = (if kind f = SOP then sop_eval v (cubes f ! k) else esop_eval v (cubes f ! k))"

text \<open>The functions of all outputs, read as exclusive sums.\<close>

definition esop_sem :: "two_lvl32 \<Rightarrow> ((nat \<Rightarrow> bool) \<Rightarrow> bool) list" where
  "esop_sem f = map (\<lambda>cs v. esop_eval v cs) (cubes f)"

definition two_lvl_ok :: "two_lvl32 \<Rightarrow> bool" where
  "two_lvl_ok f \<longleftrightarrow>
     n_inputs f \<le> 32 \<and> list_all (list_all (cube_ok (n_inputs f))) (cubes f)"

section \<open>Kinds\<close>

lemma str_contains_sublist: "str_contains pat s = sublist pat s"
proof (induction s)
  case (Cons c cs)
  have "prefix pat (c # cs) \<longleftrightarrow> take (length pat) (c # cs) = pat"
    by (metis append_eq_conv_conj prefix_def take_is_prefix)
  with Cons show ?case by (simp add: sublist_Cons_right)
qed (simp add: sublist_Nil_right)

text \<open>The kind of a form is decided by what occurs in the type string, \<^verbatim>\<open>esop\<close> first.\<close>

lemma set_kind_sublist:
  "set_kind k f = f\<lparr>kind := if sublist ''esop'' k then ESOP else if sublist ''sop'' k then SOP else UNDEF\<rparr>"
  by (simp add: set_kind_def str_contains_sublist)

section \<open>Rows\<close>

text \<open>The literal a character of a row stands for, and the row a cube is printed as.\<close>

definition char_lit :: "char \<Rightarrow> literal" where
  "char_lit ch = (if ch = CHR ''1'' then Pos else if ch = CHR ''0'' then Neg else Dash)"

definition lit_char :: "literal \<Rightarrow> char" where
  "lit_char l = (case l of Dash \<Rightarrow> CHR ''-'' | Neg \<Rightarrow> CHR ''0'' | Pos \<Rightarrow> CHR ''1'')"

lemma char_lit_lit_char [simp]: "char_lit (lit_char l) = l"
  by (cases l) (simp_all add: char_lit_def lit_char_def)

lemma read_lits_spec:
  assumes "canonical cube" and "\<And>j. i \<le> j \<Longrightarrow> lit_at cube j = Dash" and "i + length chs \<le> 32"
  shows "\<exists>c. read_lits i chs cube = Some c \<and> canonical c \<and>
    (\<forall>j. lit_at c j = (if j < i then lit_at cube j
       else if j - i < length chs then char_lit (chs ! (j - i)) else Dash))"
  using assms
proof (induction chs arbitrary: i cube)
  case Nil
  then show ?case by (auto simp: not_less)
next
  case (Cons ch chs)
  define cube' where "cube' = (if ch = CHR ''1'' then add_lit i 1 cube
    else if ch = CHR ''0'' then add_lit i 0 cube else cube)"
  have i: "i < 32" using Cons.prems(3) by simp
  have step: "read_lits i (ch # chs) cube = read_lits (Suc i) chs cube'"
    using i by (simp add: cube'_def)
  have lits: "lit_at cube' j = (if j = i then char_lit ch else lit_at cube j)" for j
    using Cons.prems(1,2) i by (auto simp: cube'_def lit_simps char_lit_def)
  have "canonical cube'" using Cons.prems(1) by (auto simp: cube'_def intro: wf_intros)
  then obtain c where c: "read_lits (Suc i) chs cube' = Some c" "canonical c"
    and lc: "\<And>j. lit_at c j = (if j < Suc i then lit_at cube' j
       else if j - Suc i < length chs then char_lit (chs ! (j - Suc i)) else Dash)"
    using Cons.IH [of cube' "Suc i"] Cons.prems(2,3) by (auto simp: lits)
  have "lit_at c j = (if j < i then lit_at cube j
       else if j - i < length (ch # chs) then char_lit ((ch # chs) ! (j - i)) else Dash)" for j
  proof (cases "j = i")
    case True
    then show ?thesis by (simp add: lc lits)
  next
    case False
    then have "\<not> j < i \<Longrightarrow> j - i = Suc (j - Suc i)" by simp
    with False show ?thesis by (cases "j < i") (simp_all add: lc lits)
  qed
  with c step show ?case by auto
qed

lemma read_lits_row:
  assumes "length row \<le> 32"
  obtains c where "read_lits 0 row cube32_default = Some c" and "cube_ok (length row) c"
    and "\<And>j. lit_at c j = (if j < length row then char_lit (row ! j) else Dash)"
proof -
  obtain c where c: "read_lits 0 row cube32_default = Some c" "canonical c"
    and l: "\<And>j. lit_at c j = (if j < length row then char_lit (row ! j) else Dash)"
    using read_lits_spec [of cube32_default 0 row] assms
    by (auto simp: cube32_default_one lit_simps canonical_one)
  then have "cube_ok (length row) c" by (auto intro: cube_okI split: if_splits)
  with c l that show thesis by blast
qed

lemma cube_str_lits:
  assumes "canonical c" and "n \<le> 32"
  shows "cube_str n c = map (\<lambda>i. lit_char (lit_at c i)) [0..<n]"
  by (auto simp: cube_str_def lit_at_def lit_char_def and_shl1_iff drop_bit_and_one)


text \<open>Printing a cube and reading the row gives the cube back, and the other way round.\<close>

lemma length_cube_str [simp]: "length (cube_str n c) = n"
  by (simp add: cube_str_def)

lemma read_lits_cube_str:
  assumes "cube_ok n c" and "n \<le> 32"
  shows "read_lits 0 (cube_str n c) cube32_default = Some c"
proof -
  obtain d where d: "read_lits 0 (cube_str n c) cube32_default = Some d" "cube_ok n d"
    and l: "\<And>j. lit_at d j = (if j < n then char_lit (cube_str n c ! j) else Dash)"
    using read_lits_row [of "cube_str n c"] assms(2) by auto
  have "lit_at d j = lit_at c j" for j
    using cube_ok_lit [OF assms(1), of j] assms
    by (cases "lit_at c j = Dash") (auto simp: l cube_str_lits cube_ok_canonical)
  then have "d = c"
    using assms d by (auto intro: cube_eqI cube_ok_canonical)
  with d show ?thesis by simp
qed

lemma cube_str_read_lits:
  assumes "length row \<le> 32" and "set row \<subseteq> {CHR ''-'', CHR ''0'', CHR ''1''}"
    and "read_lits 0 row cube32_default = Some c"
  shows "cube_str (length row) c = row"
proof -
  obtain d where "read_lits 0 row cube32_default = Some d" and ok: "cube_ok (length row) d"
    and ld: "\<And>j. lit_at d j = (if j < length row then char_lit (row ! j) else Dash)"
    using read_lits_row [OF assms(1)] by blast
  with assms(3) have "d = c" by simp
  note c = ok [unfolded this] and l = ld [unfolded this]
  have ch: "lit_char (char_lit ch) = ch" if "ch \<in> set row" for ch
    using assms(2) that by (auto simp: char_lit_def lit_char_def)
  show ?thesis
    by (rule nth_equalityI)
      (simp_all add: cube_str_lits [OF cube_ok_canonical [OF c] assms(1)] l ch)
qed

section \<open>Adding a row\<close>

lemma push_outputs_spec:
  assumes "i + length out \<le> length cs"
  shows "push_outputs c i out cs =
    Some (map (\<lambda>k. if i \<le> k \<and> k < i + length out \<and> out ! (k - i) = CHR ''1''
      then cs ! k @ [c] else cs ! k) [0..<length cs])"
  using assms
proof (induction out arbitrary: i cs)
  case Nil
  have "(if i \<le> k \<and> k < i + length ([] :: string) \<and> [] ! (k - i) = CHR ''1''
      then cs ! k @ [c] else cs ! k) = cs ! k" for k
    by simp
  then show ?case by (simp only: push_outputs.simps map_nth)
next
  case (Cons ch out)
  have i: "i < length cs" using Cons.prems by simp
  define cs' where "cs' = (if ch = CHR ''1'' then cs[i := cs ! i @ [c]] else cs)"
  have len: "length cs' = length cs" by (simp add: cs'_def)
  have "push_outputs c i (ch # out) cs = push_outputs c (Suc i) out cs'"
    using i by (simp add: cs'_def vec_simps)
  also have "\<dots> = Some (map (\<lambda>k. if Suc i \<le> k \<and> k < Suc i + length out \<and> out ! (k - Suc i) = CHR ''1''
      then cs' ! k @ [c] else cs' ! k) [0..<length cs'])"
    using Cons.IH [of "Suc i" cs'] Cons.prems len by simp
  also have "\<dots> = Some (map (\<lambda>k. if i \<le> k \<and> k < i + length (ch # out) \<and> (ch # out) ! (k - i) = CHR ''1''
      then cs ! k @ [c] else cs ! k) [0..<length cs])"
    by (auto simp: len cs'_def nth_Cons' not_less_eq_eq)
  finally show ?case .
qed

lemma two_lvl_add_cube_spec:
  assumes "length inp \<le> 32" and "length out \<le> length (cubes f)"
  obtains c where "cube_ok (length inp) c"
    and "\<And>j. lit_at c j = (if j < length inp then char_lit (inp ! j) else Dash)"
    and "two_lvl_add_cube inp out f =
      Some (f\<lparr>cubes := map (\<lambda>k. if k < length out \<and> out ! k = CHR ''1''
        then cubes f ! k @ [c] else cubes f ! k) [0..<length (cubes f)]\<rparr>)"
proof -
  obtain c where "read_lits 0 inp cube32_default = Some c" "cube_ok (length inp) c"
    "\<And>j. lit_at c j = (if j < length inp then char_lit (inp ! j) else Dash)"
    using read_lits_row [OF assms(1)] by blast
  then show thesis
    by (intro that [of c])
      (simp_all add: two_lvl_add_cube_def push_outputs_spec [of 0 out "cubes f"] assms(2))
qed

end
