(* ===== verification/Printf.thy ===== *)
theory Printf
  imports Prelude
begin

text \<open>
  What \<^verbatim>\<open>fprintf\<close> makes of the conversions that the program uses: \<open>%u\<close>, \<open>%lu\<close> and the
  decimal output of streams, \<open>%d\<close> on a 32-bit value, which is read as signed, and a minimal
  width, which is filled with blanks on the left.
\<close>

definition newline :: char where
  "newline = CHR 0x0A"

definition digit_char :: "nat \<Rightarrow> char" where
  "digit_char d = char_of (48 + d)"

fun show_nat :: "nat \<Rightarrow> string" where
  "show_nat n = (if n < 10 then [digit_char n] else show_nat (n div 10) @ [digit_char (n mod 10)])"

declare show_nat.simps [simp del]

definition show_int :: "u32 \<Rightarrow> string" where
  "show_int x = (if sint x < 0 then ''-'' @ show_nat (nat (- sint x)) else show_nat (nat (sint x)))"

definition pad :: "nat \<Rightarrow> string \<Rightarrow> string" where
  "pad width s = replicate (width - length s) (CHR '' '') @ s"

end
