(* ===== verification/Pla.thy ===== *)
theory Pla
  imports Two_Lvl32 Printf
begin

text \<open>
  \<^verbatim>\<open>source/io/read_pla.hpp\<close> and \<^verbatim>\<open>write_pla.hpp\<close>. The reader takes the text of the file
  from a \<^verbatim>\<open>std::stringstream\<close>; the model of the stream has the characters that are left
  and the two state bits the code runs into, and \<^verbatim>\<open>peek\<close>, \<^verbatim>\<open>getline\<close> and \<^verbatim>\<open>>>\<close> as
  the standard describes them. Opening the file is outside the model: the reader's argument
  is its text, or \<open>None\<close> if it cannot be opened.

  The reader's loop may run forever. Its result is an option of an option: \<open>None\<close> if
  it does not return, \<open>Some None\<close> if it runs into undefined behaviour (a row with a
  literal at index 32 or more). What is printed is part of the result.
\<close>

section \<open>Streams\<close>

record sstream =
  sbuf :: string
  eofbit :: bool
  failbit :: bool

definition open_stream :: "string \<Rightarrow> sstream" where
  "open_stream text = \<lparr>sbuf = text, eofbit = False, failbit = False\<rparr>"

definition good :: "sstream \<Rightarrow> bool" where
  "good s \<longleftrightarrow> \<not> eofbit s \<and> \<not> failbit s"

definition peek :: "sstream \<Rightarrow> char option \<times> sstream" where
  "peek s =
     (if \<not> good s then (None, s\<lparr>failbit := True\<rparr>)
      else (case sbuf s of [] \<Rightarrow> (None, s\<lparr>eofbit := True\<rparr>) | c # _ \<Rightarrow> (Some c, s)))"

text \<open>\<^verbatim>\<open>std::getline(s, str, delim)\<close>; if the stream is not good, \<open>str\<close> keeps its value.\<close>

definition getline :: "char \<Rightarrow> string \<Rightarrow> sstream \<Rightarrow> string \<times> sstream" where
  "getline delim str s =
     (if \<not> good s then (str, s\<lparr>failbit := True\<rparr>)
      else let line = takeWhile (\<lambda>c. c \<noteq> delim) (sbuf s)
           in (case dropWhile (\<lambda>c. c \<noteq> delim) (sbuf s) of
                 [] \<Rightarrow> (line, s\<lparr>sbuf := [], eofbit := True, failbit := (line = [])\<rparr>)
               | _ # rest \<Rightarrow> (line, s\<lparr>sbuf := rest\<rparr>)))"

definition is_space :: "char \<Rightarrow> bool" where
  "is_space c \<longleftrightarrow> c = CHR '' '' \<or> (9 \<le> (of_char c :: nat) \<and> (of_char c :: nat) \<le> 13)"

definition is_digit :: "char \<Rightarrow> bool" where
  "is_digit c \<longleftrightarrow> 48 \<le> (of_char c :: nat) \<and> (of_char c :: nat) \<le> 57"

definition digits_value :: "string \<Rightarrow> nat" where
  "digits_value ds = foldl (\<lambda>n c. 10 * n + (of_char c - 48)) 0 ds"

text \<open>
  \<^verbatim>\<open>s >> x\<close> for an unsigned 32-bit \<open>x\<close>, whose old value is an argument: white space
  is skipped, then \<^verbatim>\<open>num_get\<close> takes an optional sign and digits. Without digits the value is
  0, out of range it is the largest one, and the stream fails in both cases.
\<close>

definition num_get :: "string \<Rightarrow> nat \<times> bool \<times> string" where
  "num_get cs =
     (let sign = (cs \<noteq> [] \<and> (hd cs = CHR ''-'' \<or> hd cs = CHR ''+''));
          body = (if sign then tl cs else cs);
          ds = takeWhile is_digit body;
          n = digits_value ds;
          (x, bad) = (if ds = [] then (0, True)
                      else if 2 ^ 32 \<le> n then (2 ^ 32 - 1, True)
                      else (if sign \<and> hd cs = CHR ''-'' then (2 ^ 32 - n) mod 2 ^ 32 else n, False))
      in (x, bad, dropWhile is_digit body))"

definition read_uint :: "nat \<Rightarrow> sstream \<Rightarrow> nat \<times> sstream" where
  "read_uint x s =
     (if \<not> good s then (x, s\<lparr>failbit := True\<rparr>)
      else let cs = dropWhile is_space (sbuf s)
           in if cs = [] then (x, s\<lparr>sbuf := [], eofbit := True, failbit := True\<rparr>)
              else let (y, bad, rest) = num_get cs
                   in (y, s\<lparr>sbuf := rest, eofbit := (rest = []), failbit := bad\<rparr>))"

section \<open>Reading\<close>

text \<open>\<^verbatim>\<open>str[i]\<close>, for \<open>i\<close> at most the size of \<open>str\<close>\<close>

definition str_at :: "string \<Rightarrow> nat \<Rightarrow> char" where
  "str_at str i = (if i < length str then str ! i else CHR 0x00)"

definition to_lower :: "char \<Rightarrow> char" where
  "to_lower c = (if 65 \<le> (of_char c :: nat) \<and> (of_char c :: nat) \<le> 90
                 then char_of ((of_char c :: nat) + 32) else c)"

record pla_header =
  h_inputs :: nat
  h_outputs :: nat
  h_terms :: nat
  h_type :: string

lemma getline_shorter:
  "getline d str s = (line, s') \<Longrightarrow> length (sbuf s') \<le> length (sbuf s)"
  "getline d str s = (line, s') \<Longrightarrow> good s \<Longrightarrow> sbuf s \<noteq> [] \<Longrightarrow> length (sbuf s') < length (sbuf s)"
proof -
  have dw: "length (dropWhile (\<lambda>c. c \<noteq> d) xs) \<le> length xs" for xs :: string
    by (simp add: length_dropWhile_le)
  show "getline d str s = (line, s') \<Longrightarrow> length (sbuf s') \<le> length (sbuf s)"
    using dw [of "sbuf s"] by (auto simp: getline_def Let_def split: if_splits list.splits)
  show "getline d str s = (line, s') \<Longrightarrow> good s \<Longrightarrow> sbuf s \<noteq> [] \<Longrightarrow> length (sbuf s') < length (sbuf s)"
    using dw [of "sbuf s"] by (auto simp: getline_def Let_def split: if_splits list.splits)
qed

lemma num_get_shorter: "length (snd (snd (num_get cs))) \<le> length cs"
  using length_dropWhile_le [of is_digit "tl cs"] length_dropWhile_le [of is_digit cs]
  by (auto simp: num_get_def Let_def split_beta)

lemma read_uint_shorter: "length (sbuf (snd (read_uint x s))) \<le> length (sbuf s)"
  using num_get_shorter [of "dropWhile is_space (sbuf s)"] length_dropWhile_le [of is_space "sbuf s"]
  by (auto simp: read_uint_def Let_def split_beta)

text \<open>
  The body of the header's loop: one line, which starts with \<^verbatim>\<open>.\<close> or \<^verbatim>\<open>#\<close>. The last
  \<^verbatim>\<open>if\<close> of the code has no \<^verbatim>\<open>else\<close>, but its condition always holds there.
\<close>

definition header_line :: "pla_header \<Rightarrow> sstream \<Rightarrow> pla_header \<times> sstream" where
  "header_line h s =
     (let (line, s1) = getline (CHR '' '') '''' s
      in if str_at line 0 = CHR ''#'' then (h, snd (getline newline line s1))
         else if str_at line 0 = CHR ''.'' then
           let (n_in, s2) = (if str_at line 1 = CHR ''i'' then read_uint (h_inputs h) s1 else (h_inputs h, s1));
               (n_out, s3) = (if str_at line 1 = CHR ''o'' then read_uint (h_outputs h) s2 else (h_outputs h, s2));
               (n_trm, s4) = (if str_at line 1 = CHR ''p'' then read_uint (h_terms h) s3 else (h_terms h, s3));
               h' = h\<lparr>h_inputs := n_in, h_outputs := n_out, h_terms := n_trm\<rparr>
           in if str_at line 1 = CHR ''t''
              then let (type, s5) = getline newline (h_type h) s4 in (h'\<lparr>h_type := type\<rparr>, s5)
              else (h', snd (getline newline line s4))
         else (h, s1))"

lemma header_line_shorter:
  assumes "header_line h s = (h', s')" and "good s" and "sbuf s \<noteq> []"
  shows "length (sbuf s') < length (sbuf s)"
proof -
  obtain line s1 where s1: "getline (CHR '' '') '''' s = (line, s1)" by fastforce
  have lt: "length (sbuf s1) < length (sbuf s)" by (rule getline_shorter(2) [OF s1 assms(2,3)])
  have g: "length (sbuf (snd (getline d str t))) \<le> length (sbuf t)" for d str t
    by (rule getline_shorter(1) [of d str t "fst (getline d str t)"]) simp
  note r = read_uint_shorter
  have "length (sbuf s') \<le> length (sbuf s1)"
    using assms(1) order_trans [OF g r] g unfolding header_line_def s1 Let_def
    by (auto simp: split_beta split: if_splits)
  with lt show ?thesis by simp
qed

function read_header :: "pla_header \<Rightarrow> sstream \<Rightarrow> pla_header \<times> sstream" where
  "read_header h s =
     (case peek s of
        (Some c, s1) \<Rightarrow>
          if c = CHR ''.'' \<or> c = CHR ''#''
          then let (h', s2) = header_line h s1 in read_header h' s2
          else (h, s1)
      | (None, s1) \<Rightarrow> (h, s1))"
  by pat_completeness auto

lemma peek_Some: "peek s = (Some c, s1) \<Longrightarrow> good s \<and> s1 = s \<and> sbuf s \<noteq> []"
  by (auto simp: peek_def split: if_splits list.splits)

termination read_header
proof (relation "measure (\<lambda>(h, s). length (sbuf s))")
  fix h :: pla_header and s x1 and s1 c and x h' and s2
  assume "(x1, s1) = peek s" "x1 = Some c" "x = header_line h s1" "(h', s2) = x"
  then have "s1 = s" and "length (sbuf s2) < length (sbuf s)"
    using peek_Some [of s c s1] header_line_shorter [of h s1 h' s2] by auto
  then show "((h', s2), h, s) \<in> measure (\<lambda>(h, s). length (sbuf s))"
    by simp
qed simp

declare read_header.simps [simp del]

definition read_pla_header :: "sstream \<Rightarrow> pla_header \<times> sstream" where
  "read_pla_header buffer =
     (let (h, s) = read_header \<lparr>h_inputs = 0, h_outputs = 0, h_terms = 0, h_type = ''''\<rparr> buffer
      in (h\<lparr>h_type := map to_lower (h_type h)\<rparr>, s))"

definition inconsistent :: "string \<Rightarrow> string" where
  "inconsistent part = ''[e] Cube '' @ part @ '' data is inconsistent with the declared attributes'' @ [newline]"

text \<open>The rows: the form, the number of rows taken and what goes to the error stream.\<close>

partial_function (option) read_cubes ::
    "nat \<Rightarrow> nat \<Rightarrow> nat \<Rightarrow> sstream \<Rightarrow> two_lvl32 \<Rightarrow> (two_lvl32 \<times> nat \<times> string) option option" where
  "read_cubes n_in n_out n_cubes s f =
     (let (inp, s1) = getline (CHR '' '') '''' s
      in if str_at inp 0 = CHR ''.'' \<and> str_at inp 1 = CHR ''e'' then Some (Some (f, n_cubes, ''''))
         else if length inp \<noteq> n_in then Some (Some (f, n_cubes, inconsistent ''input''))
         else let (outp, s2) = getline newline '''' s1
              in if length outp \<noteq> n_out then Some (Some (f, n_cubes, inconsistent ''output''))
                 else (case two_lvl_add_cube inp outp f of
                         None \<Rightarrow> Some None
                       | Some f' \<Rightarrow> read_cubes n_in n_out (n_cubes + 1) s2 f'))"

declare read_cubes.simps [code]

definition pla_summary :: "nat \<Rightarrow> nat \<Rightarrow> nat \<Rightarrow> string" where
  "pla_summary n_in n_out n_cubes =
     ''[i] # inputs: '' @ show_int (of_nat n_in) @ [newline] @
     ''[i] # outputs: '' @ show_int (of_nat n_out) @ [newline] @
     ''[i] # terms: '' @ show_int (of_nat n_cubes) @ [newline]"

text \<open>
  \<open>k0\<close> and \<open>n0\<close> are what the uninitialised members of the result hold. The result is the form,
  the standard output and the error stream.
\<close>

definition read_pla :: "kind_t \<Rightarrow> nat \<Rightarrow> bool \<Rightarrow> string \<Rightarrow> string option \<Rightarrow>
    (two_lvl32 \<times> string \<times> string) option option" where
  "read_pla k0 n0 verbose fname file =
     (case file of
        None \<Rightarrow> Some (Some (two_lvl32_uninit k0 n0, '''', ''[e] Couldn't open file: '' @ fname @ [newline]))
      | Some text \<Rightarrow>
          let (h, s) = read_pla_header (open_stream text)
          in map_option (map_option (\<lambda>(f, n_cubes, err).
                 (f, if verbose then pla_summary (h_inputs h) (h_outputs h) n_cubes else '''', err)))
               (read_cubes (h_inputs h) (h_outputs h) 0 s
                  (set_n_outputs (h_outputs h) (set_n_inputs (h_inputs h)
                     (set_kind (h_type h) (two_lvl32_uninit k0 n0))))))"

section \<open>Writing\<close>

definition pla_text :: "nat \<Rightarrow> cube32 list \<Rightarrow> string" where
  "pla_text n esop =
     ''.i '' @ show_nat n @ [newline] @
     ''.o 1'' @ [newline] @
     ''.p '' @ show_nat (length esop) @ [newline] @
     concat (map (\<lambda>cube. cube_str n cube @ '' 1'' @ [newline]) esop) @
     ''.e'' @ [newline]"

text \<open>One file per output: its name and its text.\<close>

fun write_esops :: "string \<Rightarrow> nat \<Rightarrow> nat \<Rightarrow> cube32 list list \<Rightarrow> (string \<times> string) list" where
  "write_esops fname n i [] = []"
| "write_esops fname n i (esop # esops) =
     (fname @ ''_'' @ show_nat i @ ''.pla'', pla_text n esop) # write_esops fname n (Suc i) esops"

definition write_pla :: "string \<Rightarrow> two_lvl32 \<Rightarrow> (string \<times> string) list" where
  "write_pla fname pla = write_esops fname (n_inputs pla) 0 (cubes pla)"

section \<open>Numbers\<close>

lemma of_char_digit: "d < 10 \<Longrightarrow> (of_char (digit_char d) :: nat) = 48 + d"
  by (simp add: digit_char_def)

lemma is_digit_digit_char: "d < 10 \<Longrightarrow> is_digit (digit_char d)"
  by (simp add: is_digit_def of_char_digit)

lemma digits_value_snoc: "digits_value (ds @ [c]) = 10 * digits_value ds + (of_char c - 48)"
  by (simp add: digits_value_def)

lemma digits_value_show_nat: "digits_value (show_nat n) = n"
proof (induction n rule: show_nat.induct)
  case (1 n)
  show ?case
  proof (cases "n < 10")
    case True
    then show ?thesis by (subst show_nat.simps) (simp add: digits_value_def of_char_digit)
  next
    case False
    then show ?thesis
      using 1 by (subst show_nat.simps) (simp add: digits_value_snoc of_char_digit)
  qed
qed

lemma show_nat_digits: "list_all is_digit (show_nat n)"
proof (induction n rule: show_nat.induct)
  case (1 n)
  then show ?case
    by (subst show_nat.simps) (simp add: is_digit_digit_char)
qed

lemma show_nat_nonempty: "show_nat n \<noteq> []"
  by (subst show_nat.simps) simp

lemma digit_not_space: "is_digit c \<Longrightarrow> \<not> is_space c \<and> c \<noteq> CHR ''-'' \<and> c \<noteq> CHR ''+'' \<and> c \<noteq> newline"
  by (auto simp: is_digit_def is_space_def newline_def)

lemma takeWhile_digits:
  "list_all is_digit ds \<Longrightarrow> \<not> is_digit c \<Longrightarrow> takeWhile is_digit (ds @ c # rest) = ds \<and>
   dropWhile is_digit (ds @ c # rest) = c # rest"
  by (induction ds) auto

lemma read_uint_show_nat:
  assumes "n < 2 ^ 32" and "\<not> is_digit c"
  shows "read_uint x (open_stream (show_nat n @ c # rest)) = (n, open_stream (c # rest))"
proof -
  obtain d ds where d: "show_nat n = d # ds" "is_digit d"
    using show_nat_nonempty [of n] show_nat_digits [of n] by (cases "show_nat n") auto
  note nd = digit_not_space [OF d(2)]
  have "dropWhile is_space (show_nat n @ c # rest) = show_nat n @ c # rest"
    using nd by (simp add: d(1))
  moreover have "num_get (show_nat n @ c # rest) = (n, False, c # rest)"
    using takeWhile_digits [OF show_nat_digits assms(2)] nd assms(1)
    by (simp add: num_get_def Let_def digits_value_show_nat show_nat_nonempty) (simp add: d(1))
  ultimately show ?thesis
    by (simp add: read_uint_def good_def open_stream_def show_nat_nonempty)
qed

section \<open>Lines\<close>

lemma getline_line:
  assumes "d \<notin> set line"
  shows "getline d str (open_stream (line @ d # rest)) = (line, open_stream rest)"
proof -
  have "takeWhile (\<lambda>c. c \<noteq> d) (line @ d # rest) = line \<and> dropWhile (\<lambda>c. c \<noteq> d) (line @ d # rest) = d # rest"
    using assms by (induction line) auto
  then show ?thesis by (simp add: getline_def good_def open_stream_def Let_def)
qed

lemmas line_simps = getline_line [of "CHR '' ''" "[CHR ''.'', CHR ''i'']", simplified]
  getline_line [of "CHR '' ''" "[CHR ''.'', CHR ''o'']", simplified]
  getline_line [of "CHR '' ''" "[CHR ''.'', CHR ''p'']", simplified]
  getline_line [of newline "[]", simplified]

lemma newline_not_digit: "\<not> is_digit newline"
  by (simp add: is_digit_def newline_def)

lemma header_line_i:
  "n < 2 ^ 32 \<Longrightarrow> header_line h (open_stream (''.i '' @ show_nat n @ newline # rest)) =
    (h\<lparr>h_inputs := n\<rparr>, open_stream rest)"
  by (simp add: header_line_def line_simps str_at_def read_uint_show_nat newline_not_digit)

lemma header_line_o:
  "n < 2 ^ 32 \<Longrightarrow> header_line h (open_stream (''.o '' @ show_nat n @ newline # rest)) =
    (h\<lparr>h_outputs := n\<rparr>, open_stream rest)"
  by (simp add: header_line_def line_simps str_at_def read_uint_show_nat newline_not_digit)

lemma header_line_p:
  "n < 2 ^ 32 \<Longrightarrow> header_line h (open_stream (''.p '' @ show_nat n @ newline # rest)) =
    (h\<lparr>h_terms := n\<rparr>, open_stream rest)"
  by (simp add: header_line_def line_simps str_at_def read_uint_show_nat newline_not_digit)

lemma read_header_dot:
  "read_header h (open_stream (CHR ''.'' # rest)) =
     (let (h', s2) = header_line h (open_stream (CHR ''.'' # rest)) in read_header h' s2)"
  by (subst read_header.simps) (simp add: peek_def open_stream_def good_def)

lemma read_header_stop:
  "c \<noteq> CHR ''.'' \<Longrightarrow> c \<noteq> CHR ''#'' \<Longrightarrow> read_header h (open_stream (c # rest)) = (h, open_stream (c # rest))"
  by (subst read_header.simps) (simp add: peek_def open_stream_def good_def)

definition pla_body :: "nat \<Rightarrow> cube32 list \<Rightarrow> string" where
  "pla_body n esop = concat (map (\<lambda>cube. cube_str n cube @ '' 1'' @ [newline]) esop) @ ''.e'' @ [newline]"

text \<open>The header of a file that was written, up to its first row.\<close>

lemma read_header_pla_text:
  assumes "n < 2 ^ 32" and "length esop < 2 ^ 32"
  shows "read_header h (open_stream (pla_text n esop)) =
    read_header (h\<lparr>h_inputs := n, h_outputs := 1, h_terms := length esop\<rparr>) (open_stream (pla_body n esop))"
proof -
  have o1: "show_nat 1 = ''1''" by code_simp
  define r2 where "r2 = ''.p '' @ show_nat (length esop) @ newline # pla_body n esop"
  define r1 where "r1 = ''.o '' @ show_nat 1 @ newline # r2"
  have t: "pla_text n esop = ''.i '' @ show_nat n @ newline # r1"
    by (simp add: pla_text_def pla_body_def r1_def r2_def o1 [unfolded One_nat_def])
  have "read_header h (open_stream (pla_text n esop)) = read_header (h\<lparr>h_inputs := n\<rparr>) (open_stream r1)"
    using header_line_i [OF assms(1), of h r1] by (simp add: t read_header_dot)
  also have "\<dots> = read_header (h\<lparr>h_inputs := n, h_outputs := 1\<rparr>) (open_stream r2)"
    using header_line_o [of 1 "h\<lparr>h_inputs := n\<rparr>" r2] unfolding r1_def
    by (simp add: read_header_dot del: One_nat_def)
  also have "\<dots> = read_header (h\<lparr>h_inputs := n, h_outputs := 1, h_terms := length esop\<rparr>)
      (open_stream (pla_body n esop))"
    using header_line_p [OF assms(2), of "h\<lparr>h_inputs := n, h_outputs := 1\<rparr>" "pla_body n esop"]
    by (simp add: r2_def read_header_dot)
  finally show ?thesis .
qed

section \<open>Rows\<close>

lemma cube_str_chars: "cube_ok n c \<Longrightarrow> n \<le> 32 \<Longrightarrow> set (cube_str n c) \<subseteq> {CHR ''-'', CHR ''0'', CHR ''1''}"
  by (auto simp: cube_str_lits cube_ok_canonical lit_char_def split: literal.splits)

lemma read_cubes_end:
  "read_cubes n_in n_out k (open_stream (''.e'' @ [newline])) f = Some (Some (f, k, ''''))"
  by (subst read_cubes.simps)
    (simp add: getline_def open_stream_def good_def newline_def str_at_def Let_def)

lemma read_cubes_row:
  assumes c: "cube_ok n c" and n: "n \<le> 32"
  shows "read_cubes n 1 k (open_stream (cube_str n c @ '' 1'' @ [newline] @ rest)) (f\<lparr>cubes := [es]\<rparr>) =
    read_cubes n 1 (Suc k) (open_stream rest) (f\<lparr>cubes := [es @ [c]]\<rparr>)"
proof -
  have ch: "set (cube_str n c) \<subseteq> {CHR ''-'', CHR ''0'', CHR ''1''}"
    by (rule cube_str_chars [OF c n])
  then have sp: "CHR '' '' \<notin> set (cube_str n c)" by auto
  have dot: "str_at (cube_str n c) 0 \<noteq> CHR ''.''"
    using ch by (cases "cube_str n c") (auto simp: str_at_def)
  have l1: "getline (CHR '' '') '''' (open_stream (cube_str n c @ '' 1'' @ [newline] @ rest)) =
      (cube_str n c, open_stream (''1'' @ newline # rest))"
    using getline_line [OF sp, of "''''" "''1'' @ newline # rest"] by simp
  have l2: "getline newline '''' (open_stream (''1'' @ newline # rest)) = (''1'', open_stream rest)"
    by (rule getline_line) (simp add: newline_def)
  have add: "two_lvl_add_cube (cube_str n c) ''1'' (f\<lparr>cubes := [es]\<rparr>) = Some (f\<lparr>cubes := [es @ [c]]\<rparr>)"
    by (simp add: two_lvl_add_cube_def read_lits_cube_str [OF c n] vec_simps)
  show ?thesis
    by (subst read_cubes.simps) (simp only: l1 l2 add Let_def prod.case dot length_cube_str option.case
        simp_thms if_False list.size, simp)
qed

lemma read_cubes_body:
  assumes "list_all (cube_ok n) cs" and "n \<le> 32"
  shows "read_cubes n 1 k (open_stream (pla_body n cs)) (f\<lparr>cubes := [es]\<rparr>) =
    Some (Some (f\<lparr>cubes := [es @ cs]\<rparr>, k + length cs, ''''))"
  using assms(1)
proof (induction cs arbitrary: es k)
  case Nil
  then show ?case using read_cubes_end by (simp add: pla_body_def)
next
  case (Cons c cs)
  have "pla_body n (c # cs) = cube_str n c @ '' 1'' @ [newline] @ pla_body n cs"
    by (simp add: pla_body_def)
  then show ?case
    using Cons read_cubes_row [of n c k "pla_body n cs" es f] assms(2) by simp
qed

section \<open>A file that was written is read back\<close>

text \<open>
  A form without cubes is read back too, but in another way: the header's loop takes the
  closing \<^verbatim>\<open>.e\<close> for a control line and the rows' loop stops at its first check, with an error
  message.
\<close>

lemma read_header_end:
  "read_header h (open_stream (''.e'' @ [newline])) =
     (h, \<lparr>sbuf = [], eofbit = True, failbit = True\<rparr>)"
proof -
  have "header_line h (open_stream (''.e'' @ [newline])) = (h, \<lparr>sbuf = [], eofbit = True, failbit = True\<rparr>)"
    by (simp add: header_line_def getline_def open_stream_def good_def newline_def str_at_def)
  moreover have "read_header h \<lparr>sbuf = [], eofbit = True, failbit = True\<rparr> =
      (h, \<lparr>sbuf = [], eofbit = True, failbit = True\<rparr>)"
    by (subst read_header.simps) (simp add: peek_def good_def)
  ultimately show ?thesis by (simp add: read_header_dot)
qed

lemma read_cubes_failed:
  assumes "\<not> good s" and "n_in \<noteq> 0 \<or> n_out \<noteq> 0"
  shows "read_cubes n_in n_out k s f = Some (Some (f, k, inconsistent (if n_in \<noteq> 0 then ''input'' else ''output'')))"
  using assms by (subst read_cubes.simps) (auto simp: getline_def good_def str_at_def Let_def)

lemma set_kind_none: "set_kind [] f = f\<lparr>kind := UNDEF\<rparr>"
  by (simp add: set_kind_def)

lemma read_pla_text:
  assumes "list_all (cube_ok n) cs" and "n \<le> 32" and "length cs < 2 ^ 32"
  shows "\<exists>err. (\<forall>k0 n0 w fname. read_pla k0 n0 w fname (Some (pla_text n cs)) =
      Some (Some (\<lparr>kind = UNDEF, n_inputs = n, cubes = [cs]\<rparr>,
        if w then pla_summary n 1 (length cs) else '''', err))) \<and> (err = '''' \<longleftrightarrow> cs \<noteq> [])"
proof -
  let ?h = "\<lparr>h_inputs = n, h_outputs = 1, h_terms = length cs, h_type = ''''\<rparr>"
  let ?f = "\<lparr>kind = UNDEF, n_inputs = n, cubes = [[]]\<rparr>"
  have "n < 2 ^ 32" using assms(2) by (simp add: order_le_less_trans)
  then have "read_header \<lparr>h_inputs = 0, h_outputs = 0, h_terms = 0, h_type = ''''\<rparr> (open_stream (pla_text n cs)) =
      read_header ?h (open_stream (pla_body n cs))"
    using read_header_pla_text [OF _ assms(3)] by simp
  moreover obtain s err where s: "read_header ?h (open_stream (pla_body n cs)) = (?h, s)"
    "read_cubes n 1 0 s ?f = Some (Some (?f\<lparr>cubes := [cs]\<rparr>, length cs, err))" "err = '''' \<longleftrightarrow> cs \<noteq> []"
  proof (cases cs)
    case Nil
    then have "pla_body n cs = ''.e'' @ [newline]" by (simp add: pla_body_def)
    with Nil that show thesis
      using read_header_end [of ?h] read_cubes_failed [of "\<lparr>sbuf = [], eofbit = True, failbit = True\<rparr>" n 1 0 ?f]
      by (simp add: good_def inconsistent_def)
  next
    case (Cons c cs')
    have "set (cube_str n c) \<subseteq> {CHR ''-'', CHR ''0'', CHR ''1''}"
      using cube_str_chars assms(1,2) Cons by simp
    moreover obtain ch r where "cube_str n c @ CHR '' '' # CHR ''1'' # newline # pla_body n cs' = ch # r"
      by (cases "cube_str n c") auto
    moreover have "pla_body n cs = cube_str n c @ CHR '' '' # CHR ''1'' # newline # pla_body n cs'"
      by (simp add: pla_body_def Cons)
    ultimately have "read_header ?h (open_stream (pla_body n cs)) = (?h, open_stream (pla_body n cs))"
      by (cases "cube_str n c") (auto simp: read_header_stop)
    then show thesis
      using that read_cubes_body [OF assms(1,2), of 0 "[]" ?f] Cons by simp
  qed
  ultimately show ?thesis
    by (simp add: read_pla_def read_pla_header_def set_kind_none two_lvl32_uninit_def set_n_inputs_def
        set_n_outputs_def vec_resize_def)
qed

text \<open>A comment of the header, from \<^verbatim>\<open>#\<close> over the first blank to the end of its line.\<close>

lemma read_header_comment:
  assumes "CHR '' '' \<notin> set u" and "newline \<notin> set v"
  shows "read_header h (open_stream (''#'' @ u @ '' '' @ v @ [newline] @ rest)) = read_header h (open_stream rest)"
proof -
  let ?s = "open_stream (''#'' @ u @ '' '' @ v @ [newline] @ rest)"
  let ?s1 = "open_stream (v @ newline # rest)"
  have "getline (CHR '' '') '''' ?s = (CHR ''#'' # u, ?s1)"
    using getline_line [of "CHR '' ''" "CHR ''#'' # u"] assms(1) by simp
  moreover have "getline newline l ?s1 = (v, open_stream rest)" for l
    using getline_line [OF assms(2)] by simp
  ultimately have "header_line h ?s = (h, open_stream rest)"
    by (simp add: header_line_def str_at_def)
  moreover have "peek ?s = (Some (CHR ''#''), ?s)" by (simp add: peek_def open_stream_def good_def)
  ultimately show ?thesis by (subst read_header.simps) simp
qed

lemma write_esops_nth:
  "k < length esops \<Longrightarrow> write_esops fname n i esops ! k =
     (fname @ ''_'' @ show_nat (i + k) @ ''.pla'', pla_text n (esops ! k))"
  "length (write_esops fname n i esops) = length esops"
proof -
  show "k < length esops \<Longrightarrow> write_esops fname n i esops ! k =
     (fname @ ''_'' @ show_nat (i + k) @ ''.pla'', pla_text n (esops ! k))"
  proof (induction esops arbitrary: i k)
    case (Cons esop esops)
    then show ?case by (cases k) simp_all
  qed simp
  show "length (write_esops fname n i esops) = length esops"
    by (induction esops arbitrary: i) simp_all
qed

section \<open>Returning and not returning\<close>

lemma getline_progress:
  assumes "getline d str s = (line, s1)" and "good s"
  shows "length (sbuf s1) < length (sbuf s) \<or> \<not> good s1"
  using assms getline_shorter(2) [OF assms] by (cases "sbuf s") (auto simp: getline_def good_def)

lemma getline_not_good: "\<not> good s \<Longrightarrow> getline d str s = (str, s\<lparr>failbit := True\<rparr>)"
  by (simp add: getline_def)

lemma read_cubes_returns:
  assumes "n_in \<noteq> 0 \<or> n_out \<noteq> 0"
  shows "read_cubes n_in n_out k s f \<noteq> None"
proof (induction "length (sbuf s)" arbitrary: k s f rule: less_induct)
  case less
  show ?case
  proof (cases "good s")
    case False
    then show ?thesis using read_cubes_failed [OF False assms] by simp
  next
    case True
    obtain inp s1 where s1: "getline (CHR '' '') '''' s = (inp, s1)" by fastforce
    obtain outp s2 where s2: "getline newline '''' s1 = (outp, s2)" by fastforce
    have "read_cubes n_in n_out k' s2 f' \<noteq> None" for k' f'
    proof (cases "good s1")
      case g1: True
      then have "length (sbuf s2) < length (sbuf s)"
        using getline_progress [OF s1 True] getline_shorter(1) [OF s2] by auto
      then show ?thesis by (rule less)
    next
      case False
      then have "\<not> good s2" using s2 getline_not_good [of s1 newline "''''"] by (auto simp: good_def)
      then show ?thesis using read_cubes_failed [OF _ assms] by simp
    qed
    then show ?thesis
      by (subst read_cubes.simps) (auto simp: s1 s2 Let_def split: option.splits)
  qed
qed

lemma read_cubes_returned_good:
  "read_cubes n_in n_out k s f = Some y \<Longrightarrow> n_in = 0 \<longrightarrow> n_out = 0 \<longrightarrow> good s"
proof (erule read_cubes.raw_induct [where P = "\<lambda>n_in n_out k s f y. n_in = 0 \<longrightarrow> n_out = 0 \<longrightarrow> good s", rotated])
  fix rec n_in n_out k s f y
  assume IH: "\<And>n_in n_out k s f y. rec n_in n_out k s f = Some y \<Longrightarrow> n_in = 0 \<longrightarrow> n_out = 0 \<longrightarrow> good s"
    and step: "(let (inp, s1) = getline (CHR '' '') [] s
      in if str_at inp 0 = CHR ''.'' \<and> str_at inp 1 = CHR ''e'' then Some (Some (f, k, []))
         else if length inp \<noteq> n_in then Some (Some (f, k, inconsistent ''input''))
         else let (outp, s2) = getline newline [] s1
              in if length outp \<noteq> n_out then Some (Some (f, k, inconsistent ''output''))
                 else (case two_lvl_add_cube inp outp f of
                         None \<Rightarrow> Some None
                       | Some f' \<Rightarrow> rec n_in n_out (k + 1) s2 f')) = Some y"
  show "n_in = 0 \<longrightarrow> n_out = 0 \<longrightarrow> good s"
  proof (intro impI, rule ccontr)
    assume z: "n_in = 0" "n_out = 0" and ng: "\<not> good s"
    then have g: "getline d [] s = ([], s\<lparr>failbit := True\<rparr>)" for d
      by (simp add: getline_not_good)
    have ng': "\<not> good (s\<lparr>failbit := True\<rparr>)" by (simp add: good_def)
    then have g': "getline d [] (s\<lparr>failbit := True\<rparr>) = ([], s\<lparr>failbit := True\<rparr>)" for d
      by (simp add: getline_not_good)
    have "rec 0 0 (k + 1) (s\<lparr>failbit := True\<rparr>) f = Some y"
      using step z by (simp add: g g' str_at_def Let_def two_lvl_add_cube_def)
    then have "good (s\<lparr>failbit := True\<rparr>)" using IH by blast
    with ng' show False by simp
  qed
qed

lemma read_cubes_diverges: "\<not> good s \<Longrightarrow> read_cubes 0 0 k s f = None"
  using read_cubes_returned_good [of 0 0 k s f] by (cases "read_cubes 0 0 k s f") auto

end
