(* ===== verification/Tool_Support.thy ===== *)
theory Tool_Support
  imports Pla "HOL-Library.Sublist"
begin

text \<open>
  What the command line tools share: how a run ends, the search for the last occurrence of a character,
  \<^verbatim>\<open>std::string::rfind\<close> and \<^verbatim>\<open>strrchr\<close>, and \<^verbatim>\<open>print_stats\<close> of
  \<^verbatim>\<open>source/kernel/two_lvl32.hpp\<close>, whose model is the text that it prints.
\<close>

section \<open>Runs of a program\<close>

abbreviation EXIT_SUCCESS :: int where
  "EXIT_SUCCESS \<equiv> 0"

abbreviation EXIT_FAILURE :: int where
  "EXIT_FAILURE \<equiv> 1"

record program_run =
  status :: int
  stdout :: string
  stderr :: string

definition tab :: char where
  "tab = CHR 0x09"

section \<open>File names\<close>

definition rfind :: "char \<Rightarrow> string \<Rightarrow> nat option" where
  "rfind c s =
     (let after = length (takeWhile (\<lambda>x. x \<noteq> c) (rev s))
      in if after = length s then None else Some (length s - Suc after))"

definition strrchr :: "char \<Rightarrow> string \<Rightarrow> string option" where
  "strrchr c s = map_option (\<lambda>p. drop p s) (rfind c s)"

lemma takeWhile_absent: "c \<notin> set s \<Longrightarrow> takeWhile (\<lambda>x. x \<noteq> c) s = s"
  by (induction s) auto

lemma rfind_absent: "c \<notin> set s \<Longrightarrow> rfind c s = None"
  by (simp add: rfind_def takeWhile_absent)

lemma rfind_last: "c \<notin> set e \<Longrightarrow> rfind c (p @ c # e) = Some (length p)"
  by (simp add: rfind_def takeWhile_append takeWhile_absent)

lemma rfind_cases:
  obtains "c \<notin> set s" and "rfind c s = None"
  | p e where "s = p @ c # e" and "c \<notin> set e" and "rfind c s = Some (length p)"
proof (cases "c \<in> set s")
  case True
  then obtain p e where "s = p @ c # e" "c \<notin> set e" by (metis split_list_last)
  with that(2) rfind_last show ?thesis by metis
qed (use that(1) rfind_absent in metis)

text \<open>A test of what follows the last dot is a test for a suffix.\<close>

lemma last_part_iff:
  fixes c :: char
  assumes "s = p @ c # e" and "c \<notin> set e" and "c \<notin> set x"
  shows "e = x \<longleftrightarrow> suffix (c # x) s"
proof
  show "e = x \<Longrightarrow> suffix (c # x) s" using assms(1) by (simp add: suffix_def)
  assume "suffix (c # x) s"
  then obtain q where q: "p @ c # e = q @ c # x" using assms(1) by (auto simp: suffix_def)
  then have "length p = length q"
    using rfind_last [OF assms(2)] rfind_last [OF assms(3)] by (metis option.inject)
  with q show "e = x" by simp
qed

lemma strrchr_suffix:
  assumes "c \<notin> set x"
  shows "strrchr c s = Some (c # x) \<longleftrightarrow> suffix (c # x) s"
proof (cases rule: rfind_cases [where c = c and s = s])
  case 1
  then show ?thesis by (auto simp: strrchr_def suffix_def)
next
  case (2 p e)
  then show ?thesis using last_part_iff [OF 2(1,2) assms] by (simp add: strrchr_def)
qed

section \<open>Statistics\<close>

fun stat_lines :: "nat \<Rightarrow> cube32 list list \<Rightarrow> string" where
  "stat_lines i [] = ''''"
| "stat_lines i (cs # css) =
     ''['' @ show_nat i @ ''] Cubes : '' @ pad 5 (show_nat (length cs)) @ [newline] @ stat_lines (Suc i) css"

definition print_stats :: "two_lvl32 \<Rightarrow> string" where
  "print_stats fnt =
     (if kind fnt = SOP then ''[Two-level SOP]''
      else if kind fnt = ESOP then ''[Two-level ESOP]''
      else ''[Two-level]'') @ [newline] @ stat_lines 0 (cubes fnt)"

end
