(* ===== verification/Aig.thy ===== *)
theory Aig
  imports Cube32
begin

text \<open>
  The and-inverter graph as the program sees it. \<^verbatim>\<open>Gia_Man_t\<close> belongs to ABC, which is
  not part of the repository; the record holds what the accessors the code calls give
  it: \<^verbatim>\<open>Gia_ManObjNum\<close>, the ids visited by \<^verbatim>\<open>Gia_ManForEachCiId\<close>, the nodes visited by
  \<^verbatim>\<open>Gia_ManForEachAnd\<close> with their two fanins (\<^verbatim>\<open>Gia_ObjFaninId0/1\<close> and
  \<^verbatim>\<open>Gia_ObjFaninC0/1\<close>), and the fanin of each output of \<^verbatim>\<open>Gia_ManForEachCo\<close>.

  \<open>aig_ok\<close> is what ABC documents of a graph: object 0 is the constant, ids are unique
  and in range, and the nodes come in topological order. \<open>aig_model g v w\<close> says that \<open>w\<close>
  gives each object of the graph its value at the input assignment \<open>v\<close>; a graph has
  exactly one such valuation, as far as its objects go.
\<close>

type_synonym fanin = "nat \<times> bool"

record aig =
  obj_num :: nat
  ci_ids :: "nat list"
  and_nodes :: "(nat \<times> fanin \<times> fanin) list"
  co_nodes :: "fanin list"

definition ci_num :: "aig \<Rightarrow> nat" where
  "ci_num g = length (ci_ids g)"

definition fanin_val :: "(nat \<Rightarrow> bool) \<Rightarrow> fanin \<Rightarrow> bool" where
  "fanin_val w fi = (w (fst fi) \<noteq> snd fi)"

fun ands_ok :: "nat \<Rightarrow> nat list \<Rightarrow> (nat \<times> fanin \<times> fanin) list \<Rightarrow> bool" where
  "ands_ok n known [] = True"
| "ands_ok n known ((i, fi0, fi1) # ns) =
     (i < n \<and> \<not> List.member known i \<and> List.member known (fst fi0) \<and> List.member known (fst fi1) \<and>
      ands_ok n (i # known) ns)"

definition aig_ok :: "aig \<Rightarrow> bool" where
  "aig_ok g \<longleftrightarrow> 0 < obj_num g \<and> distinct (0 # ci_ids g) \<and> list_all (\<lambda>i. i < obj_num g) (ci_ids g) \<and>
     ands_ok (obj_num g) (0 # ci_ids g) (and_nodes g) \<and>
     list_all (\<lambda>fi. List.member (0 # ci_ids g @ map fst (and_nodes g)) (fst fi)) (co_nodes g)"

definition aig_model :: "aig \<Rightarrow> (nat \<Rightarrow> bool) \<Rightarrow> (nat \<Rightarrow> bool) \<Rightarrow> bool" where
  "aig_model g v w \<longleftrightarrow> \<not> w 0 \<and> list_all (\<lambda>i. w (ci_ids g ! i) = v i) [0..<ci_num g] \<and>
     list_all (\<lambda>(i, fi0, fi1). w i = (fanin_val w fi0 \<and> fanin_val w fi1)) (and_nodes g)"

text \<open>The valuation, node by node.\<close>

fun and_vals :: "(nat \<times> fanin \<times> fanin) list \<Rightarrow> (nat \<Rightarrow> bool) \<Rightarrow> nat \<Rightarrow> bool" where
  "and_vals [] w = w"
| "and_vals ((i, fi0, fi1) # ns) w = and_vals ns (w(i := fanin_val w fi0 \<and> fanin_val w fi1))"

fun ci_vals :: "(nat \<Rightarrow> bool) \<Rightarrow> nat \<Rightarrow> nat list \<Rightarrow> nat \<Rightarrow> bool" where
  "ci_vals v k [] = (\<lambda>_. False)"
| "ci_vals v k (i # is) = (ci_vals v (Suc k) is)(i := v k)"

definition aig_val :: "aig \<Rightarrow> (nat \<Rightarrow> bool) \<Rightarrow> nat \<Rightarrow> bool" where
  "aig_val g v = and_vals (and_nodes g) (ci_vals v 0 (ci_ids g))"

lemma ci_vals_nth:
  "distinct is \<Longrightarrow> j < length is \<Longrightarrow> ci_vals v k is (is ! j) = v (k + j)"
proof (induction "is" arbitrary: j k)
  case (Cons i "is")
  show ?case
  proof (cases j)
    case 0
    then show ?thesis by simp
  next
    case (Suc j')
    then have "i \<noteq> is ! j'" using Cons.prems by auto
    with Suc Cons show ?thesis by simp
  qed
qed simp

lemma ci_vals_other: "x \<notin> set is \<Longrightarrow> \<not> ci_vals v k is x"
  by (induction "is" arbitrary: k) auto

lemma and_vals_known:
  "ands_ok n known ns \<Longrightarrow> x \<in> set known \<Longrightarrow> and_vals ns w x = w x"
proof (induction n known ns arbitrary: w rule: ands_ok.induct)
  case (2 n known i fi0 fi1 ns)
  have "x \<noteq> i" using 2 by auto
  with 2 show ?case by simp
qed simp

lemma and_vals_model:
  "ands_ok n known ns \<Longrightarrow>
   list_all (\<lambda>(i, fi0, fi1). and_vals ns w i =
     (fanin_val (and_vals ns w) fi0 \<and> fanin_val (and_vals ns w) fi1)) ns"
proof (induction n known ns arbitrary: w rule: ands_ok.induct)
  case (2 n known i fi0 fi1 ns)
  let ?w = "w(i := fanin_val w fi0 \<and> fanin_val w fi1)"
  have ok: "ands_ok n (i # known) ns" using 2 by simp
  have "and_vals ns ?w x = ?w x" if "x \<in> set (i # known)" for x
    by (rule and_vals_known [OF ok that])
  moreover have "i \<notin> set known" "fst fi0 \<in> set known" "fst fi1 \<in> set known" using 2 by simp_all
  ultimately have "and_vals ns ?w i = (fanin_val w fi0 \<and> fanin_val w fi1)"
      "fanin_val (and_vals ns ?w) fi0 = fanin_val w fi0" "fanin_val (and_vals ns ?w) fi1 = fanin_val w fi1"
    by (auto simp: fanin_val_def)
  with "2.IH" [OF ok] show ?case by simp
qed simp

lemma aig_val_model:
  assumes "aig_ok g"
  shows "aig_model g v (aig_val g v)"
proof -
  have ok: "ands_ok (obj_num g) (0 # ci_ids g) (and_nodes g)" and d: "distinct (ci_ids g)" "0 \<notin> set (ci_ids g)"
    using assms by (simp_all add: aig_ok_def)
  note known = and_vals_known [OF ok]
  show ?thesis
    unfolding aig_model_def aig_val_def
    using and_vals_model [OF ok] known d
    by (auto simp: list_all_length ci_num_def ci_vals_nth ci_vals_other)
qed

lemma and_model_unique:
  assumes "ands_ok n known ns" and "\<And>x. x \<in> set known \<Longrightarrow> w x = w' x"
    and "list_all (\<lambda>(i, fi0, fi1). w i = (fanin_val w fi0 \<and> fanin_val w fi1)) ns"
    and "list_all (\<lambda>(i, fi0, fi1). w' i = (fanin_val w' fi0 \<and> fanin_val w' fi1)) ns"
    and "x \<in> set known \<union> fst ` set ns"
  shows "w x = w' x"
  using assms
proof (induction n known ns rule: ands_ok.induct)
  case (2 n known i fi0 fi1 ns)
  have eq: "w y = w' y" if "y \<in> set (i # known)" for y
    using 2(2-5) that by (auto simp: fanin_val_def)
  show ?case by (rule "2.IH") (use 2(2-6) eq in auto)
qed simp

lemma aig_model_unique:
  assumes "aig_ok g" and "aig_model g v w" and "aig_model g v w'"
    and "x \<in> set (0 # ci_ids g @ map fst (and_nodes g))"
  shows "w x = w' x"
proof (rule and_model_unique [where known = "0 # ci_ids g"])
  show "ands_ok (obj_num g) (0 # ci_ids g) (and_nodes g)" using assms(1) by (simp add: aig_ok_def)
  show "w y = w' y" if "y \<in> set (0 # ci_ids g)" for y
    using assms(2,3) that by (auto simp: aig_model_def list_all_length ci_num_def in_set_conv_nth)
qed (use assms in \<open>auto simp: aig_model_def\<close>)

end
