(* ===== verification/Output.thy ===== *)
theory Output
  imports Aig Printf
begin

text \<open>
  What a run tells its environment, as a list of events in the order of the calls: text that is
  printed, lines of the loggers \<^verbatim>\<open>console\<close> (in its pattern, \<^verbatim>\<open>[%L] %v\<close>) and \<^verbatim>\<open>data\<close>, and the calls
  of ABC and CUDD that only print or only set a mode. The digits of a time that is read off the
  clock are not known: \<open>Elapsed\<close> is the line \<^verbatim>\<open>[i] Elapsed time: %f\<close>, and \<open>Timed_Data s\<close> the line \<open>s\<close>
  of the data logger followed by a number of seconds. Texts that are printed one after the
  other are one text, however they are cut.
\<close>

datatype 'b event =
    Print string
  | Elapsed
  | Console string
  | Open_Data string
  | Data string
  | Timed_Data string
  | Graph_Stats aig
  | Bdd_Summary 'b nat
  | Autodyn bool

text \<open>How an extraction may end the program, with \<^verbatim>\<open>exit(0)\<close>.\<close>

datatype extract_exit = Too_Many_Inputs

section \<open>Parts of a run's output\<close>

fun console_lines :: "'b event list \<Rightarrow> string list" where
  "console_lines [] = []"
| "console_lines (ev # evs) = (case ev of Console s \<Rightarrow> s # console_lines evs | _ \<Rightarrow> console_lines evs)"

fun is_data :: "'b event \<Rightarrow> bool" where
  "is_data (Open_Data _) = True"
| "is_data (Data _) = True"
| "is_data (Timed_Data _) = True"
| "is_data _ = False"

lemma console_lines_append [simp]: "console_lines (xs @ ys) = console_lines xs @ console_lines ys"
  by (induction xs) (auto split: event.splits)

text \<open>Output for neither of the loggers.\<close>

definition silent :: "'b event list \<Rightarrow> bool" where
  "silent evs \<longleftrightarrow> console_lines evs = [] \<and> filter is_data evs = []"

lemma silent_simps [simp]:
  "silent []" "silent (xs @ ys) \<longleftrightarrow> silent xs \<and> silent ys" "silent (Elapsed # evs) \<longleftrightarrow> silent evs"
  "silent (Print s # evs) \<longleftrightarrow> silent evs" "silent (Autodyn b # evs) \<longleftrightarrow> silent evs"
  by (auto simp: silent_def)

definition carriage_return :: char where
  "carriage_return = CHR 0x0D"

end
