(* ===== verification/Xor_Adder.thy ===== *)
theory Xor_Adder
  imports Cube32
begin

text \<open>
  What the \<^verbatim>\<open>add_cube\<close> routines of both collapsing methods have in common: their contract,
  as a locale, and the facts on sets of cubes their proofs share.
\<close>

section \<open>Adding a term to an exclusive sum\<close>

text \<open>
  A routine that adds a term to a container read as an exclusive sum. The container may
  change in any way, as long as its parity changes where the term holds; it never grows
  by more than one element.
\<close>

locale xor_adder =
  fixes add :: "'a \<Rightarrow> 's \<Rightarrow> 's"
    and items :: "'s \<Rightarrow> 'a list"
    and inv :: "'s \<Rightarrow> bool"
    and valid :: "'a \<Rightarrow> bool"
    and holds :: "'v \<Rightarrow> 'a \<Rightarrow> bool"
    and parity :: "'v \<Rightarrow> 'a list \<Rightarrow> bool"
  assumes parity_Nil: "parity v [] = False"
    and parity_Cons: "parity v (x # xs) = (holds v x \<noteq> parity v xs)"
    and inv_add: "inv s \<Longrightarrow> valid x \<Longrightarrow> inv (add x s)"
    and parity_add: "inv s \<Longrightarrow> valid x \<Longrightarrow> parity v (items (add x s)) = (parity v (items s) \<noteq> holds v x)"
    and length_add: "inv s \<Longrightarrow> valid x \<Longrightarrow> length (items (add x s)) \<le> Suc (length (items s))"
begin

text \<open>Adding a whole list adds its exclusive sum.\<close>

lemma fold_add:
  assumes "inv s" and "list_all valid xs"
  shows "inv (fold add xs s)"
    and "parity v (items (fold add xs s)) = (parity v (items s) \<noteq> parity v xs)"
    and "length (items (fold add xs s)) \<le> length (items s) + length xs"
proof -
  have "inv (fold add xs s) \<and>
      parity v (items (fold add xs s)) = (parity v (items s) \<noteq> parity v xs) \<and>
      length (items (fold add xs s)) \<le> length (items s) + length xs"
    using assms
  proof (induction xs arbitrary: s)
    case (Cons x xs)
    have x: "valid x" "list_all valid xs" using Cons.prems(2) by simp_all
    from Cons.IH [OF inv_add [OF Cons.prems(1) x(1)] x(2)]
      parity_add [OF Cons.prems(1) x(1)] length_add [OF Cons.prems(1) x(1)]
    show ?case by (auto simp: parity_Cons)
  qed (simp add: parity_Nil)
  then show "inv (fold add xs s)"
    and "parity v (items (fold add xs s)) = (parity v (items s) \<noteq> parity v xs)"
    and "length (items (fold add xs s)) \<le> length (items s) + length xs" by simp_all
qed

end

section \<open>Sets of cubes without neighbours\<close>

text \<open>
  Two cubes of the set, neither of them the constant one, are at distance 2 or more. The
  constant is an exception: it is added without a search for cubes it merges with.
\<close>

definition apart_but_one :: "cube32 list \<Rightarrow> bool" where
  "apart_but_one cs = list_all (\<lambda>c. list_all (\<lambda>d.
     c = d \<or> c = cube32_one \<or> d = cube32_one \<or> 2 \<le> distance c d) cs) cs"

lemma apart_but_one_iff:
  "apart_but_one cs \<longleftrightarrow> (\<forall>c \<in> set cs. \<forall>d \<in> set cs.
     c = d \<or> c = cube32_one \<or> d = cube32_one \<or> 2 \<le> distance c d)"
  by (simp add: apart_but_one_def list_all_iff)

lemma apart_but_one_subset: "apart_but_one cs \<Longrightarrow> set ds \<subseteq> set cs \<Longrightarrow> apart_but_one ds"
  unfolding apart_but_one_iff by blast

lemma apart_but_one_insert:
  assumes "apart_but_one cs" and "set ds = insert c (set cs)"
    and "c \<noteq> cube32_one \<Longrightarrow> (\<And>d. d \<in> set cs \<Longrightarrow> 2 \<le> distance c d)"
  shows "apart_but_one ds"
  using assms unfolding apart_but_one_iff by (metis distance_sym insert_iff)

text \<open>A cube none of whose rotations is in the set is at distance 2 or more from it.\<close>

lemma no_neighbour_far:
  assumes c: "cube_ok n c" and d: "cube_ok n d" and "c \<noteq> d"
    and none: "\<And>i. i < n \<Longrightarrow> d \<noteq> cube_rotate i c \<and> d \<noteq> cube_rotate i (cube_rotate i c)"
  shows "2 \<le> distance c d"
proof (rule ccontr)
  assume "\<not> 2 \<le> distance c d"
  moreover have "distance c d \<noteq> 0"
    using assms(1-3) distance_0_iff by (metis cube_ok_canonical)
  ultimately have "distance c d = 1" by arith
  from rotate_reaches [OF c d this] none show False by metis
qed

lemma rotated_neighbour:
  assumes "canonical c" and "i < 32" and "d = cube_rotate i c \<or> d = cube_rotate i (cube_rotate i c)"
  shows "distance c d = 1"
  using assms rotate_distance [of c i] rotate2_distance [of c i] by auto

text \<open>\<^verbatim>\<open>rotate\<close>: rotating a variable once and twice reaches exactly the cubes at distance 1,
  over all variables, and rotating it three times gives the cube back.\<close>

theorem rotate_neighbours:
  assumes "cube_ok n c" and "cube_ok n d" and "n \<le> 32"
  shows "(distance c d = 1 \<longleftrightarrow> (\<exists>i < n. d = cube_rotate i c \<or> d = cube_rotate i (cube_rotate i c))) \<and>
    (\<forall>i < n. cube_rotate i (cube_rotate i (cube_rotate i c)) = c)"
proof -
  have c: "canonical c" by (rule cube_ok_canonical [OF assms(1)])
  have "distance c d = 1 \<longleftrightarrow> (\<exists>i < n. d = cube_rotate i c \<or> d = cube_rotate i (cube_rotate i c))"
    using rotate_reaches [OF assms(1,2)] rotated_neighbour [OF c] assms(3) by (metis order_less_le_trans)
  then show ?thesis using rotate_cycle [OF c] assms(3) by simp
qed

end
