(* ===== verification/Exorlink.thy ===== *)
theory Exorlink
  imports Two_Lvl32
begin

text \<open>
  The cube reshaping of \<^verbatim>\<open>source/opt/exorcism32.cpp\<close>: two cubes that differ at \<open>dist\<close>
  variables are replaced by \<open>dist\<close> cubes with the same exclusive sum. A group, a
  row of the tables \<^verbatim>\<open>cube_groups2\<close> and \<^verbatim>\<open>cube_groups3\<close> of the header, says for each
  new cube and each differing variable whose literal to take: that of the first cube
  (0), of the second (1), or the third literal (2). That the tables are right is a
  finite check on truth values, \<open>group_ok\<close>; the bit manipulation that applies them is
  right for every group that passes it.
\<close>

definition cube_groups2 :: "nat list" where
  "cube_groups2 = [2, 0, 1, 2,
                   0, 2, 2, 1]"

definition cube_groups3 :: "nat list" where
  "cube_groups3 = [2, 0, 0, 1, 2, 0, 1, 1, 2,
                   2, 0, 0, 1, 0, 2, 1, 2, 1,
                   0, 2, 0, 2, 1, 0, 1, 1, 2,
                   0, 2, 0, 0, 1, 2, 2, 1, 1,
                   0, 0, 2, 2, 0, 1, 1, 2, 1,
                   0, 0, 2, 0, 2, 1, 2, 1, 1]"

text \<open>The literal at the one bit set in \<open>p\<close>, copied from \<open>src\<close> into \<open>tmp\<close>.\<close>

definition take_lit :: "u32 \<Rightarrow> cube32 \<Rightarrow> cube32 \<Rightarrow> cube32" where
  "take_lit p src tmp =
     Cube32 (lit_mask tmp XOR (((lit_mask src AND p) XOR lit_mask tmp) AND p))
            (polarity tmp XOR (((polarity src AND p) XOR polarity tmp) AND p))"

text \<open>The inner loop: one entry of the group per set bit of \<open>tmp_pos\<close>, from the lowest.\<close>

fun exorlink_row :: "cube32 \<Rightarrow> cube32 \<Rightarrow> nat list \<Rightarrow> u32 \<Rightarrow> cube32 \<Rightarrow> cube32" where
  "exorlink_row c1 oth [] tmp_pos tmp = tmp"
| "exorlink_row c1 oth (g # gs) tmp_pos tmp =
     (let p = tmp_pos AND - tmp_pos; pos = tmp_pos AND (tmp_pos - 1)
      in exorlink_row c1 oth gs pos
           (if g = 0 then tmp
            else if g = 1 then take_lit p c1 tmp
            else if g = 2 then take_lit p oth tmp
            else tmp))"

definition exorlink :: "cube32 \<Rightarrow> cube32 \<Rightarrow> nat \<Rightarrow> nat list \<Rightarrow> cube32 list option" where
  "exorlink a b dist grp =
     (let diff = difference a b;
          (c0, c1) = (if cube_value a > cube_value b then (b, a) else (a, b));
          oth = Cube32 (lit_mask c0 XOR lit_mask c1) (NOT (polarity c0) AND NOT (polarity c1))
      in if dist \<le> 4 \<and> dist * dist \<le> length grp
         then Some (map (\<lambda>i. exorlink_row c1 oth (take dist (drop (i * dist) grp)) diff c0) [0..<dist]
                    @ replicate (4 - dist) cube32_default)
         else None)"

section \<open>The set bits of a word, in ascending order\<close>

definition bits_of :: "u32 \<Rightarrow> nat list" where
  "bits_of w = filter (bit w) [0..<32]"

lemma set_bits_of [simp]: "set (bits_of w) = {i. bit w i}"
  by (auto simp: bits_of_def dest: bit_u32_less)

lemma distinct_bits_of [simp]: "distinct (bits_of w)"
  by (simp add: bits_of_def)

lemma length_bits_of: "length (bits_of w) = popcount w"
  by (simp add: bits_of_def popcount_def)

lemma bits_of_unfold:
  assumes "w \<noteq> 0"
  shows "bits_of w = lowbit w # bits_of (w AND (w - 1))"
proof (rule sorted_distinct_set_unique)
  show "sorted (lowbit w # bits_of (w AND (w - 1)))"
    using not_bit_below_lowbit [of _ w]
    by (auto simp: and_minus_one_lowbit [OF assms] bits_of_def sorted_wrt_filter linorder_not_less [symmetric])
  show "set (bits_of w) = set (lowbit w # bits_of (w AND (w - 1)))"
    using bit_lowbit [OF assms] by (auto simp: and_minus_one_lowbit [OF assms])
qed (use assms in \<open>auto simp: bits_of_def sorted_wrt_filter and_minus_one_lowbit\<close>)

section \<open>One new cube, literal by literal\<close>

lemma lit_at_take_lit:
  "k < 32 \<Longrightarrow> lit_at (take_lit (shl1 k) src tmp) i = (if i = k then lit_at src i else lit_at tmp i)"
  by (cases "i < 32") (auto simp: lit_at_def take_lit_def bit_simps)

lemma canonical_take_lit:
  assumes "canonical tmp" and "bit (polarity src) k \<Longrightarrow> bit (lit_mask src) k"
  shows "canonical (take_lit (shl1 k) src tmp)"
  using assms by (auto simp: canonical_iff take_lit_def bit_simps)

definition pick :: "nat \<Rightarrow> literal \<Rightarrow> literal \<Rightarrow> literal" where
  "pick g l0 l1 = (if g = 1 then l1 else if g = 2 then other l0 l1 else l0)"

text \<open>One number of the group: the literal of variable \<open>k\<close> becomes the one that it names.\<close>

lemma take_group_lit:
  fixes g :: nat
  assumes "canonical c0" and "canonical c1"
    and oth: "oth = Cube32 (lit_mask c0 XOR lit_mask c1) (NOT (polarity c0) AND NOT (polarity c1))"
    and "canonical tmp" and k: "k < 32" "lit_at c0 k \<noteq> lit_at c1 k" "lit_at tmp k = lit_at c0 k"
  defines "tmp' \<equiv> if g = 0 then tmp else if g = 1 then take_lit (shl1 k) c1 tmp
    else if g = 2 then take_lit (shl1 k) oth tmp else tmp"
  shows "canonical tmp'" and "lit_at tmp' i = (if i = k then pick g (lit_at c0 k) (lit_at c1 k) else lit_at tmp i)"
proof -
  have oth_k: "lit_at oth k = other (lit_at c0 k) (lit_at c1 k)"
    and oth_can: "bit (polarity oth) k \<Longrightarrow> bit (lit_mask oth) k"
    using k(1,2) assms(1,2)
    by (cases "lit_at c0 k"; cases "lit_at c1 k"; simp add: oth lit_at_Cube32 bit_simps bit_of_lit)+
  have c1_can: "bit (polarity c1) k \<Longrightarrow> bit (lit_mask c1) k"
    using assms(2) by (simp add: canonical_iff)
  show "canonical tmp'"
    using assms(4) oth_can c1_can by (simp add: tmp'_def canonical_take_lit)
  show "lit_at tmp' i = (if i = k then pick g (lit_at c0 k) (lit_at c1 k) else lit_at tmp i)"
    using k(2,3) by (auto simp: tmp'_def pick_def lit_at_take_lit k(1) oth_k)
qed

lemma exorlink_row_spec:
  assumes "canonical c0" and "canonical c1"
    and oth: "oth = Cube32 (lit_mask c0 XOR lit_mask c1) (NOT (polarity c0) AND NOT (polarity c1))"
    and "canonical tmp" and "length gs \<le> popcount pos"
    and "\<And>i. bit pos i \<Longrightarrow> lit_at c0 i \<noteq> lit_at c1 i \<and> lit_at tmp i = lit_at c0 i"
  shows "canonical (exorlink_row c1 oth gs pos tmp) \<and>
    (\<forall>j < length gs. lit_at (exorlink_row c1 oth gs pos tmp) (bits_of pos ! j) =
       pick (gs ! j) (lit_at c0 (bits_of pos ! j)) (lit_at c1 (bits_of pos ! j))) \<and>
    (\<forall>i. i \<notin> set (take (length gs) (bits_of pos)) \<longrightarrow>
       lit_at (exorlink_row c1 oth gs pos tmp) i = lit_at tmp i)"
  using assms(4-)
proof (induction gs arbitrary: pos tmp)
  case Nil
  then show ?case by simp
next
  case (Cons g gs)
  define k pos' where "k = lowbit pos" and "pos' = pos AND (pos - 1)"
  define tmp' where "tmp' = (if g = 0 then tmp else if g = 1 then take_lit (shl1 k) c1 tmp
    else if g = 2 then take_lit (shl1 k) oth tmp else tmp)"
  have nz: "pos \<noteq> 0" using Cons.prems(2) popcount_0_iff [of pos] by auto
  have k: "bit pos k" "k < 32" using nz by (simp_all add: k_def bit_lowbit lowbit_less)
  have bits: "bits_of pos = k # bits_of pos'" by (simp add: k_def pos'_def bits_of_unfold nz)
  have bp: "bit pos' i \<longleftrightarrow> bit pos i \<and> i \<noteq> k" for i
    by (simp add: k_def pos'_def and_minus_one_lowbit nz)
  have row: "exorlink_row c1 oth (g # gs) pos tmp = exorlink_row c1 oth gs pos' tmp'"
    by (simp add: Let_def tmp'_def pos'_def k_def and_minus_lowbit nz)
  have "lit_at c0 k \<noteq> lit_at c1 k" "lit_at tmp k = lit_at c0 k"
    using Cons.prems(3) k by auto
  note tl = take_group_lit [where g = g, OF assms(1,2) oth Cons.prems(1) k(2) this, folded tmp'_def]
  note lt = tl(2)
  have "length gs \<le> popcount pos'"
    using Cons.prems(2) by (simp add: popcount_clear_low [OF nz] pos'_def)
  with tl have IH: "canonical (exorlink_row c1 oth gs pos' tmp') \<and>
    (\<forall>j < length gs. lit_at (exorlink_row c1 oth gs pos' tmp') (bits_of pos' ! j) =
       pick (gs ! j) (lit_at c0 (bits_of pos' ! j)) (lit_at c1 (bits_of pos' ! j))) \<and>
    (\<forall>i. i \<notin> set (take (length gs) (bits_of pos')) \<longrightarrow>
       lit_at (exorlink_row c1 oth gs pos' tmp') i = lit_at tmp' i)"
    using Cons.IH [of tmp' pos'] Cons.prems(3) by (auto simp: bp)
  let ?r = "exorlink_row c1 oth gs pos' tmp'"
  have can: "canonical ?r"
    and on: "\<And>j. j < length gs \<Longrightarrow> lit_at ?r (bits_of pos' ! j) =
       pick (gs ! j) (lit_at c0 (bits_of pos' ! j)) (lit_at c1 (bits_of pos' ! j))"
    and off: "\<And>i. i \<notin> set (take (length gs) (bits_of pos')) \<Longrightarrow> lit_at ?r i = lit_at tmp' i"
    using IH by blast+
  have "k \<notin> set (bits_of pos')" by (simp add: bp)
  then have "k \<notin> set (take (length gs) (bits_of pos'))" using in_set_takeD by metis
  then have "lit_at ?r k = pick g (lit_at c0 k) (lit_at c1 k)" by (simp add: off lt)
  then have "lit_at ?r ((k # bits_of pos') ! j) = pick ((g # gs) ! j)
      (lit_at c0 ((k # bits_of pos') ! j)) (lit_at c1 ((k # bits_of pos') ! j))"
    if "j < length (g # gs)" for j
    using that by (cases j) (simp_all add: on)
  moreover have "lit_at ?r i = lit_at tmp i" if "i \<notin> set (take (length (g # gs)) (k # bits_of pos'))" for i
    using that by (simp add: off lt)
  ultimately show ?case unfolding row bits using can by blast
qed


section \<open>Paths of cubes\<close>

text \<open>
  What the reshaping is for a reader of the literature: walk from one cube to the other,
  one variable at a time, and take the merged cube of each two neighbours on the way. The
  cubes passed on the way occur twice and cancel, so the merged cubes have the exclusive
  sum of the two ends.
\<close>

inductive cube_path :: "nat \<Rightarrow> cube32 \<Rightarrow> cube32 list \<Rightarrow> cube32 \<Rightarrow> bool" for n where
  path_end: "cube_ok n a \<Longrightarrow> cube_path n a [] a"
| path_move: "cube_ok n a \<Longrightarrow> distance a c = 1 \<Longrightarrow> cube_path n c ns b \<Longrightarrow>
    cube_path n a (merge a c # ns) b"

inductive_simps cube_path_simps [simp]:
  "cube_path n a [] b"
  "cube_path n a (m # ns) b"

lemma cube_path_ok: "cube_path n a ns b \<Longrightarrow> cube_ok n a \<and> cube_ok n b \<and> list_all (cube_ok n) ns"
  by (induction rule: cube_path.induct) (auto intro: wf_intros)

lemma cube_path_eval:
  "cube_path n a ns b \<Longrightarrow> esop_eval v ns = (cube_eval a v \<noteq> cube_eval b v)"
proof (induction rule: cube_path.induct)
  case (path_move a c ns b)
  then have "canonical a" "canonical c" by (auto dest: cube_path_ok cube_ok_canonical)
  with path_move show ?case by (auto simp: cube_eval_merge)
qed simp

section \<open>The tables\<close>

text \<open>
  The group for an order of the differing variables: row \<open>i\<close> has the third literal at the
  variable that changes in move \<open>i\<close>, that of the second cube where a move has been made
  before, and that of the first cube elsewhere. The tables hold the groups of every order.
\<close>

definition order_row :: "nat list \<Rightarrow> nat \<Rightarrow> nat list" where
  "order_row ord i =
     map (\<lambda>j. if j = ord ! i then 2 else if j \<in> set (take i ord) then 1 else 0) [0..<length ord]"

definition order_group :: "nat list \<Rightarrow> nat list" where
  "order_group ord = concat (map (order_row ord) [0..<length ord])"

definition group_ok :: "nat \<Rightarrow> nat list \<Rightarrow> bool" where
  "group_ok d grp \<longleftrightarrow> (\<exists>ord. distinct ord \<and> length ord = d \<and> set ord = {..<d} \<and> take (d * d) grp = order_group ord)"

lemma cube_groups2_at:
  "take 4 (drop 0 cube_groups2) = order_group [0, 1]"
  "take 4 (drop 4 cube_groups2) = order_group [1, 0]"
  by code_simp+

lemma cube_groups3_at:
  "take 9 (drop 0 cube_groups3) = order_group [0, 1, 2]"
  "take 9 (drop 9 cube_groups3) = order_group [0, 2, 1]"
  "take 9 (drop 18 cube_groups3) = order_group [1, 0, 2]"
  "take 9 (drop 27 cube_groups3) = order_group [1, 2, 0]"
  "take 9 (drop 36 cube_groups3) = order_group [2, 0, 1]"
  "take 9 (drop 45 cube_groups3) = order_group [2, 1, 0]"
  by code_simp+

lemma lessThan_23: "{..<2} = {0, 1 :: nat}" "{..<3} = {0, 1, 2 :: nat}"
  by auto

lemma orders_2: "distinct ord \<and> set ord = {..<2} \<longleftrightarrow> ord = [0, 1] \<or> ord = [1, 0 :: nat]"
proof
  assume ord: "distinct ord \<and> set ord = {..<2}"
  then have "length ord = 2" using distinct_card [of ord] by simp
  then obtain a b where ab: "ord = [a, b]" by (auto simp: numeral_eq_Suc length_Suc_conv)
  then have "a \<in> {0, 1}" "b \<in> {0, 1}" "a \<noteq> b" using ord by (auto simp: lessThan_23(1))
  then show "ord = [0, 1] \<or> ord = [1, 0]" unfolding ab by (elim insertE emptyE; hypsubst; simp)
qed (elim disjE; hypsubst; code_simp)

lemma orders_3: "distinct ord \<and> set ord = {..<3} \<longleftrightarrow>
  ord \<in> set [[0, 1, 2], [0, 2, 1], [1, 0, 2], [1, 2, 0], [2, 0, 1], [2, 1, 0 :: nat]]"
proof
  assume ord: "distinct ord \<and> set ord = {..<3}"
  then have "length ord = 3" using distinct_card [of ord] by simp
  then obtain a b c where abc: "ord = [a, b, c]" by (auto simp: numeral_eq_Suc length_Suc_conv)
  have "set [a, b, c] \<subseteq> {0, 1, 2}" using ord unfolding abc lessThan_23(2) by blast
  then have "a \<in> {0, 1, 2}" "b \<in> {0, 1, 2}" "c \<in> {0, 1, 2}"
    unfolding list.set insert_subset by blast+
  moreover have "a \<noteq> b" "a \<noteq> c" "b \<noteq> c" using ord by (simp_all add: abc)
  ultimately show "ord \<in> set [[0, 1, 2], [0, 2, 1], [1, 0, 2], [1, 2, 0], [2, 0, 1], [2, 1, 0]]"
    unfolding abc by (elim insertE emptyE; hypsubst; simp)
next
  assume "ord \<in> set [[0, 1, 2], [0, 2, 1], [1, 0, 2], [1, 2, 0], [2, 0, 1], [2, 1, 0 :: nat]]"
  then show "distinct ord \<and> set ord = {..<3}"
    unfolding lessThan_23 by (simp only: list.set insert_iff empty_iff) (elim disjE FalseE; hypsubst; code_simp)
qed

lemma group_okI:
  assumes "distinct ord \<and> set ord = {..<d}" and "take (d * d) grp = order_group ord"
  shows "group_ok d grp"
proof -
  have "length ord = d" using distinct_card [of ord] assms(1) by simp
  with assms show ?thesis unfolding group_ok_def by blast
qed

lemma cube_groups2_ok:
  assumes "k \<in> {0, 4}"
  shows "group_ok 2 (drop k cube_groups2)"
proof -
  have "group_ok 2 grp" if "take 4 grp = order_group ord" "ord = [0, 1] \<or> ord = [1, 0]" for grp ord
    by (rule group_okI [OF orders_2 [THEN iffD2, OF that(2)]]) (use that(1) in simp)
  with assms cube_groups2_at show ?thesis by blast
qed

lemma cube_groups3_ok:
  assumes "k \<in> {0, 9, 18, 27, 36, 45}"
  shows "group_ok 3 (drop k cube_groups3)"
proof -
  have "group_ok 3 grp" if "take 9 grp = order_group ord"
      "ord \<in> set [[0, 1, 2], [0, 2, 1], [1, 0, 2], [1, 2, 0], [2, 0, 1], [2, 1, 0]]" for grp ord
    by (rule group_okI [OF orders_3 [THEN iffD2, OF that(2)]]) (use that(1) in simp)
  with assms cube_groups3_at show ?thesis by (auto simp del: drop_drop)
qed

lemma length_order_row [simp]: "length (order_row ord i) = length ord"
  by (simp add: order_row_def)

lemma order_row_nth:
  "j < length ord \<Longrightarrow> order_row ord i ! j = (if j = ord ! i then 2 else if j \<in> set (take i ord) then 1 else 0)"
  by (simp add: order_row_def)


lemma concat_row:
  assumes "\<And>xs. xs \<in> set xss \<Longrightarrow> length xs = d" and "i < length xss"
  shows "take d (drop (i * d) (concat xss)) = xss ! i"
  using assms
proof (induction xss arbitrary: i)
  case (Cons xs xss)
  then show ?case by (cases i) auto
qed simp

lemma group_ok_row:
  assumes "take (d * d) grp = order_group ord" and "length ord = d" and "i < d"
  shows "take d (drop (i * d) grp) = order_row ord i"
proof -
  have "(i + 1) * d \<le> d * d" using assms(3) by (intro mult_le_mono1) simp
  then have "take d (drop (i * d) grp) = take d (drop (i * d) (take (d * d) grp))"
    by (simp add: drop_take min_absorb1 algebra_simps)
  also have "\<dots> = order_row ord i"
    unfolding assms(1) order_group_def
    by (subst concat_row) (use assms(2,3) in auto)
  finally show ?thesis .
qed

section \<open>The new cubes are a path\<close>

definition differing :: "cube32 \<Rightarrow> cube32 \<Rightarrow> nat list" where
  "differing c0 c1 = bits_of (difference c0 c1)"

text \<open>The cube reached from \<open>c0\<close> when the differing variables with the numbers \<open>is\<close> have been changed.\<close>

definition waypoint :: "cube32 \<Rightarrow> cube32 \<Rightarrow> nat list \<Rightarrow> cube32" where
  "waypoint c0 c1 is = fold (\<lambda>j. take_lit (shl1 (differing c0 c1 ! j)) c1) is c0"

definition third_cube :: "cube32 \<Rightarrow> cube32 \<Rightarrow> cube32" where
  "third_cube c0 c1 = Cube32 (lit_mask c0 XOR lit_mask c1) (NOT (polarity c0) AND NOT (polarity c1))"

definition new_cube :: "cube32 \<Rightarrow> cube32 \<Rightarrow> nat list \<Rightarrow> cube32" where
  "new_cube c0 c1 gs = exorlink_row c1 (third_cube c0 c1) gs (difference c0 c1) c0"

text \<open>Two cubes and an order of the variables at which they differ.\<close>

definition differ_by :: "nat \<Rightarrow> cube32 \<Rightarrow> cube32 \<Rightarrow> nat list \<Rightarrow> bool" where
  "differ_by n c0 c1 ord \<longleftrightarrow> cube_ok n c0 \<and> cube_ok n c1 \<and> distance c0 c1 = length ord \<and>
     distinct ord \<and> set ord = {..<length ord}"

lemma set_differing:
  "canonical c0 \<Longrightarrow> canonical c1 \<Longrightarrow> k \<in> set (differing c0 c1) \<longleftrightarrow> lit_at c0 k \<noteq> lit_at c1 k"
  by (simp add: differing_def bit_difference)

lemma length_differing: "length (differing c0 c1) = distance c0 c1"
  by (simp add: differing_def length_bits_of distance_def)

lemma differ_byD:
  assumes "differ_by n c0 c1 ord"
  shows "canonical c0" and "canonical c1" and "length (differing c0 c1) = length ord"
    and "j < length ord \<Longrightarrow> differing c0 c1 ! j < 32"
    and "j < length ord \<Longrightarrow> lit_at c0 (differing c0 c1 ! j) \<noteq> lit_at c1 (differing c0 c1 ! j)"
    and "k \<notin> set (differing c0 c1) \<Longrightarrow> lit_at c1 k = lit_at c0 k"
    and "set (take i ord) \<subseteq> {..<length ord}"
proof -
  show can: "canonical c0" "canonical c1"
    using assms by (auto simp: differ_by_def dest: cube_ok_canonical)
  show len: "length (differing c0 c1) = length ord"
    using assms by (simp add: differ_by_def length_differing)
  show dif: "lit_at c0 (differing c0 c1 ! j) \<noteq> lit_at c1 (differing c0 c1 ! j)" if "j < length ord"
    using nth_mem [of j "differing c0 c1"] set_differing [OF can] that len by metis
  show "differing c0 c1 ! j < 32" if "j < length ord"
    by (rule ccontr) (use dif [OF that] in simp)
  show "lit_at c1 k = lit_at c0 k" if "k \<notin> set (differing c0 c1)"
    using that by (simp add: set_differing [OF can])
  show "set (take i ord) \<subseteq> {..<length ord}"
    using set_take_subset [of i ord] assms by (simp add: differ_by_def)
qed

lemma waypoint_lits:
  assumes "differ_by n c0 c1 ord" and "set is \<subseteq> {..<length ord}"
  shows "canonical (waypoint c0 c1 is) \<and> (\<forall>k. lit_at (waypoint c0 c1 is) k =
    (if k \<in> nth (differing c0 c1) ` set is then lit_at c1 k else lit_at c0 k))"
  using assms(2)
proof (induction "is" rule: rev_induct)
  case Nil
  then show ?case by (simp add: waypoint_def differ_byD [OF assms(1)])
next
  case (snoc j js)
  have j: "differing c0 c1 ! j < 32" using snoc.prems differ_byD(4) [OF assms(1)] by simp
  have "waypoint c0 c1 (js @ [j]) = take_lit (shl1 (differing c0 c1 ! j)) c1 (waypoint c0 c1 js)"
    by (simp add: waypoint_def)
  moreover have "canonical (take_lit (shl1 (differing c0 c1 ! j)) c1 (waypoint c0 c1 js))"
    using snoc differ_byD(2) [OF assms(1)] by (intro canonical_take_lit) (auto simp: canonical_iff)
  ultimately show ?case using snoc j by (auto simp: lit_at_take_lit)
qed

lemma differing_image:
  assumes "differ_by n c0 c1 ord" and "j < length ord" and "set is \<subseteq> {..<length ord}"
  shows "differing c0 c1 ! j \<in> nth (differing c0 c1) ` set is \<longleftrightarrow> j \<in> set is"
proof -
  have "inj_on (nth (differing c0 c1)) {..<length ord}"
    using differ_byD(3) [OF assms(1)] by (auto simp: differing_def intro!: inj_on_nth)
  with assms(2,3) show ?thesis by (auto simp: inj_on_def)
qed

lemma image_differing:
  "length (differing c0 c1) = m \<Longrightarrow> nth (differing c0 c1) ` {..<m} = set (differing c0 c1)"
  by (metis atLeast0LessThan list.set_map map_nth set_upt)

lemma stop_lits:
  assumes "differ_by n c0 c1 ord"
  shows "canonical (waypoint c0 c1 (take i ord))"
    and "lit_at (waypoint c0 c1 (take i ord)) k =
      (if k \<in> nth (differing c0 c1) ` set (take i ord) then lit_at c1 k else lit_at c0 k)"
  using waypoint_lits [OF assms differ_byD(7) [OF assms]] by blast+

lemma stop_ok: "differ_by n c0 c1 ord \<Longrightarrow> cube_ok n (waypoint c0 c1 (take i ord))"
  by (rule cube_okI)
    (auto simp: stop_lits differ_by_def dest: cube_ok_lit split: if_splits)

lemma last_stop:
  assumes "differ_by n c0 c1 ord"
  shows "waypoint c0 c1 (take (length ord) ord) = c1"
proof (rule cube_eqI)
  have "nth (differing c0 c1) ` set ord = set (differing c0 c1)"
    using assms image_differing [OF differ_byD(3) [OF assms]] by (simp add: differ_by_def)
  then show "lit_at (waypoint c0 c1 (take (length ord) ord)) k = lit_at c1 k" for k
    unfolding stop_lits(2) [OF assms] using differ_byD(6) [OF assms, of k] by simp
qed (rule stop_lits(1) [OF assms], rule differ_byD(2) [OF assms])

lemma new_cube_lits:
  assumes "differ_by n c0 c1 ord" and "length gs = length ord"
  shows "canonical (new_cube c0 c1 gs)"
    and "j < length ord \<Longrightarrow> lit_at (new_cube c0 c1 gs) (differing c0 c1 ! j) =
      pick (gs ! j) (lit_at c0 (differing c0 c1 ! j)) (lit_at c1 (differing c0 c1 ! j))"
    and "k \<notin> set (differing c0 c1) \<Longrightarrow> lit_at (new_cube c0 c1 gs) k = lit_at c0 k"
proof -
  note D = differ_byD [OF assms(1)]
  have len: "length gs \<le> popcount (difference c0 c1)"
    using assms D(3) by (simp add: differing_def length_bits_of)
  have dif: "lit_at c0 k \<noteq> lit_at c1 k \<and> lit_at c0 k = lit_at c0 k" if "bit (difference c0 c1) k" for k
    using that by (simp add: bit_difference [OF D(1,2)])
  note spec = exorlink_row_spec [OF D(1,2) refl D(1) len dif, folded third_cube_def, folded new_cube_def differing_def]
  show "canonical (new_cube c0 c1 gs)" using spec by simp
  show "lit_at (new_cube c0 c1 gs) (differing c0 c1 ! j) =
      pick (gs ! j) (lit_at c0 (differing c0 c1 ! j)) (lit_at c1 (differing c0 c1 ! j))" if "j < length ord"
    using spec that assms(2) by simp
  show "lit_at (new_cube c0 c1 gs) k = lit_at c0 k" if "k \<notin> set (differing c0 c1)"
    using spec that D(3) assms(2) by simp
qed

lemma stop_at:
  assumes "differ_by n c0 c1 ord"
  shows "j < length ord \<Longrightarrow> lit_at (waypoint c0 c1 (take i ord)) (differing c0 c1 ! j) =
      (if j \<in> set (take i ord) then lit_at c1 (differing c0 c1 ! j) else lit_at c0 (differing c0 c1 ! j))"
    and "k \<notin> set (differing c0 c1) \<Longrightarrow> lit_at (waypoint c0 c1 (take i ord)) k = lit_at c0 k"
proof -
  note D = differ_byD [OF assms]
  show "lit_at (waypoint c0 c1 (take i ord)) (differing c0 c1 ! j) =
      (if j \<in> set (take i ord) then lit_at c1 (differing c0 c1 ! j) else lit_at c0 (differing c0 c1 ! j))"
    if "j < length ord"
    unfolding stop_lits(2) [OF assms] differing_image [OF assms that D(7)] by (rule refl)
  show "lit_at (waypoint c0 c1 (take i ord)) k = lit_at c0 k" if "k \<notin> set (differing c0 c1)"
    unfolding stop_lits(2) [OF assms] using D(6) [OF that] by simp
qed

text \<open>One move: the cube of row \<open>i\<close> is the merge of the cubes before and after it.\<close>

lemma move:
  assumes d: "differ_by n c0 c1 ord" and i: "i < length ord"
  defines "w \<equiv> \<lambda>i. waypoint c0 c1 (take i ord)"
  shows "distance (w i) (w (Suc i)) = 1" and "new_cube c0 c1 (order_row ord i) = merge (w i) (w (Suc i))"
proof -
  note D = differ_byD [OF d]
  have oi: "ord ! i < length ord" using d i by (metis differ_by_def lessThan_iff nth_mem)
  have new: "ord ! i \<notin> set (take i ord)"
    using d i by (auto simp: differ_by_def in_set_conv_nth nth_eq_iff_index_eq)
  have suc: "m \<in> set (take (Suc i) ord) \<longleftrightarrow> m = ord ! i \<or> m \<in> set (take i ord)" for m
    using i by (simp add: take_Suc_conv_app_nth)
  have can: "canonical (w j)" for j unfolding w_def by (rule stop_lits(1) [OF d])
  have same: "lit_at (w i) k = lit_at (w (Suc i)) k" if "k \<noteq> differing c0 c1 ! (ord ! i)" for k
  proof (cases "k \<in> set (differing c0 c1)")
    case True
    then obtain m where "m < length ord" "k = differing c0 c1 ! m" by (metis D(3) in_set_conv_nth)
    with that suc [of m] show ?thesis using stop_at(1) [OF d] unfolding w_def by metis
  next
    case False
    then show ?thesis unfolding w_def by (simp add: stop_at(2) [OF d])
  qed
  show "distance (w i) (w (Suc i)) = 1"
  proof (rule distance_1I [OF can can D(4) [OF oi] _ same])
    show "lit_at (w i) (differing c0 c1 ! (ord ! i)) \<noteq> lit_at (w (Suc i)) (differing c0 c1 ! (ord ! i))"
      unfolding w_def stop_at(1) [OF d oi] using D(5) [OF oi] new suc [of "ord ! i"] by simp
  qed
  note row = new_cube_lits [OF d length_order_row [of ord i]]
  show "new_cube c0 c1 (order_row ord i) = merge (w i) (w (Suc i))"
  proof (rule cube_eqI [OF row(1) canonical_merge [OF can can]])
    fix k
    show "lit_at (new_cube c0 c1 (order_row ord i)) k = lit_at (merge (w i) (w (Suc i))) k"
    proof (cases "k \<in> set (differing c0 c1)")
      case False
      then show ?thesis
        unfolding lit_at_merge [OF can can] row(3) [OF False]
        unfolding w_def by (simp add: stop_at(2) [OF d])
    next
      case True
      then obtain m where m: "m < length ord" "k = differing c0 c1 ! m"
        by (metis D(3) in_set_conv_nth)
      show ?thesis
        unfolding m(2) lit_at_merge [OF can can] row(2) [OF m(1)] order_row_nth [OF m(1)]
        unfolding w_def stop_at(1) [OF d m(1)] pick_def suc
        using D(5) [OF m(1)] new by auto
    qed
  qed
qed

lemma rows_path:
  assumes d: "differ_by n c0 c1 ord" and "i \<le> length ord"
  shows "cube_path n (waypoint c0 c1 (take i ord))
    (map (\<lambda>i. new_cube c0 c1 (order_row ord i)) [i..<length ord]) c1"
  using assms(2)
proof (induction rule: inc_induct)
  case base
  then show ?case using d last_stop [OF d] by (auto simp: differ_by_def)
next
  case (step i)
  have "[i..<length ord] = i # [Suc i..<length ord]" using step.hyps by (simp add: upt_conv_Cons)
  with step move [OF d step.hyps(2)] stop_ok [OF d] show ?case by (auto intro: path_move)
qed

text \<open>
  \<^verbatim>\<open>exorlink\<close> itself. The smaller cube as a word is the start of the path, so the cubes
  may be given either way round.
\<close>

lemma exorlink_ordered:
  assumes "cube_ok n c0" and "cube_ok n c1" and "distance c0 c1 = d" and "group_ok d grp"
  shows "cube_path n c0 (map (\<lambda>i. new_cube c0 c1 (take d (drop (i * d) grp))) [0..<d]) c1"
proof -
  obtain ord where ord: "distinct ord" "length ord = d" "set ord = {..<d}" "take (d * d) grp = order_group ord"
    using assms(4) by (auto simp: group_ok_def)
  have "differ_by n c0 c1 ord" using assms(1-3) ord by (simp add: differ_by_def)
  from rows_path [OF this, of 0] have
    "cube_path n c0 (map (\<lambda>i. new_cube c0 c1 (order_row ord i)) [0..<d]) c1"
    by (simp add: ord(2) waypoint_def)
  moreover have "map (\<lambda>i. new_cube c0 c1 (take d (drop (i * d) grp))) [0..<d] =
      map (\<lambda>i. new_cube c0 c1 (order_row ord i)) [0..<d]"
    by (simp add: group_ok_row [OF ord(4,2)])
  ultimately show ?thesis by (simp only:)
qed

lemma group_ok_length:
  assumes "group_ok d grp"
  shows "d * d \<le> length grp"
proof -
  obtain ord where ord: "length ord = d" "take (d * d) grp = order_group ord"
    using assms by (auto simp: group_ok_def)
  have "length (order_group ord) = d * d"
    by (simp add: order_group_def length_concat comp_def ord(1) sum_list_triv)
  then show ?thesis using arg_cong [OF ord(2), of length] by simp
qed

lemma exorlink_path:
  assumes a: "cube_ok n a" and b: "cube_ok n b" and dist: "distance a b = d" and d: "d \<le> 4"
    and ok: "group_ok d grp"
  obtains ns where "exorlink a b d grp = Some (ns @ replicate (4 - d) cube32_default)"
    and "length ns = d" and "cube_path n a ns b \<or> cube_path n b ns a"
proof -
  define c0 c1 where "c0 = (if cube_value a > cube_value b then b else a)"
    and "c1 = (if cube_value a > cube_value b then a else b)"
  define ns where "ns = map (\<lambda>i. new_cube c0 c1 (take d (drop (i * d) grp))) [0..<d]"
  have c: "cube_ok n c0" "cube_ok n c1" "distance c0 c1 = d" "difference a b = difference c0 c1"
    using a b dist by (simp_all add: c0_def c1_def distance_sym difference_sym)
  have pair: "(if cube_value a > cube_value b then (b, a) else (a, b)) = (c0, c1)"
    by (simp add: c0_def c1_def)
  have "exorlink a b d grp = Some (ns @ replicate (4 - d) cube32_default)"
    using d group_ok_length [OF ok] unfolding exorlink_def Let_def pair c(4)
    by (simp add: ns_def new_cube_def third_cube_def)
  moreover have "cube_path n c0 ns c1"
    unfolding ns_def by (rule exorlink_ordered [OF c(1-3) ok])
  ultimately show thesis
    using that [of ns] by (cases "cube_value a > cube_value b") (simp_all add: c0_def c1_def ns_def)
qed

lemma exorlink_spec:
  assumes "cube_ok n a" and "cube_ok n b" and "distance a b = d" and "d \<le> 4" and "group_ok d grp"
  obtains ns where "exorlink a b d grp = Some (ns @ replicate (4 - d) cube32_default)"
    and "length ns = d" and "list_all (cube_ok n) ns"
    and "\<And>v. esop_eval v ns = (cube_eval a v \<noteq> cube_eval b v)"
proof -
  obtain ns where ns: "exorlink a b d grp = Some (ns @ replicate (4 - d) cube32_default)" "length ns = d"
      "cube_path n a ns b \<or> cube_path n b ns a"
    using exorlink_path [OF assms] .
  then have "list_all (cube_ok n) ns" by (auto dest: cube_path_ok)
  moreover have "esop_eval v ns = (cube_eval a v \<noteq> cube_eval b v)" for v
    using ns(3) by (auto simp: cube_path_eval)
  ultimately show thesis using ns(1,2) that by blast
qed

text \<open>The order in which the two cubes are given does not matter.\<close>

lemma exorlink_sym: "exorlink a b d grp = exorlink b a d grp"
proof (cases "cube_value a = cube_value b")
  case True
  then show ?thesis using inj_cube_value by blast
next
  case False
  then show ?thesis by (auto simp: exorlink_def Let_def difference_sym)
qed

text \<open>The tables: the groups at the offsets the passes use are the groups of the orders of two
  and of three variables, all of them and no others.\<close>

theorem groups_are_orders:
  "((\<exists>g \<in> {0, 4}. grp = take 4 (drop g cube_groups2)) \<longleftrightarrow>
      (\<exists>ord. (distinct ord \<and> set ord = {..<2}) \<and> grp = order_group ord)) \<and>
   ((\<exists>g \<in> {0, 9, 18, 27, 36, 45}. grp = take 9 (drop g cube_groups3)) \<longleftrightarrow>
      (\<exists>ord. (distinct ord \<and> set ord = {..<3}) \<and> grp = order_group ord))"
  unfolding orders_2 orders_3 bex_simps list.set ex_disj_distrib conj_disj_distribR insert_iff empty_iff
    cube_groups2_at cube_groups3_at by (simp only: simp_thms)

end
