(* ===== verification/Esop_Rewriting.thy ===== *)
theory Esop_Rewriting
  imports Exorlink
begin

text \<open>
  The abstract specification of the minimiser: a rewriting system on multisets of cubes.
  Two equal cubes cancel, two cubes at distance 1 are merged, and two cubes at distance 2 or
  3 are replaced by the merged neighbours of a shortest path from one to the other. Every
  rule keeps the exclusive sum and the number of variables. The manager of
  \<^verbatim>\<open>exorcism32.cpp\<close> does nothing else: the following theories show that each of its
  operations is a sequence of these steps on the cubes it holds.
\<close>

inductive esop_step :: "nat \<Rightarrow> cube32 multiset \<Rightarrow> cube32 multiset \<Rightarrow> bool" for n where
  cancel: "cube_ok n c \<Longrightarrow> esop_step n (add_mset c (add_mset c M)) M"
| merge: "cube_ok n c \<Longrightarrow> cube_ok n d \<Longrightarrow> distance c d = 1 \<Longrightarrow>
    esop_step n (add_mset c (add_mset d M)) (add_mset (merge c d) M)"
| reshape: "cube_path n a ns b \<Longrightarrow> distance a b = length ns \<Longrightarrow> length ns \<in> {2, 3} \<Longrightarrow>
    esop_step n (add_mset a (add_mset b M)) (mset ns + M)"

abbreviation esop_steps :: "nat \<Rightarrow> cube32 multiset \<Rightarrow> cube32 multiset \<Rightarrow> bool" where
  "esop_steps n \<equiv> (esop_step n)\<^sup>*\<^sup>*"

section \<open>The rules in any context\<close>

lemma esop_step_context: "esop_step n M N \<Longrightarrow> esop_step n (M + K) (N + K)"
proof (induction rule: esop_step.induct)
  case (cancel c M)
  then show ?case using esop_step.cancel [of n c "M + K"] by simp
next
  case (merge c d M)
  then show ?case using esop_step.merge [of n c d "M + K"] by simp
next
  case (reshape a ns b M)
  then show ?case using esop_step.reshape [of n a ns b "M + K"] by (simp add: ac_simps)
qed

lemma esop_steps_context: "esop_steps n M N \<Longrightarrow> esop_steps n (M + K) (N + K)"
  by (induction rule: rtranclp_induct) (auto intro: esop_step_context rtranclp.rtrancl_into_rtrancl)

lemma esop_steps_add: "esop_steps n M N \<Longrightarrow> esop_steps n (add_mset c M) (add_mset c N)"
  using esop_steps_context [of n M N "{#c#}"] by simp

lemma esop_steps_trans [trans]: "esop_steps n L M \<Longrightarrow> esop_steps n M N \<Longrightarrow> esop_steps n L N"
  by (rule rtranclp_trans)

text \<open>The pair of a reshaping may be given either way round.\<close>

lemma esop_steps_reshape:
  assumes "cube_path n a ns b \<or> cube_path n b ns a" and "distance a b = length ns" and "length ns \<in> {2, 3}"
  shows "esop_steps n (add_mset a (add_mset b M)) (mset ns + M)"
  using assms esop_step.reshape [of n a ns b M] esop_step.reshape [of n b ns a M]
  by (metis add_mset_commute distance_sym r_into_rtranclp)

section \<open>What every step keeps\<close>

definition parity :: "(nat \<Rightarrow> bool) \<Rightarrow> cube32 multiset \<Rightarrow> bool" where
  "parity v M = odd (size (filter_mset (\<lambda>c. cube_eval c v) M))"

lemma parity_simps [simp]:
  "parity v {#} = False"
  "parity v (add_mset c M) = (cube_eval c v \<noteq> parity v M)"
  by (simp_all add: parity_def)

lemma parity_mset [simp]: "parity v (mset cs) = esop_eval v cs"
  by (simp add: parity_def esop_eval_parity)

lemma parity_union: "parity v (M + N) = (parity v M \<noteq> parity v N)"
  by (simp add: parity_def)

lemma esop_step_parity: "esop_step n M N \<Longrightarrow> parity v N = parity v M"
proof (induction rule: esop_step.induct)
  case (merge c d M)
  then show ?case by (auto simp: cube_eval_merge [OF cube_ok_canonical cube_ok_canonical])
next
  case (reshape a ns b M)
  then show ?case by (auto simp: parity_union cube_path_eval)
qed auto

lemma esop_step_ok:
  "esop_step n M N \<Longrightarrow> \<forall>c \<in># M. cube_ok n c \<Longrightarrow> \<forall>c \<in># N. cube_ok n c"
  by (induction rule: esop_step.induct) (auto simp: list_all_iff intro: wf_intros dest: cube_path_ok)

text \<open>A step adds at most one cube, and only the reshaping at distance 3 does.\<close>

lemma esop_step_size: "esop_step n M N \<Longrightarrow> size N \<le> Suc (size M)"
  by (induction rule: esop_step.induct) auto

lemma esop_steps_parity: "esop_steps n M N \<Longrightarrow> parity v N = parity v M"
  by (induction rule: rtranclp_induct) (simp_all add: esop_step_parity)

lemma esop_steps_ok:
  "esop_steps n M N \<Longrightarrow> \<forall>c \<in># M. cube_ok n c \<Longrightarrow> \<forall>c \<in># N. cube_ok n c"
  by (induction rule: rtranclp_induct) (blast dest: esop_step_ok)+

text \<open>On lists of cubes.\<close>

lemma esop_steps_eval: "esop_steps n (mset cs) (mset ds) \<Longrightarrow> esop_eval v ds = esop_eval v cs"
  using esop_steps_parity [of n "mset cs" "mset ds" v] by simp

end
