(* ===== verification/Aig_Collapse.thy ===== *)
theory Aig_Collapse
  imports Output Xor_Adder Esop_Rewriting
begin

text \<open>
  \<^verbatim>\<open>source/base/collapse.cpp\<close>: an and-inverter graph is turned into one ESOP per output
  by computing the ESOP of each node from those of its fanins. \<^verbatim>\<open>add_cube\<close> adds a cube
  to the set that is being built, merging it as long as a cube at distance 1 is there;
  the contract it shares with the BDD method's \<^verbatim>\<open>add_cube\<close> is the locale \<open>xor_adder\<close>
  of \<open>Xor_Adder\<close>.

  The manager's vectors are the fields of \<open>aig_extr\<close>. An access out of range is
  \<open>None\<close>. What the run tells its loggers and prints is the list of events that it returns with its
  result; \<open>data\<close> says whether there is a logger \<^verbatim>\<open>data\<close>.
\<close>

section \<open>The operations\<close>

record aig_extr =
  m_esops :: "cube32 list list"
  m_esop0 :: "cube32 list"
  m_esop1 :: "cube32 list"
  m_curr_esop :: "cube32 uset"

text \<open>
  The inner \<^verbatim>\<open>for\<close> of \<^verbatim>\<open>add_cube\<close>: the first cube of the set that \<open>cube0\<close> reaches by one or two
  rotations of a variable.
\<close>

fun find_neighbour :: "nat list \<Rightarrow> cube32 \<Rightarrow> cube32 uset \<Rightarrow> cube32 option" where
  "find_neighbour [] cube0 s = None"
| "find_neighbour (i # is) cube0 s =
     (let cube1 = cube_rotate i cube0
      in if uset_find cube1 s then Some cube1
         else let cube2 = cube_rotate i cube1
              in if uset_find cube2 s then Some cube2 else find_neighbour is cube0 s)"

lemma find_neighbour_found:
  "find_neighbour is c s = Some d \<Longrightarrow>
   uset_find d s \<and> (\<exists>i \<in> set is. d = cube_rotate i c \<or> d = cube_rotate i (cube_rotate i c))"
  by (induction "is") (auto simp: Let_def split: if_splits)

lemma find_neighbour_missed:
  "find_neighbour is c s = None \<Longrightarrow> i \<in> set is \<Longrightarrow>
   \<not> uset_find (cube_rotate i c) s \<and> \<not> uset_find (cube_rotate i (cube_rotate i c)) s"
  by (induction "is") (auto simp: Let_def split: if_splits)

function aig_add_cube :: "cube32 policy \<Rightarrow> nat \<Rightarrow> cube32 \<Rightarrow> cube32 uset \<Rightarrow> cube32 uset" where
  "aig_add_cube P n cube0 s =
     (if uset_find cube0 s then uset_erase cube0 s
      else if cube_eq cube0 cube32_one then uset_insert P cube0 s
      else (case find_neighbour [0..<n] cube0 s of
              Some c_tmp \<Rightarrow> aig_add_cube P n (merge cube0 c_tmp) (uset_erase c_tmp s)
            | None \<Rightarrow> uset_insert P cube0 s))"
  by pat_completeness auto

termination aig_add_cube
  by (relation "measure (\<lambda>(P, n, cube0, s). length (elems s))")
    (auto dest: find_neighbour_found intro: uset_erase_smaller)

declare aig_add_cube.simps [simp del]

text \<open>\<^verbatim>\<open>prepare_input\<close>, which returns its \<^verbatim>\<open>out\<close>: the fanin's ESOP, complemented if \<open>cmpl\<close>.\<close>

definition prepare_input :: "nat \<Rightarrow> bool \<Rightarrow> aig_extr \<Rightarrow> cube32 list option" where
  "prepare_input idx cmpl x =
     do { e \<leftarrow> vec_at (m_esops x) idx;
          Some (if cmpl
                then (case e of
                        [] \<Rightarrow> [cube32_one]
                      | fst_cube # rest \<Rightarrow>
                          if cube_eq fst_cube cube32_one then rest
                          else if n_lits fst_cube = 1 then invert fst_cube # rest
                          else cube32_one # e)
                else e) }"

fun and_row :: "cube32 policy \<Rightarrow> nat \<Rightarrow> cube32 \<Rightarrow> cube32 list \<Rightarrow> cube32 uset \<Rightarrow> cube32 uset" where
  "and_row P n cube0 [] s = s"
| "and_row P n cube0 (cube1 # cs) s =
     (if cube_eq cube1 cube32_one then and_row P n cube0 cs (aig_add_cube P n cube0 s)
      else let tmp = cube_and cube0 cube1
           in if \<not> cube_eq tmp cube32_zero then and_row P n cube0 cs (aig_add_cube P n tmp s)
              else and_row P n cube0 cs s)"

fun and_rows :: "cube32 policy \<Rightarrow> nat \<Rightarrow> cube32 list \<Rightarrow> cube32 list \<Rightarrow> cube32 uset \<Rightarrow> cube32 uset" where
  "and_rows P n [] esop1 s = s"
| "and_rows P n (cube0 # cs) esop1 s =
     (if cube_eq cube0 cube32_one then and_rows P n cs esop1 (fold (aig_add_cube P n) esop1 s)
      else and_rows P n cs esop1 (and_row P n cube0 esop1 s))"

definition compute_and :: "cube32 policy \<Rightarrow> nat \<Rightarrow> nat \<Rightarrow> aig_extr \<Rightarrow> aig_extr option" where
  "compute_and P n index x =
     (if m_esop0 x = [] \<or> m_esop1 x = [] then Some x
      else do { let curr = and_rows P n (m_esop0 x) (m_esop1 x) (m_curr_esop x);
                es \<leftarrow> vec_modify index (\<lambda>e. e @ elems curr) (m_esops x);
                Some (x\<lparr>m_esops := es, m_curr_esop := uset_clear curr\<rparr>) })"

fun load_inputs :: "nat \<Rightarrow> nat list \<Rightarrow> cube32 list list \<Rightarrow> cube32 list list option" where
  "load_inputs i [] es = Some es"
| "load_inputs i (ci # cis) es =
     do { es' \<leftarrow> vec_modify ci (\<lambda>e. e @ [Cube32 (shl1 i) (shl1 i)]) es; load_inputs (Suc i) cis es' }"

definition and_step :: "cube32 policy \<Rightarrow> nat \<Rightarrow> nat \<times> fanin \<times> fanin \<Rightarrow> aig_extr \<Rightarrow> aig_extr option" where
  "and_step P n nd x =
     (case nd of (i, fi0, fi1) \<Rightarrow>
        do { e0 \<leftarrow> prepare_input (fst fi0) (snd fi0) x;
             let x0 = x\<lparr>m_esop0 := e0\<rparr>;
             e1 \<leftarrow> prepare_input (fst fi1) (snd fi1) x0;
             compute_and P n i (x0\<lparr>m_esop1 := e1\<rparr>) })"

text \<open>
  The lines of the data logger: a node with the sizes of its fanins' ESOPs and of its own, and
  an output with the size of its ESOP. They end in a time.
\<close>

definition node_line :: "nat \<Rightarrow> nat \<Rightarrow> nat \<Rightarrow> nat \<Rightarrow> string" where
  "node_line i n0 n1 k = show_nat i @ '','' @ show_nat n0 @ '','' @ show_nat n1 @ '','' @ show_nat k @ '',''"

definition output_line :: "nat \<Rightarrow> nat \<Rightarrow> string" where
  "output_line i n0 = show_nat i @ '','' @ show_nat n0 @ '',-1,-1,''"

text \<open>What is printed and logged once node \<open>i\<close> is there.\<close>

definition node_events :: "bool \<Rightarrow> bool \<Rightarrow> nat \<Rightarrow> aig_extr \<Rightarrow> 'b event list option" where
  "node_events verbose data i x =
     do { logged \<leftarrow>
            (if data
             then do { e \<leftarrow> vec_at (m_esops x) i;
                       Some [Timed_Data (node_line i (length (m_esop0 x)) (length (m_esop1 x)) (length e))] }
             else Some []);
          Some ((if verbose
                 then [Print (carriage_return # ''Node '' @ pad 6 (show_int (of_nat i)) @ '' / '' @
                   pad 6 (show_nat (length (m_esops x))) @ '', child 1: '' @ pad 6 (show_nat (length (m_esop0 x))) @
                   '' child 2: '' @ pad 6 (show_nat (length (m_esop1 x))))]
                 else []) @ logged) }"

fun and_loop :: "cube32 policy \<Rightarrow> bool \<Rightarrow> bool \<Rightarrow> nat \<Rightarrow> (nat \<times> fanin \<times> fanin) list \<Rightarrow> aig_extr
    \<Rightarrow> (aig_extr \<times> 'b event list) option" where
  "and_loop P verbose data n [] x = Some (x, [])"
| "and_loop P verbose data n (nd # nds) x =
     do { x' \<leftarrow> and_step P n nd x;
          evs \<leftarrow> node_events verbose data (fst nd) x';
          (x'', evs') \<leftarrow> and_loop P verbose data n nds x';
          Some (x'', evs @ evs') }"

fun co_loop :: "bool \<Rightarrow> nat \<Rightarrow> fanin list \<Rightarrow> aig_extr \<Rightarrow> cube32 list list
    \<Rightarrow> (aig_extr \<times> cube32 list list \<times> 'b event list) option" where
  "co_loop data i [] x ret = Some (x, ret, [])"
| "co_loop data i (fi # fis) x ret =
     do { e0 \<leftarrow> prepare_input (fst fi) (snd fi) x;
          (x', ret', evs) \<leftarrow> co_loop data (Suc i) fis (x\<lparr>m_esop0 := e0\<rparr>) (ret @ [e0]);
          Some (x', ret',
                (if data then [Timed_Data (output_line i (length e0))] else []) @ evs) }"

definition aig_extr_init :: aig_extr where
  "aig_extr_init = \<lparr>m_esops = [], m_esop0 = [], m_esop1 = [], m_curr_esop = uset_empty\<rparr>"

definition aig_run :: "cube32 policy \<Rightarrow> bool \<Rightarrow> bool \<Rightarrow> aig \<Rightarrow> aig_extr \<Rightarrow> (two_lvl32 \<times> 'b event list) option" where
  "aig_run P verbose data g x =
     do { es \<leftarrow> load_inputs 0 (ci_ids g) (vec_resize [] (obj_num g) (m_esops x));
          (x1, evs1) \<leftarrow> and_loop P verbose data (ci_num g) (and_nodes g) (x\<lparr>m_esops := es\<rparr>);
          (x2, ret, evs2) \<leftarrow> co_loop data 0 (co_nodes g) x1 [];
          Some (\<lparr>kind = ESOP, n_inputs = ci_num g, cubes = ret\<rparr>,
                (if verbose then [Console ''[I] Collapsing using AIG''] else []) @
                (if data then [Data ''# [%c] - AIG collapsing''] else []) @
                evs1 @ (if verbose then [Print [newline]] else []) @ evs2) }"

text \<open>\<^verbatim>\<open>aig_extract\<close>: more than 32 inputs end the program, \<open>Inl\<close> here.\<close>

definition aig_extract :: "cube32 policy \<Rightarrow> bool \<Rightarrow> bool \<Rightarrow> aig
    \<Rightarrow> ('b event list \<times> (extract_exit + two_lvl32)) option" where
  "aig_extract P verbose data g =
     (if ci_num g > 32
      then Some ([Console ''[I] Cannot handle more than 32 input variables''], Inl Too_Many_Inputs)
      else do { (ret, evs) \<leftarrow> aig_run P verbose data g aig_extr_init;
                Some (evs @ [Elapsed], Inr ret) })"

section \<open>Adding a cube\<close>

definition esop_set_ok :: "nat \<Rightarrow> cube32 uset \<Rightarrow> bool" where
  "esop_set_ok n s \<longleftrightarrow> n \<le> 32 \<and> uset_inv s \<and> list_all (cube_ok n) (elems s)"

lemma esop_set_okD:
  assumes "esop_set_ok n s"
  shows "n \<le> 32" and "uset_inv s" and "d \<in> set (elems s) \<Longrightarrow> cube_ok n d"
    and "uset_find d s \<Longrightarrow> cube_ok n d"
  using assms by (auto simp: esop_set_ok_def list_all_iff uset_find_iff)

lemma esop_set_ok_erase: "esop_set_ok n s \<Longrightarrow> esop_set_ok n (uset_erase d s)"
  by (auto simp: esop_set_ok_def list_all_iff us.set_erase us.inv_erase)

lemma esop_set_ok_insert: "esop_set_ok n s \<Longrightarrow> cube_ok n c \<Longrightarrow> esop_set_ok n (uset_insert P c s)"
  by (auto simp: esop_set_ok_def list_all_iff us.set_insert us.inv_insert)

text \<open>
  The contract: the set and the cube have been rewritten by the steps of \<open>Esop_Rewriting\<close>, to at
  most one cube more than before.
\<close>

definition summed :: "nat \<Rightarrow> cube32 \<Rightarrow> cube32 uset \<Rightarrow> cube32 uset \<Rightarrow> bool" where
  "summed n c s s' \<longleftrightarrow> esop_set_ok n s' \<and> esop_steps n (add_mset c (mset (elems s))) (mset (elems s')) \<and>
     length (elems s') \<le> Suc (length (elems s)) \<and> (apart_but_one (elems s) \<longrightarrow> apart_but_one (elems s'))"

lemma summed_eval:
  assumes "summed n c s s'"
  shows "esop_eval v (elems s') = (esop_eval v (elems s) \<noteq> cube_eval c v)"
  using assms esop_steps_parity [of n "add_mset c (mset (elems s))" "mset (elems s')" v] by (auto simp: summed_def)

lemma summed_erase:
  assumes s: "esop_set_ok n s" and c: "cube_ok n c" and found: "uset_find c s"
  shows "summed n c s (uset_erase c s)"
proof -
  note ok = esop_set_okD(2) [OF s]
  have "mset (elems s) = add_mset c (mset (elems (uset_erase c s)))"
    using us.mset_erase [OF ok TrueI, of c] found by (simp add: uset_find_iff)
  then have "esop_step n (add_mset c (mset (elems s))) (mset (elems (uset_erase c s)))"
    using cancel [OF c] by simp
  then show ?thesis
    using us.length_erase [OF ok TrueI found] us.set_erase [OF ok TrueI, of c] esop_set_ok_erase [OF s]
    by (auto simp: summed_def intro: apart_but_one_subset)
qed

lemma summed_insert:
  assumes s: "esop_set_ok n s" and c: "cube_ok n c" and new: "\<not> uset_find c s"
    and far: "c = cube32_one \<or> (\<forall>d \<in> set (elems s). 2 \<le> distance c d)"
  shows "summed n c s (uset_insert P c s)"
proof -
  note ok = esop_set_okD(2) [OF s]
  have "apart_but_one (elems (uset_insert P c s))" if "apart_but_one (elems s)"
    by (rule apart_but_one_insert [OF that us.set_insert [OF ok TrueI]]) (use far in blast)
  then show ?thesis
    using us.length_insert [OF ok TrueI new, of P] mset_uset_insert [OF new, of P] esop_set_ok_insert [OF s c, of P]
    by (simp add: summed_def)
qed

lemma summed_merge:
  assumes s: "esop_set_ok n s" and c: "cube_ok n c" and found: "uset_find d s" and dist: "distance c d = 1"
    and rec: "summed n (merge c d) (uset_erase d s) s'"
  shows "summed n c s s'"
proof -
  note ok = esop_set_okD(2) [OF s]
  have "mset (elems s) = add_mset d (mset (elems (uset_erase d s)))"
    using us.mset_erase [OF ok TrueI, of d] found by (simp add: uset_find_iff)
  then have "esop_step n (add_mset c (mset (elems s))) (add_mset (merge c d) (mset (elems (uset_erase d s))))"
    using esop_step.merge [OF c esop_set_okD(4) [OF s found] dist] by simp
  then have "esop_steps n (add_mset c (mset (elems s))) (mset (elems s'))"
    using rec unfolding summed_def by (meson converse_rtranclp_into_rtranclp)
  moreover have "apart_but_one (elems (uset_erase d s))" if "apart_but_one (elems s)"
    by (rule apart_but_one_subset [OF that]) (auto simp: us.set_erase [OF ok TrueI])
  ultimately show ?thesis
    using rec us.length_erase [OF ok TrueI found] by (simp add: summed_def)
qed

lemma aig_add_cube_summed:
  assumes "esop_set_ok n s" and "cube_ok n c"
  shows "summed n c s (aig_add_cube P n c s)"
  using assms
proof (induction P n c s rule: aig_add_cube.induct)
  case (1 P n c s)
  note ok = esop_set_okD [OF "1.prems"(1)]
  note unfold = aig_add_cube.simps [of P n c s] cube_eq_iff
  consider (found) "uset_find c s" | (one) "\<not> uset_find c s" "c = cube32_one"
    | (miss) "\<not> uset_find c s" "c \<noteq> cube32_one" "find_neighbour [0..<n] c s = None"
    | (hit) d where "\<not> uset_find c s" "c \<noteq> cube32_one" "find_neighbour [0..<n] c s = Some d"
    by (cases "find_neighbour [0..<n] c s") blast+
  then show ?case
  proof cases
    case found
    then show ?thesis using summed_erase [OF "1.prems" found] by (simp add: unfold)
  next
    case one
    have "aig_add_cube P n c s = uset_insert P c s"
      unfolding unfold(1) using one by (simp add: cube_eq_iff)
    then show ?thesis using summed_insert [OF "1.prems" one(1), of P] one(2) by simp
  next
    case miss
    have "2 \<le> distance c d" if "d \<in> set (elems s)" for d
    proof (rule no_neighbour_far [OF "1.prems"(2) ok(3) [OF that]])
      show "c \<noteq> d" using miss(1) that by (auto simp: uset_find_iff)
      show "d \<noteq> cube_rotate i c \<and> d \<noteq> cube_rotate i (cube_rotate i c)" if i: "i < n" for i
        using find_neighbour_missed [OF miss(3), of i] i \<open>d \<in> set (elems s)\<close> by (auto simp: uset_find_iff)
    qed
    then show ?thesis using summed_insert [OF "1.prems" miss(1), of P] miss by (simp add: unfold)
  next
    case hit
    obtain i where i: "i < n" "d = cube_rotate i c \<or> d = cube_rotate i (cube_rotate i c)"
      and fd: "uset_find d s"
      using find_neighbour_found [OF hit(3)] by auto
    have dist: "distance c d = 1"
      using rotated_neighbour [OF cube_ok_canonical [OF "1.prems"(2)] _ i(2)] i(1) ok(1) by simp
    have "summed n (merge c d) (uset_erase d s) (aig_add_cube P n (merge c d) (uset_erase d s))"
      by (rule "1.IH" [OF hit(1) _ hit(3) esop_set_ok_erase [OF "1.prems"(1)]])
        (use hit(2) "1.prems"(2) ok(4) [OF fd] in \<open>auto simp: cube_eq_iff intro: cube_ok_merge\<close>)
    from summed_merge [OF "1.prems" fd dist this] hit show ?thesis by (simp add: unfold)
  qed
qed

lemma aig_add_cube_spec:
  assumes "esop_set_ok n s" and "cube_ok n c"
  shows "esop_set_ok n (aig_add_cube P n c s) \<and>
    (\<forall>v. esop_eval v (elems (aig_add_cube P n c s)) = (esop_eval v (elems s) \<noteq> cube_eval c v)) \<and>
    length (elems (aig_add_cube P n c s)) \<le> Suc (length (elems s))"
  using aig_add_cube_summed [OF assms, of P] summed_eval [OF aig_add_cube_summed [OF assms, of P]]
  by (simp add: summed_def)

interpretation ax: xor_adder "aig_add_cube P n" elems "esop_set_ok n" "cube_ok n"
    "\<lambda>v c. cube_eval c v" esop_eval
  for P :: "cube32 policy" and n :: nat
proof
qed (use aig_add_cube_spec in \<open>auto\<close>)

section \<open>Complements and products\<close>

lemma prepare_input_spec:
  assumes "idx < length (m_esops x)" and "list_all (cube_ok n) (m_esops x ! idx)"
  obtains e where "prepare_input idx cmpl x = Some e" and "list_all (cube_ok n) e"
    and "\<And>v. esop_eval v e = (esop_eval v (m_esops x ! idx) \<noteq> cmpl)"
proof (cases "cmpl")
  case False
  then show thesis
    using assms by (intro that [of "m_esops x ! idx"]) (simp_all add: prepare_input_def vec_simps)
next
  case True
  show thesis
  proof (cases "m_esops x ! idx")
    case Nil
    then show thesis
      using assms True
      by (intro that [of "[cube32_one]"]) (simp_all add: prepare_input_def vec_simps cube_ok_one cube_eval_one)
  next
    case (Cons c cs)
    then have c: "cube_ok n c" "list_all (cube_ok n) cs" using assms(2) by simp_all
    define e where "e = (if c = cube32_one then cs else if n_lits c = 1 then invert c # cs
      else cube32_one # c # cs)"
    show thesis
    proof (rule that [of e])
      show "prepare_input idx cmpl x = Some e"
        using True Cons assms(1) by (simp add: prepare_input_def vec_simps e_def cube_eq_iff)
      show "list_all (cube_ok n) e" using c by (simp add: e_def cube_ok_one cube_ok_invert)
      show "esop_eval v e = (esop_eval v (m_esops x ! idx) \<noteq> cmpl)" for v
        using True c(1) by (auto simp: e_def Cons cube_eval_one cube_eval_invert cube_ok_canonical)
    qed
  qed
qed

text \<open>
  A step of the construction that adds the function \<open>f\<close> to the set that is being built, and at
  most \<open>k\<close> cubes.
\<close>

definition adds :: "nat \<Rightarrow> nat \<Rightarrow> ((nat \<Rightarrow> bool) \<Rightarrow> bool) \<Rightarrow> cube32 uset \<Rightarrow> cube32 uset \<Rightarrow> bool" where
  "adds n k f s t \<longleftrightarrow> esop_set_ok n t \<and>
     (\<forall>v. esop_eval v (elems t) = (esop_eval v (elems s) \<noteq> f v)) \<and>
     length (elems t) \<le> k + length (elems s) \<and>
     (apart_but_one (elems s) \<longrightarrow> apart_but_one (elems t))"

lemma adds_cube: "esop_set_ok n s \<Longrightarrow> cube_ok n c \<Longrightarrow> adds n 1 (cube_eval c) s (aig_add_cube P n c s)"
  using aig_add_cube_summed [of n s c P] summed_eval [OF aig_add_cube_summed, of n s c _ P]
  by (simp add: adds_def summed_def)

lemma adds_trans:
  "adds n k f s t \<Longrightarrow> adds n l g t u \<Longrightarrow> k + l \<le> m \<Longrightarrow> (\<And>v. h v = (f v \<noteq> g v)) \<Longrightarrow> adds n m h s u"
  by (auto simp: adds_def)

lemma adds_refl: "esop_set_ok n s \<Longrightarrow> (\<And>v. \<not> h v) \<Longrightarrow> adds n k h s s"
  by (simp add: adds_def)

lemma adds_fold:
  "esop_set_ok n s \<Longrightarrow> list_all (cube_ok n) cs \<Longrightarrow>
   adds n (length cs) (\<lambda>v. esop_eval v cs) s (fold (aig_add_cube P n) cs s)"
proof (induction cs arbitrary: s)
  case (Cons c cs)
  have a: "adds n 1 (cube_eval c) s (aig_add_cube P n c s)"
    by (rule adds_cube) (use Cons.prems in simp_all)
  then have "esop_set_ok n (aig_add_cube P n c s)" by (simp add: adds_def)
  from Cons.IH [OF this] Cons.prems(2) a show ?case by (auto intro: adds_trans)
qed (simp add: adds_refl)

text \<open>The product of two cubes, as a step of the construction.\<close>

definition product_step :: "cube32 policy \<Rightarrow> nat \<Rightarrow> cube32 \<Rightarrow> cube32 \<Rightarrow> cube32 uset \<Rightarrow> cube32 uset" where
  "product_step P n c d s =
     (if d = cube32_one then aig_add_cube P n c s
      else if cube_and c d = cube32_zero then s else aig_add_cube P n (cube_and c d) s)"

lemma and_row_step: "and_row P n c (d # cs) s = and_row P n c cs (product_step P n c d s)"
  by (simp add: product_step_def cube_eq_iff Let_def)

lemma product_step_spec:
  assumes "n < 32" and c: "cube_ok n c" and d: "cube_ok n d" and s: "esop_set_ok n s"
  shows "adds n 1 (\<lambda>v. cube_eval c v \<and> cube_eval d v) s (product_step P n c d s)"
proof -
  have can: "canonical c" "canonical d" using c d by (auto dest: cube_ok_canonical)
  consider (one) "d = cube32_one" | (zero) "d \<noteq> cube32_one" "cube_and c d = cube32_zero"
    | (prod) "d \<noteq> cube32_one" "cube_and c d \<noteq> cube32_zero" by blast
  then show ?thesis
  proof cases
    case one
    then show ?thesis using adds_cube [OF s c, of P] by (simp add: product_step_def cube_eval_one)
  next
    case zero
    then have "\<And>v. \<not> (cube_eval c v \<and> cube_eval d v)" using cube_and_zero_iff [OF c d assms(1)] by blast
    with zero show ?thesis by (simp add: product_step_def adds_refl [OF s])
  next
    case prod
    have "adds n 1 (cube_eval (cube_and c d)) s (aig_add_cube P n (cube_and c d) s)"
      by (rule adds_cube [OF s cube_ok_and [OF c d prod(2)]])
    moreover have "cube_eval (cube_and c d) = (\<lambda>v. cube_eval c v \<and> cube_eval d v)"
      using cube_eval_and [OF can prod(2)] by (simp add: fun_eq_iff)
    ultimately show ?thesis using prod by (simp add: product_step_def)
  qed
qed

lemma and_row_spec:
  assumes "n < 32" and "cube_ok n c" and "list_all (cube_ok n) cs" and "esop_set_ok n s"
  shows "adds n (length cs) (\<lambda>v. cube_eval c v \<and> esop_eval v cs) s (and_row P n c cs s)"
  using assms(3,4)
proof (induction cs arbitrary: s)
  case Nil
  then show ?case by (simp add: adds_refl)
next
  case (Cons d cs)
  have d: "cube_ok n d" "list_all (cube_ok n) cs" using Cons.prems(1) by simp_all
  note t = product_step_spec [OF assms(1,2) d(1) Cons.prems(2), of P]
  then have "esop_set_ok n (product_step P n c d s)" by (simp add: adds_def)
  then show ?case
    unfolding and_row_step by (rule adds_trans [OF t Cons.IH [OF d(2)]]) auto
qed

lemma and_rows_spec:
  assumes "n < 32" and "list_all (cube_ok n) e1" and "list_all (cube_ok n) e0" and "esop_set_ok n s"
  shows "adds n (length e0 * length e1) (\<lambda>v. esop_eval v e0 \<and> esop_eval v e1) s (and_rows P n e0 e1 s)"
  using assms(3,4)
proof (induction e0 arbitrary: s)
  case Nil
  then show ?case by (simp add: adds_refl)
next
  case (Cons c e0)
  have c: "cube_ok n c" "list_all (cube_ok n) e0" using Cons.prems(1) by simp_all
  define t where "t = (if c = cube32_one then fold (aig_add_cube P n) e1 s else and_row P n c e1 s)"
  have t: "adds n (length e1) (\<lambda>v. cube_eval c v \<and> esop_eval v e1) s t"
    using adds_fold [OF Cons.prems(2) assms(2)] and_row_spec [OF assms(1) c(1) assms(2) Cons.prems(2)]
    by (auto simp: t_def cube_eval_one)
  have step: "and_rows P n (c # e0) e1 s = and_rows P n e0 e1 t"
    by (simp add: t_def cube_eq_iff)
  have "esop_set_ok n t" using t by (simp add: adds_def)
  then show ?case unfolding step by (rule adds_trans [OF t Cons.IH [OF c(2)]]) auto
qed

section \<open>One node\<close>

definition extr_inv :: "nat \<Rightarrow> aig_extr \<Rightarrow> bool" where
  "extr_inv n x \<longleftrightarrow> n < 32 \<and> list_all (list_all (cube_ok n)) (m_esops x) \<and>
     list_all (apart_but_one) (m_esops x) \<and> elems (m_curr_esop x) = []"

lemma extr_inv_nth: "extr_inv n x \<Longrightarrow> i < length (m_esops x) \<Longrightarrow> list_all (cube_ok n) (m_esops x ! i)"
  by (simp add: extr_inv_def list_all_length)

lemma apart_but_one_Nil [simp]: "apart_but_one []"
  by (simp add: apart_but_one_def)

lemma list_all_update: "list_all Q xs \<Longrightarrow> Q y \<Longrightarrow> list_all Q (xs[i := y])"
  by (auto simp: list_all_iff dest: set_update_subset_insert [THEN subsetD])

lemma compute_and_spec:
  assumes inv: "extr_inv n x" and e: "list_all (cube_ok n) (m_esop0 x)" "list_all (cube_ok n) (m_esop1 x)"
    and i: "i < length (m_esops x)" and fresh: "m_esops x ! i = []"
  obtains x' r where "compute_and P n i x = Some x'" and "extr_inv n x'"
    and "m_esops x' = (m_esops x)[i := r]"
    and "\<And>v. esop_eval v r = (esop_eval v (m_esop0 x) \<and> esop_eval v (m_esop1 x))"
    and "m_esop0 x' = m_esop0 x" and "m_esop1 x' = m_esop1 x"
    and "length r \<le> length (m_esop0 x) * length (m_esop1 x)"
proof (cases "m_esop0 x = [] \<or> m_esop1 x = []")
  case True
  have same: "m_esops x = (m_esops x)[i := []]" using fresh by (metis list_update_id)
  show thesis
    by (rule that [of x "[]"]) (use True inv same in \<open>auto simp: compute_and_def\<close>)
next
  case False
  let ?t = "and_rows P n (m_esop0 x) (m_esop1 x) (m_curr_esop x)"
  have "esop_set_ok n (m_curr_esop x)"
    using inv by (simp add: esop_set_ok_def extr_inv_def uset_inv_def)
  then have t: "adds n (length (m_esop0 x) * length (m_esop1 x))
      (\<lambda>v. esop_eval v (m_esop0 x) \<and> esop_eval v (m_esop1 x)) (m_curr_esop x) ?t"
    using and_rows_spec [OF _ e(2,1)] inv by (simp add: extr_inv_def)
  show thesis
  proof (rule that [of "x\<lparr>m_esops := (m_esops x)[i := elems ?t], m_curr_esop := uset_clear ?t\<rparr>" "elems ?t"])
    show "compute_and P n i x =
        Some (x\<lparr>m_esops := (m_esops x)[i := elems ?t], m_curr_esop := uset_clear ?t\<rparr>)"
      using False i fresh by (simp add: compute_and_def vec_simps Let_def)
    show "extr_inv n (x\<lparr>m_esops := (m_esops x)[i := elems ?t], m_curr_esop := uset_clear ?t\<rparr>)"
      using inv t by (auto simp: extr_inv_def adds_def esop_set_ok_def intro!: list_all_update)
    show "esop_eval v (elems ?t) = (esop_eval v (m_esop0 x) \<and> esop_eval v (m_esop1 x))" for v
      using t inv by (simp add: adds_def extr_inv_def)
    show "length (elems ?t) \<le> length (m_esop0 x) * length (m_esop1 x)"
      using t inv by (simp add: adds_def extr_inv_def)
  qed simp_all
qed

section \<open>The whole graph\<close>

text \<open>
  The vector of ESOPs against the graph: a node that has been computed has the function
  of the node, the others are still empty.
\<close>

definition computed :: "aig \<Rightarrow> nat list \<Rightarrow> cube32 list list \<Rightarrow> bool" where
  "computed g known es \<longleftrightarrow> length es = obj_num g \<and>
     (\<forall>i < obj_num g. if i \<in> set known
       then \<forall>v w. aig_model g v w \<longrightarrow> esop_eval v (es ! i) = w i else es ! i = [])"

lemma computed_at:
  "computed g known es \<Longrightarrow> i \<in> set known \<Longrightarrow> i < obj_num g \<Longrightarrow> aig_model g v w \<Longrightarrow> esop_eval v (es ! i) = w i"
  by (auto simp: computed_def)

lemma computed_update:
  assumes "computed g known es" and "i \<notin> set known"
    and "\<And>v w. aig_model g v w \<Longrightarrow> esop_eval v e = w i"
  shows "computed g (i # known) (es[i := e])"
proof -
  have "if j \<in> set (i # known) then \<forall>v w. aig_model g v w \<longrightarrow> esop_eval v (es[i := e] ! j) = w j
      else es[i := e] ! j = []" if j: "j < obj_num g" for j
    by (cases "j = i") (use assms j in \<open>auto simp: computed_def\<close>)
  then show ?thesis using assms(1) by (simp add: computed_def)
qed

lemma lit_at_single: "i < 32 \<Longrightarrow> lit_at (Cube32 (shl1 i) (shl1 i)) k = (if k = i then Pos else Dash)"
  by (auto simp: lit_at_Cube32 bit_simps dest: bit_u32_less)

lemma cube_ok_single: "i < n \<Longrightarrow> n \<le> 32 \<Longrightarrow> cube_ok n (Cube32 (shl1 i) (shl1 i))"
  by (rule cube_okI) (auto simp: canonical_iff lit_at_single split: if_splits)

lemma cube_eval_single: "i < 32 \<Longrightarrow> cube_eval (Cube32 (shl1 i) (shl1 i)) v = v i"
  by (simp add: cube_eval_at [of i] lit_at_single)

lemma load_inputs_spec:
  assumes "ci_ids g = done @ rest" and "distinct (0 # ci_ids g)" and "list_all (\<lambda>i. i < obj_num g) (ci_ids g)"
    and "ci_num g < 32" and "computed g (rev done @ [0]) es" and "list_all (list_all (cube_ok (ci_num g))) es"
    and "list_all apart_but_one es"
  shows "\<exists>es'. load_inputs (length done) rest es = Some es' \<and> computed g (rev (ci_ids g) @ [0]) es' \<and>
    list_all (list_all (cube_ok (ci_num g))) es' \<and> list_all apart_but_one es'"
  using assms(1,5-)
proof (induction rest arbitrary: "done" es)
  case Nil
  then show ?case by simp
next
  case (Cons ci rest)
  let ?i = "length done" and ?c = "Cube32 (shl1 (length done)) (shl1 (length done))"
  have i: "?i < ci_num g" using Cons.prems(1) by (simp add: ci_num_def)
  have ci: "ci_ids g ! ?i = ci" using Cons.prems(1) by simp
  have cin: "ci < obj_num g" "ci \<notin> set (rev done @ [0])"
    using assms(2,3) Cons.prems(1) by auto
  have empty: "es ! ci = []" and len: "length es = obj_num g"
    using Cons.prems(2) cin by (auto simp: computed_def)
  have ev: "esop_eval v [?c] = w ci" if "aig_model g v w" for v w
    using that i ci assms(4) by (auto simp: aig_model_def list_all_length cube_eval_single)
  have cok: "cube_ok (ci_num g) ?c" by (rule cube_ok_single) (use i assms(4) in auto)
  have c1: "computed g (rev (done @ [ci]) @ [0]) (es[ci := [?c]])"
    unfolding rev_append rev.simps append.simps
    by (rule computed_update [OF Cons.prems(2) cin(2)]) (rule ev)
  have "load_inputs ?i (ci # rest) es = load_inputs (length (done @ [ci])) rest (es[ci := [?c]])"
    using cin(1) empty len by (simp add: vec_simps)
  moreover have "\<exists>es'. load_inputs (length (done @ [ci])) rest (es[ci := [?c]]) = Some es' \<and>
      computed g (rev (ci_ids g) @ [0]) es' \<and>
      list_all (list_all (cube_ok (ci_num g))) es' \<and> list_all apart_but_one es'"
    by (rule Cons.IH [OF _ c1])
      (use Cons.prems cok in \<open>auto intro!: list_all_update simp: apart_but_one_def\<close>)
  ultimately show ?case by simp
qed

lemma and_step_spec:
  assumes "i < obj_num g" and "i \<notin> set known" and "fst fi0 \<in> set known" and "fst fi1 \<in> set known"
    and "set known \<subseteq> {..<obj_num g}" and "(i, fi0, fi1) \<in> set (and_nodes g)"
    and "extr_inv n x" and "computed g known (m_esops x)"
  shows "\<exists>x'. and_step P n (i, fi0, fi1) x = Some x' \<and> extr_inv n x' \<and> computed g (i # known) (m_esops x') \<and>
    length (m_esops x' ! i) \<le> length (m_esop0 x') * length (m_esop1 x')"
proof -
  have len: "length (m_esops x) = obj_num g" and empty: "m_esops x ! i = []"
    using assms(1,2,8) by (auto simp: computed_def)
  have fl: "fst fi0 < length (m_esops x)" "fst fi1 < length (m_esops x)"
    using assms(3-5) by (auto simp: len)
  obtain e0 where e0: "prepare_input (fst fi0) (snd fi0) x = Some e0" "list_all (cube_ok n) e0"
      "\<And>v. esop_eval v e0 = (esop_eval v (m_esops x ! fst fi0) \<noteq> snd fi0)"
    using prepare_input_spec [OF fl(1) extr_inv_nth [OF assms(7) fl(1)]] by blast
  let ?x0 = "x\<lparr>m_esop0 := e0\<rparr>"
  obtain e1 where e1: "prepare_input (fst fi1) (snd fi1) ?x0 = Some e1" "list_all (cube_ok n) e1"
      "\<And>v. esop_eval v e1 = (esop_eval v (m_esops x ! fst fi1) \<noteq> snd fi1)"
    using prepare_input_spec [of "fst fi1" ?x0 n] fl(2) extr_inv_nth [OF assms(7) fl(2)] by auto
  let ?x1 = "?x0\<lparr>m_esop1 := e1\<rparr>"
  have inv1: "extr_inv n ?x1" using assms(7) by (simp add: extr_inv_def)
  obtain x' r where x': "compute_and P n i ?x1 = Some x'" "extr_inv n x'"
      "m_esops x' = (m_esops x)[i := r]"
      "\<And>v. esop_eval v r = (esop_eval v e0 \<and> esop_eval v e1)"
      "m_esop0 x' = e0" "m_esop1 x' = e1" "length r \<le> length e0 * length e1"
    using compute_and_spec [OF inv1, of i P] e0(2) e1(2) assms(1) len empty by auto
  have ev: "esop_eval v r = w i" if "aig_model g v w" for v w
  proof -
    have "w i = (fanin_val w fi0 \<and> fanin_val w fi1)"
      using that assms(6) by (auto simp: aig_model_def list_all_iff)
    moreover have "esop_eval v (m_esops x ! fst fi0) = w (fst fi0)"
        "esop_eval v (m_esops x ! fst fi1) = w (fst fi1)"
      using computed_at [OF assms(8) _ _ that] assms(3,4) fl len by auto
    ultimately show ?thesis by (simp add: x'(4) e0(3) e1(3) fanin_val_def)
  qed
  have "computed g (i # known) (m_esops x')"
    unfolding x'(3) by (rule computed_update [OF assms(8,2)]) (rule ev)
  then show ?thesis using e0(1) e1(1) x' assms(1) len by (simp add: and_step_def)
qed

text \<open>
  What is told of nodes: nothing to the console, and to the data logger a line for each, with the
  sizes \<open>rows\<close>.
\<close>

definition row_line :: "nat \<times> nat \<times> nat \<times> nat \<Rightarrow> 'b event" where
  "row_line = (\<lambda>(i, n0, n1, k). Timed_Data (node_line i n0 n1 k))"

definition tells_rows :: "bool \<Rightarrow> (nat \<times> nat \<times> nat \<times> nat) list \<Rightarrow> 'b event list \<Rightarrow> bool" where
  "tells_rows data rows evs \<longleftrightarrow> console_lines evs = [] \<and>
     filter is_data evs = (if data then map row_line rows else [])"

definition product_sizes :: "nat list \<Rightarrow> (nat \<times> nat \<times> nat \<times> nat) list \<Rightarrow> bool" where
  "product_sizes is rows \<longleftrightarrow> map fst rows = is \<and> list_all (\<lambda>(i, n0, n1, k). k \<le> n0 * n1) rows"

lemma node_events_spec:
  assumes "i < length (m_esops x)"
  shows "\<exists>evs :: 'b event list. node_events verbose data i x = Some evs \<and>
    tells_rows data [(i, length (m_esop0 x), length (m_esop1 x), length (m_esops x ! i))] evs"
  using assms by (auto simp: node_events_def vec_simps tells_rows_def row_line_def)

lemma tells_rows_append:
  "tells_rows data rows evs \<Longrightarrow> tells_rows data rows' evs' \<Longrightarrow> tells_rows data (rows @ rows') (evs @ evs')"
  by (simp add: tells_rows_def)

lemma and_loop_spec:
  assumes "ands_ok (obj_num g) known nds" and "set known \<subseteq> {..<obj_num g}"
    and "set nds \<subseteq> set (and_nodes g)" and "extr_inv n x" and "computed g known (m_esops x)"
  shows "\<exists>x' rows. (\<forall>verbose data. \<exists>evs :: 'b event list. and_loop P verbose data n nds x = Some (x', evs) \<and> tells_rows data rows evs) \<and>
    product_sizes (map fst nds) rows \<and> extr_inv n x' \<and> computed g (rev (map fst nds) @ known) (m_esops x')"
  using assms
proof (induction "obj_num g" known nds arbitrary: x rule: ands_ok.induct)
  case (1 known)
  then show ?case by (intro exI [of _ x] exI [of _ "[]"]) (simp add: tells_rows_def product_sizes_def)
next
  case (2 known i fi0 fi1 nds)
  have i: "i < obj_num g" "i \<notin> set known" "fst fi0 \<in> set known" "fst fi1 \<in> set known"
    and rest: "ands_ok (obj_num g) (i # known) nds" and nd: "(i, fi0, fi1) \<in> set (and_nodes g)"
    using "2.prems"(1,3) by simp_all
  obtain x' where x': "and_step P n (i, fi0, fi1) x = Some x'" "extr_inv n x'" "computed g (i # known) (m_esops x')"
      "length (m_esops x' ! i) \<le> length (m_esop0 x') * length (m_esop1 x')"
    using and_step_spec [OF i "2.prems"(2) nd "2.prems"(4,5)] by blast
  let ?row = "(i, length (m_esop0 x'), length (m_esop1 x'), length (m_esops x' ! i))"
  have len: "i < length (m_esops x')" using x'(3) i(1) by (simp add: computed_def)
  have "\<exists>x'' rows. (\<forall>verbose data. \<exists>evs :: 'b event list. and_loop P verbose data n nds x' = Some (x'', evs) \<and> tells_rows data rows evs) \<and>
      product_sizes (map fst nds) rows \<and> extr_inv n x'' \<and> computed g (rev (map fst nds) @ i # known) (m_esops x'')"
    by (rule "2.hyps" [OF rest _ _ x'(2,3)]) (use "2.prems"(2,3) i(1) in auto)
  then obtain x'' rows where x'': "\<forall>verbose data. \<exists>evs :: 'b event list. and_loop P verbose data n nds x' = Some (x'', evs) \<and> tells_rows data rows evs"
      "product_sizes (map fst nds) rows" "extr_inv n x''" "computed g (rev (map fst nds) @ i # known) (m_esops x'')"
    by blast
  have "\<exists>evs :: 'b event list. and_loop P verbose data n ((i, fi0, fi1) # nds) x = Some (x'', evs) \<and> tells_rows data (?row # rows) evs"
    for verbose data
  proof -
    obtain evs evs' :: "'b event list" where e: "node_events verbose data i x' = Some evs" "tells_rows data [?row] evs"
        "and_loop P verbose data n nds x' = Some (x'', evs')" "tells_rows data rows evs'"
      using node_events_spec [where 'b = 'b, OF len] x''(1) by blast
    then show ?thesis using x'(1) tells_rows_append [OF e(2,4)] by (intro exI [of _ "evs @ evs'"]) simp
  qed
  moreover have "product_sizes (map fst ((i, fi0, fi1) # nds)) (?row # rows)"
    using x''(2) x'(4) by (simp add: product_sizes_def)
  ultimately show ?case using x''(3,4) by (intro exI [of _ x''] exI [of _ "?row # rows"]) simp
qed

text \<open>The outputs, whose lines are determined by the sizes of their ESOPs.\<close>

fun output_lines :: "nat \<Rightarrow> cube32 list list \<Rightarrow> 'b event list" where
  "output_lines i [] = []"
| "output_lines i (e # es) = Timed_Data (output_line i (length e)) # output_lines (Suc i) es"

lemma output_lines_data [simp]: "filter is_data (output_lines i es) = output_lines i es"
  by (induction es arbitrary: i) simp_all

lemma output_lines_console [simp]: "console_lines (output_lines i es) = []"
  by (induction es arbitrary: i) simp_all

lemma co_loop_spec:
  assumes "list_all (\<lambda>fi. fst fi < length (m_esops x)) fis" and "list_all (list_all (cube_ok n)) (m_esops x)"
  shows "\<exists>x' es. (\<forall>data. co_loop data i fis x ret = Some (x', ret @ es, if data then output_lines i es else [] :: 'b event list)) \<and>
    list_all (list_all (cube_ok n)) es \<and>
    list_all2 (\<lambda>fi e. \<forall>v. esop_eval v e = (esop_eval v (m_esops x ! fst fi) \<noteq> snd fi)) fis es"
  using assms
proof (induction fis arbitrary: i x ret)
  case (Cons fi fis)
  have fi: "fst fi < length (m_esops x)" using Cons.prems(1) by simp
  then have fi': "list_all (cube_ok n) (m_esops x ! fst fi)"
    using Cons.prems(2) by (simp add: list_all_length)
  obtain e0 where e0: "prepare_input (fst fi) (snd fi) x = Some e0" "list_all (cube_ok n) e0"
      "\<And>v. esop_eval v e0 = (esop_eval v (m_esops x ! fst fi) \<noteq> snd fi)"
    using prepare_input_spec [OF fi fi'] by blast
  obtain x' es where es: "\<forall>data. co_loop data (Suc i) fis (x\<lparr>m_esop0 := e0\<rparr>) (ret @ [e0]) =
        Some (x', (ret @ [e0]) @ es, if data then output_lines (Suc i) es else [] :: 'b event list)"
      "list_all (list_all (cube_ok n)) es"
      "list_all2 (\<lambda>fi e. \<forall>v. esop_eval v e = (esop_eval v (m_esops x ! fst fi) \<noteq> snd fi)) fis es"
    using Cons.IH [of "x\<lparr>m_esop0 := e0\<rparr>" "Suc i" "ret @ [e0]"] Cons.prems by auto
  have "co_loop data i (fi # fis) x ret = Some (x', ret @ e0 # es, if data then output_lines i (e0 # es) else [] :: 'b event list)" for data
    using e0(1) es(1) by simp
  with es e0(2,3) show ?case by (intro exI [of _ x'] exI [of _ "e0 # es"]) simp
qed simp

lemma ands_ok_ids: "ands_ok k known nds \<Longrightarrow> list_all (\<lambda>nd. fst nd < k) nds"
  by (induction k known nds rule: ands_ok.induct) auto

lemma output_esops:
  assumes "computed g known es" and "list_all (\<lambda>fi. fst fi \<in> set known \<and> fst fi < obj_num g) fis"
    and "list_all2 (\<lambda>fi e. \<forall>v. esop_eval v e = (esop_eval v (es ! fst fi) \<noteq> snd fi)) fis es'"
  shows "list_all2 (\<lambda>fi e. \<forall>v w. aig_model g v w \<longrightarrow> esop_eval v e = fanin_val w fi) fis es'"
proof (rule list_all2_all_nthI)
  show "length fis = length es'" using assms(3) by (rule list_all2_lengthD)
  fix k assume k: "k < length fis"
  then have "fst (fis ! k) \<in> set known" "fst (fis ! k) < obj_num g"
    using assms(2) by (auto simp: list_all_length)
  note at = computed_at [OF assms(1) this]
  show "\<forall>v w. aig_model g v w \<longrightarrow> esop_eval v (es' ! k) = fanin_val w (fis ! k)"
    using list_all2_nthD [OF assms(3) k] at by (simp add: fanin_val_def)
qed

text \<open>What a run tells: the sizes of its nodes' and outputs' ESOPs.\<close>

definition aig_log :: "bool \<Rightarrow> bool \<Rightarrow> (nat \<times> nat \<times> nat \<times> nat) list \<Rightarrow> cube32 list list \<Rightarrow> 'b event list \<Rightarrow> bool" where
  "aig_log verbose data rows es evs \<longleftrightarrow>
     console_lines evs = (if verbose then [''[I] Collapsing using AIG''] else []) \<and>
     filter is_data evs =
       (if data then Data ''# [%c] - AIG collapsing'' # map row_line rows @ output_lines 0 es else [])"

lemma aig_run_spec:
  assumes ok: "aig_ok g" and n: "ci_num g < 32"
  shows "\<exists>f rows. (\<forall>verbose data. \<exists>evs :: 'b event list. aig_run P verbose data g aig_extr_init = Some (f, evs) \<and>
      aig_log verbose data rows (cubes f) evs) \<and> product_sizes (map fst (and_nodes g)) rows \<and>
    kind f = ESOP \<and> n_inputs f = ci_num g \<and> two_lvl_ok f \<and>
    list_all2 (\<lambda>fi e. \<forall>v w. aig_model g v w \<longrightarrow> esop_eval v e = fanin_val w fi) (co_nodes g) (cubes f)"
proof -
  let ?n = "ci_num g" and ?es0 = "replicate (obj_num g) [] :: cube32 list list"
  let ?known = "rev (map fst (and_nodes g)) @ 0 # ci_ids g"
  have parts: "distinct (0 # ci_ids g)" "list_all (\<lambda>i. i < obj_num g) (ci_ids g)" "0 < obj_num g"
      "ands_ok (obj_num g) (0 # ci_ids g) (and_nodes g)"
      "list_all (\<lambda>fi. fst fi \<in> set (0 # ci_ids g @ map fst (and_nodes g))) (co_nodes g)"
    using ok by (simp_all add: aig_ok_def)
  have rs: "vec_resize [] (obj_num g) (m_esops aig_extr_init) = ?es0"
    by (simp add: vec_resize_def aig_extr_init_def)
  have "computed g (rev [] @ [0]) ?es0"
    by (auto simp: computed_def aig_model_def)
  then obtain es where es: "load_inputs 0 (ci_ids g) ?es0 = Some es" "computed g (rev (ci_ids g) @ [0]) es"
      "list_all (list_all (cube_ok ?n)) es" "list_all apart_but_one es"
    using load_inputs_spec [of g "[]" "ci_ids g" ?es0] parts n by (auto simp: list_all_length)
  let ?x = "aig_extr_init\<lparr>m_esops := es\<rparr>"
  have c0: "computed g (0 # ci_ids g) (m_esops ?x)" using es(2) by (simp add: computed_def)
  have i0: "extr_inv ?n ?x" using n es(3,4) by (simp add: extr_inv_def aig_extr_init_def)
  obtain x1 rows where x1: "\<forall>verbose data. \<exists>evs :: 'b event list. and_loop P verbose data ?n (and_nodes g) ?x = Some (x1, evs) \<and>
      tells_rows data rows evs" "product_sizes (map fst (and_nodes g)) rows" "extr_inv ?n x1"
      "computed g ?known (m_esops x1)"
    using and_loop_spec [where 'b = 'b and P = P, OF parts(4) _ order_refl i0 c0] parts(2,3) by (auto simp: list_all_iff)
  have ids: "i < obj_num g" if "i \<in> set ?known" for i
    using that parts(2,3) ands_ok_ids [OF parts(4)] by (auto simp: list_all_iff)
  have "list_all (\<lambda>fi. fst fi \<in> set ?known) (co_nodes g)" using parts(5) by (auto simp: list_all_iff)
  then have fis: "list_all (\<lambda>fi. fst fi \<in> set ?known \<and> fst fi < obj_num g) (co_nodes g)"
    using ids by (simp only: list_all_iff) blast
  have "list_all (\<lambda>fi. fst fi < length (m_esops x1)) (co_nodes g)"
    using fis x1(4) by (simp add: computed_def list_all_iff)
  then obtain x2 es' where co: "\<forall>data. co_loop data 0 (co_nodes g) x1 [] = Some (x2, [] @ es', if data then output_lines 0 es' else [] :: 'b event list)"
      "list_all (list_all (cube_ok ?n)) es'"
      "list_all2 (\<lambda>fi e. \<forall>v. esop_eval v e = (esop_eval v (m_esops x1 ! fst fi) \<noteq> snd fi)) (co_nodes g) es'"
    using co_loop_spec [where 'b = 'b, of x1 "co_nodes g" ?n 0 "[]"] x1(3) by (auto simp: extr_inv_def)
  let ?f = "\<lparr>kind = ESOP, n_inputs = ?n, cubes = es'\<rparr>"
  have "\<exists>evs :: 'b event list. aig_run P verbose data g aig_extr_init = Some (?f, evs) \<and> aig_log verbose data rows es' evs" for verbose data
  proof -
    obtain evs :: "'b event list" where "and_loop P verbose data ?n (and_nodes g) ?x = Some (x1, evs)" "tells_rows data rows evs"
      using x1(1) by blast
    then show ?thesis using es(1) co(1) by (simp add: aig_run_def rs aig_log_def tells_rows_def)
  qed
  with x1(2) output_esops [OF x1(4) fis co(3)] co(2) n show ?thesis
    by (intro exI [of _ ?f] exI [of _ rows]) (simp add: two_lvl_ok_def)
qed

end
