(* ===== verification/Cofactor.thy ===== *)
theory Cofactor
  imports Aig
begin

text \<open>
  The cofactors of a graph, which the collapse tool asks ABC for. \<^verbatim>\<open>Gia_ManDupCofactorVar\<close>
  is a parameter, and the locale \<open>aig_cofactoring\<close> is what ABC documents of it: a graph over
  the same inputs and outputs in which an input is replaced by a constant, so that nothing
  refers to it any more. \<open>substitute\<close>, which replaces the input and propagates the constants,
  shows that the contract can be met.
\<close>

section \<open>The function of an output\<close>

definition aig_fun :: "aig \<Rightarrow> nat \<Rightarrow> (nat \<Rightarrow> bool) \<Rightarrow> bool" where
  "aig_fun g k v = fanin_val (aig_val g v) (co_nodes g ! k)"

definition avoids :: "nat \<Rightarrow> nat \<times> fanin \<times> fanin \<Rightarrow> bool" where
  "avoids z nd \<longleftrightarrow> fst (fst (snd nd)) \<noteq> z \<and> fst (snd (snd nd)) \<noteq> z"

text \<open>No node and no output refers to input \<open>j\<close>.\<close>

definition ci_unused :: "nat \<Rightarrow> aig \<Rightarrow> bool" where
  "ci_unused j g \<longleftrightarrow> list_all (avoids (ci_ids g ! j)) (and_nodes g) \<and>
     list_all (\<lambda>fi. fst fi \<noteq> ci_ids g ! j) (co_nodes g)"

section \<open>Cofactors by several inputs\<close>

text \<open>The inner loop of the collapse tool: input \<open>j\<close> is set to bit \<open>j\<close> of \<open>i\<close>.\<close>

fun cofactor_vars :: "(aig \<Rightarrow> nat \<Rightarrow> bool \<Rightarrow> aig) \<Rightarrow> nat \<Rightarrow> nat list \<Rightarrow> aig \<Rightarrow> aig" where
  "cofactor_vars cof i [] g = g"
| "cofactor_vars cof i (j # js) g = cofactor_vars cof i js (cof g j (bit i j))"

definition fix_vars :: "nat \<Rightarrow> nat set \<Rightarrow> (nat \<Rightarrow> bool) \<Rightarrow> nat \<Rightarrow> bool" where
  "fix_vars i js v = (\<lambda>j. if j \<in> js then bit i j else v j)"

lemma fix_vars_update: "j \<in> js \<Longrightarrow> fix_vars i js (v(j := b)) = fix_vars i js v"
  by (auto simp: fix_vars_def fun_eq_iff)

locale aig_cofactoring =
  fixes cof :: "aig \<Rightarrow> nat \<Rightarrow> bool \<Rightarrow> aig"
  assumes cof_shape: "aig_ok g \<Longrightarrow> j < ci_num g \<Longrightarrow>
      aig_ok (cof g j b) \<and> ci_num (cof g j b) = ci_num g \<and> length (co_nodes (cof g j b)) = length (co_nodes g)"
    and cof_fun: "aig_ok g \<Longrightarrow> j < ci_num g \<Longrightarrow> k < length (co_nodes g) \<Longrightarrow>
      aig_fun (cof g j b) k v = aig_fun g k (v(j := b))"
    and cof_unused: "aig_ok g \<Longrightarrow> j < ci_num g \<Longrightarrow> ci_unused j (cof g j b)"
    and cof_unused_other: "aig_ok g \<Longrightarrow> j < ci_num g \<Longrightarrow> i < ci_num g \<Longrightarrow> ci_unused i g \<Longrightarrow> ci_unused i (cof g j b)"
begin

lemma cofactor_vars_spec:
  assumes "aig_ok g" and "list_all (\<lambda>j. j < ci_num g) js" and "distinct js"
    and "\<And>j. j \<in> us \<Longrightarrow> j < ci_num g \<and> ci_unused j g"
  shows "aig_ok (cofactor_vars cof i js g) \<and> ci_num (cofactor_vars cof i js g) = ci_num g \<and>
    length (co_nodes (cofactor_vars cof i js g)) = length (co_nodes g) \<and>
    (\<forall>j \<in> us \<union> set js. ci_unused j (cofactor_vars cof i js g)) \<and>
    (\<forall>k < length (co_nodes g). \<forall>v. aig_fun (cofactor_vars cof i js g) k v = aig_fun g k (fix_vars i (set js) v))"
  using assms
proof (induction js arbitrary: g us)
  case Nil
  then show ?case by (simp add: fix_vars_def)
next
  case (Cons j js)
  let ?h = "cof g j (bit i j)"
  have j: "j < ci_num g" "j \<notin> set js" "distinct js" using Cons.prems(2,3) by auto
  note sh = cof_shape [OF Cons.prems(1) j(1), of "bit i j"]
  have us: "x < ci_num ?h \<and> ci_unused x ?h" if "x \<in> insert j us" for x
    using that Cons.prems(4) [of x] cof_unused [OF Cons.prems(1) j(1)]
      cof_unused_other [OF Cons.prems(1) j(1)] j(1) sh by auto
  have lt: "list_all (\<lambda>j. j < ci_num ?h) js" using Cons.prems(2) sh by auto
  have fx: "(fix_vars i (set js) v)(j := bit i j) = fix_vars i (set (j # js)) v" for v
    using j(2) by (auto simp: fix_vars_def fun_eq_iff)
  from Cons.IH [OF _ lt j(3) us] sh show ?case
    using cof_fun [OF Cons.prems(1) j(1), of _ "bit i j"] fx by auto
qed

end

section \<open>Substituting a constant\<close>

definition sub_fanin :: "(nat \<Rightarrow> fanin) \<Rightarrow> fanin \<Rightarrow> fanin" where
  "sub_fanin m fi = (fst (m (fst fi)), snd (m (fst fi)) \<noteq> snd fi)"

text \<open>The literal a conjunction is equal to, if one of its fanins is a constant.\<close>

definition and_simp :: "fanin \<Rightarrow> fanin \<Rightarrow> fanin option" where
  "and_simp a b = (if a = (0, False) \<or> b = (0, False) then Some (0, False)
     else if a = (0, True) then Some b else if b = (0, True) then Some a else None)"

fun fold_ands :: "(nat \<Rightarrow> fanin) \<Rightarrow> (nat \<times> fanin \<times> fanin) list \<Rightarrow> (nat \<Rightarrow> fanin) \<times> (nat \<times> fanin \<times> fanin) list" where
  "fold_ands m [] = (m, [])"
| "fold_ands m ((i, fi0, fi1) # ns) =
     (case and_simp (sub_fanin m fi0) (sub_fanin m fi1) of
        Some r \<Rightarrow> fold_ands (m(i := r)) ns
      | None \<Rightarrow> let (m', ns') = fold_ands m ns in (m', (i, sub_fanin m fi0, sub_fanin m fi1) # ns'))"

definition substitute :: "aig \<Rightarrow> nat \<Rightarrow> bool \<Rightarrow> aig" where
  "substitute g j b =
     (let (m, ns) = fold_ands ((\<lambda>i. (i, False))(ci_ids g ! j := (0, b))) (and_nodes g)
      in g\<lparr>and_nodes := ns, co_nodes := map (sub_fanin m) (co_nodes g)\<rparr>)"

lemma sub_fanin_val: "fanin_val w (sub_fanin m fi) = (fanin_val w (m (fst fi)) \<noteq> snd fi)"
  by (auto simp: fanin_val_def sub_fanin_def)

lemma fst_sub_fanin [simp]: "fst (sub_fanin m fi) = fst (m (fst fi))"
  by (simp add: sub_fanin_def)

lemma and_simp_cases: "and_simp a b = Some r \<Longrightarrow> r = (0, False) \<or> r = a \<or> r = b"
  by (auto simp: and_simp_def split: if_splits)

lemma and_simp_val: "and_simp a b = Some r \<Longrightarrow> \<not> w 0 \<Longrightarrow> fanin_val w r = (fanin_val w a \<and> fanin_val w b)"
  by (auto simp: and_simp_def fanin_val_def split: if_splits)

text \<open>What the substitution may refer to.\<close>

lemma fold_ands_avoids:
  assumes "fold_ands m ns = (m', ns')" and "list_all (\<lambda>nd. fst (fst (snd nd)) \<in> U \<and> fst (snd (snd nd)) \<in> U) ns"
    and "z \<noteq> 0" and "\<forall>x \<in> U. fst (m x) \<noteq> z"
  shows "(\<forall>x \<in> U. fst (m' x) \<noteq> z) \<and> list_all (avoids z) ns'"
  using assms
proof (induction m ns arbitrary: m' ns' rule: fold_ands.induct)
  case (1 m)
  then show ?case by simp
next
  case (2 m i fi0 fi1 ns)
  let ?a = "sub_fanin m fi0" and ?b = "sub_fanin m fi1"
  have ab: "fst ?a \<noteq> z" "fst ?b \<noteq> z" and rest: "list_all (\<lambda>nd. fst (fst (snd nd)) \<in> U \<and> fst (snd (snd nd)) \<in> U) ns"
    using "2.prems"(2,4) by auto
  show ?case
  proof (cases "and_simp ?a ?b")
    case (Some r)
    have "fst r \<noteq> z" using and_simp_cases [OF Some] ab "2.prems"(3) by auto
    then have "\<forall>x \<in> U. fst ((m(i := r)) x) \<noteq> z" using "2.prems"(4) by simp
    moreover have "fold_ands (m(i := r)) ns = (m', ns')" using "2.prems"(1) Some by simp
    ultimately show ?thesis using "2.IH"(2) [OF Some _ rest "2.prems"(3)] by blast
  next
    case None
    obtain m1 ns1 where r: "fold_ands m ns = (m1, ns1)" by fastforce
    with "2.prems"(1) None have e: "m' = m1" "ns' = (i, ?a, ?b) # ns1" by simp_all
    from "2.IH"(1) [OF None r rest "2.prems"(3,4)] ab show ?thesis by (simp add: e avoids_def)
  qed
qed

text \<open>What the substitution keeps: the order of the nodes, and the values of all objects.\<close>

definition maps_into :: "nat list \<Rightarrow> nat list \<Rightarrow> (nat \<Rightarrow> fanin) \<Rightarrow> bool" where
  "maps_into known known' m \<longleftrightarrow> set known' \<subseteq> set known \<and> 0 \<in> set known' \<and>
     (\<forall>x. if x \<in> set known then fst (m x) \<in> set known' else m x = (x, False))"

lemma maps_into_known: "maps_into known known' m \<Longrightarrow> x \<in> set known \<Longrightarrow> fst (m x) \<in> set known'"
  by (auto simp: maps_into_def)

lemma maps_into_new: "maps_into known known' m \<Longrightarrow> x \<notin> set known \<Longrightarrow> m x = (x, False)"
  by (auto simp: maps_into_def)

lemma maps_into_fresh: "maps_into known known' m \<Longrightarrow> i \<notin> set known \<Longrightarrow> i \<notin> set known' \<and> i \<noteq> 0"
  unfolding maps_into_def by (metis subsetD)

lemma maps_into_fold:
  assumes m: "maps_into known known' m" and fi: "fst fi0 \<in> set known" "fst fi1 \<in> set known"
    and r: "and_simp (sub_fanin m fi0) (sub_fanin m fi1) = Some r"
  shows "maps_into (i # known) known' (m(i := r))"
proof -
  have "fst r \<in> set known'"
    using and_simp_cases [OF r] maps_into_known [OF m] fi m by (auto simp: maps_into_def)
  then show ?thesis using m by (auto simp: maps_into_def)
qed

lemma maps_into_keep: "maps_into known known' m \<Longrightarrow> i \<notin> set known \<Longrightarrow> maps_into (i # known) (i # known') m"
  by (auto simp: maps_into_def split: if_splits)

lemma fold_ands_ok:
  assumes "fold_ands m ns = (m', ns')" and "ands_ok n known ns" and "maps_into known known' m"
  shows "ands_ok n known' ns' \<and> (\<forall>x \<in> set known \<union> fst ` set ns. fst (m' x) \<in> set known' \<union> fst ` set ns')"
  using assms
proof (induction m ns arbitrary: known known' m' ns' rule: fold_ands.induct)
  case (1 m)
  then show ?case by (auto simp: maps_into_known)
next
  case (2 m i fi0 fi1 ns)
  let ?a = "sub_fanin m fi0" and ?b = "sub_fanin m fi1"
  have i: "i < n" "i \<notin> set known" "fst fi0 \<in> set known" "fst fi1 \<in> set known" "ands_ok n (i # known) ns"
    using "2.prems"(2) by auto
  show ?case
  proof (cases "and_simp ?a ?b")
    case (Some r)
    then have "fold_ands (m(i := r)) ns = (m', ns')" using "2.prems"(1) by simp
    from "2.IH"(2) [OF Some this i(5) maps_into_fold [OF "2.prems"(3) i(3,4) Some]]
    show ?thesis by simp
  next
    case None
    obtain m1 ns1 where r: "fold_ands m ns = (m1, ns1)" by fastforce
    with "2.prems"(1) None have e: "m' = m1" "ns' = (i, ?a, ?b) # ns1" by simp_all
    from "2.IH"(1) [OF None r i(5) maps_into_keep [OF "2.prems"(3) i(2)]] show ?thesis
      using i(1) maps_into_fresh [OF "2.prems"(3) i(2)] maps_into_known [OF "2.prems"(3)] i(3,4) by (simp add: e)
  qed
qed

text \<open>Values: the states of the old and of the new objects agree through the substitution.\<close>

definition same_vals :: "nat list \<Rightarrow> (nat \<Rightarrow> fanin) \<Rightarrow> (nat \<Rightarrow> bool) \<Rightarrow> (nat \<Rightarrow> bool) \<Rightarrow> bool" where
  "same_vals known m w w' \<longleftrightarrow> \<not> w' 0 \<and> (\<forall>x \<in> set known. fanin_val w' (m x) = w x)"

lemma same_vals_fanin: "same_vals known m w w' \<Longrightarrow> fst fi \<in> set known \<Longrightarrow> fanin_val w' (sub_fanin m fi) = fanin_val w fi"
  by (simp add: same_vals_def sub_fanin_val) (simp add: fanin_val_def)

lemma same_vals_fold:
  assumes s: "same_vals known m w w'" and fi: "fst fi0 \<in> set known" "fst fi1 \<in> set known"
    and r: "and_simp (sub_fanin m fi0) (sub_fanin m fi1) = Some r"
  shows "same_vals (i # known) (m(i := r)) (w(i := fanin_val w fi0 \<and> fanin_val w fi1)) w'"
  using s same_vals_fanin [OF s] fi and_simp_val [OF r, of w'] by (auto simp: same_vals_def)

lemma same_vals_keep:
  assumes s: "same_vals known m w w'" and m: "maps_into known known' m" and i: "i \<notin> set known"
  shows "same_vals (i # known) m (w(i := q)) (w'(i := q))"
proof -
  note i' = maps_into_fresh [OF m i]
  have "fanin_val (w'(i := q)) (m x) = w x" if "x \<in> set known" for x
    using that s i' maps_into_known [OF m that] by (auto simp: same_vals_def fanin_val_def)
  moreover have "x \<noteq> i" if "x \<in> set known" for x using that i by blast
  ultimately show ?thesis
    using s i' maps_into_new [OF m i] by (simp add: same_vals_def) (simp add: fanin_val_def)
qed

lemma fold_ands_vals:
  assumes "fold_ands m ns = (m', ns')" and "ands_ok n known ns" and "maps_into known known' m"
    and "same_vals known m w w'" and "x \<in> set known \<union> fst ` set ns"
  shows "fanin_val (and_vals ns' w') (m' x) = and_vals ns w x"
  using assms
proof (induction m ns arbitrary: known known' m' ns' w w' rule: fold_ands.induct)
  case (1 m)
  then show ?case by (simp add: same_vals_def)
next
  case (2 m i fi0 fi1 ns)
  let ?a = "sub_fanin m fi0" and ?b = "sub_fanin m fi1"
  have i: "i \<notin> set known" "fst fi0 \<in> set known" "fst fi1 \<in> set known" "ands_ok n (i # known) ns"
    and x: "x \<in> set (i # known) \<union> fst ` set ns"
    using "2.prems"(2,5) by auto
  show ?case
  proof (cases "and_simp ?a ?b")
    case (Some r)
    then have "fold_ands (m(i := r)) ns = (m', ns')" using "2.prems"(1) by simp
    from "2.IH"(2) [OF Some this i(4) maps_into_fold [OF "2.prems"(3) i(2,3) Some]
        same_vals_fold [OF "2.prems"(4) i(2,3) Some] x]
    show ?thesis unfolding and_vals.simps .
  next
    case None
    obtain m1 ns1 where r: "fold_ands m ns = (m1, ns1)" by fastforce
    with "2.prems"(1) None have e: "m' = m1" "ns' = (i, ?a, ?b) # ns1" by simp_all
    have eq: "fanin_val w' ?a = fanin_val w fi0" "fanin_val w' ?b = fanin_val w fi1"
      using same_vals_fanin [OF "2.prems"(4)] i(2,3) by blast+
    show ?thesis unfolding e and_vals.simps eq
      by (rule "2.IH"(1) [OF None r i(4) maps_into_keep [OF "2.prems"(3) i(1)]
        same_vals_keep [OF "2.prems"(4,3) i(1)] x])
  qed
qed

lemma input_same_vals:
  assumes "distinct (ci_ids g)" and "0 \<notin> set (ci_ids g)" and "j < ci_num g"
  shows "same_vals (0 # ci_ids g) ((\<lambda>i. (i, False))(ci_ids g ! j := (0, b)))
    (ci_vals (v(j := b)) 0 (ci_ids g)) (ci_vals v 0 (ci_ids g))"
proof -
  let ?m0 = "(\<lambda>i. (i, False))(ci_ids g ! j := (0, b))"
  let ?w = "ci_vals (v(j := b)) 0 (ci_ids g)" and ?w' = "ci_vals v 0 (ci_ids g)"
  have cj: "ci_ids g ! j \<in> set (ci_ids g)" using assms(3) by (simp add: ci_num_def)
  have w0: "\<not> ?w' 0" "\<not> ?w 0" using ci_vals_other assms(2) by blast+
  have "fanin_val ?w' (?m0 x) = ?w x" if "x \<in> set (ci_ids g)" for x
  proof -
    obtain i where i: "i < length (ci_ids g)" "x = ci_ids g ! i" using \<open>x \<in> set (ci_ids g)\<close> by (auto simp: in_set_conv_nth)
    then have "x = ci_ids g ! j \<longleftrightarrow> i = j" using assms(1,3) by (simp add: ci_num_def nth_eq_iff_index_eq)
    then show ?thesis using i w0(1) assms(1) by (cases "i = j") (simp_all add: fanin_val_def ci_vals_nth)
  qed
  moreover have "fanin_val ?w' (?m0 0) = ?w 0"
  proof -
    have "0 \<noteq> ci_ids g ! j" using assms(2) cj by fastforce
    then show ?thesis by (simp add: fanin_val_def w0 del: ci_vals.simps)
  qed
  ultimately have "fanin_val ?w' (?m0 x) = ?w x" if "x \<in> set (0 # ci_ids g)" for x
    using that by (metis set_ConsD)
  with w0(1) show ?thesis unfolding same_vals_def by blast
qed

lemma substitute_spec:
  assumes ok: "aig_ok g" and j: "j < ci_num g"
  shows "aig_ok (substitute g j b) \<and> ci_num (substitute g j b) = ci_num g \<and>
    length (co_nodes (substitute g j b)) = length (co_nodes g) \<and>
    (\<forall>k < length (co_nodes g). aig_fun (substitute g j b) k v = aig_fun g k (v(j := b)))"
proof -
  let ?m0 = "(\<lambda>i. (i, False))(ci_ids g ! j := (0, b))" and ?known = "0 # ci_ids g"
  let ?w = "ci_vals (v(j := b)) 0 (ci_ids g)" and ?w' = "ci_vals v 0 (ci_ids g)"
  obtain m ns where r: "fold_ands ?m0 (and_nodes g) = (m, ns)" by fastforce
  have g': "substitute g j b = g\<lparr>and_nodes := ns, co_nodes := map (sub_fanin m) (co_nodes g)\<rparr>"
    by (simp add: substitute_def r)
  have parts: "0 < obj_num g" "distinct (ci_ids g)" "0 \<notin> set (ci_ids g)" "list_all (\<lambda>i. i < obj_num g) (ci_ids g)"
      "ands_ok (obj_num g) ?known (and_nodes g)"
      "list_all (\<lambda>fi. fst fi \<in> set ?known \<union> fst ` set (and_nodes g)) (co_nodes g)"
    using ok by (simp_all add: aig_ok_def list_all_iff)
  have m0: "maps_into ?known ?known ?m0" using j by (auto simp: maps_into_def ci_num_def)
  note spec = fold_ands_ok [OF r parts(5) m0]
  note vals = fold_ands_vals [OF r parts(5) m0 input_same_vals [OF parts(2,3) j]]
  have "aig_fun (substitute g j b) k v = aig_fun g k (v(j := b))" if "k < length (co_nodes g)" for k
  proof -
    have "fst (co_nodes g ! k) \<in> set ?known \<union> fst ` set (and_nodes g)"
      using parts(6) that by (simp add: list_all_length)
    from vals [OF this] that show ?thesis
      by (simp add: aig_fun_def g' aig_val_def sub_fanin_val) (simp add: fanin_val_def)
  qed
  moreover have "fst (m (fst fi)) \<in> set ?known \<union> fst ` set ns" if "fi \<in> set (co_nodes g)" for fi
    using parts(6) that spec [THEN conjunct2] by (auto simp only: list_all_iff)
  then have "aig_ok (substitute g j b)"
    using parts spec [THEN conjunct1] by (simp add: aig_ok_def g' list_all_iff)
  ultimately show ?thesis by (simp add: g' ci_num_def)
qed

lemma substitute_unused:
  assumes ok: "aig_ok g" and j: "j < ci_num g" and i: "i < ci_num g" and u: "i = j \<or> ci_unused i g"
  shows "ci_unused i (substitute g j b)"
proof -
  let ?m0 = "(\<lambda>i. (i, False))(ci_ids g ! j := (0, b))" and ?z = "ci_ids g ! i"
  obtain m ns where r: "fold_ands ?m0 (and_nodes g) = (m, ns)" by fastforce
  define U where "U = (if i = j then UNIV else - {?z})"
  have "?z \<in> set (ci_ids g)" using i by (simp add: ci_num_def)
  then have z: "?z \<noteq> 0" using ok by (metis aig_ok_def distinct.simps(2))
  have "list_all (\<lambda>nd. fst (fst (snd nd)) \<in> U \<and> fst (snd (snd nd)) \<in> U) (and_nodes g)"
    and co: "list_all (\<lambda>fi. fst fi \<in> U) (co_nodes g)"
    using u by (auto simp: U_def ci_unused_def avoids_def list_all_iff)
  moreover have "\<forall>x \<in> U. fst (?m0 x) \<noteq> ?z" using z by (auto simp: U_def)
  ultimately have "\<forall>x \<in> U. fst (m x) \<noteq> ?z" "list_all (avoids ?z) ns"
    using fold_ands_avoids [OF r _ z] by blast+
  with co show ?thesis by (auto simp: ci_unused_def substitute_def r list_all_iff)
qed

interpretation sb: aig_cofactoring substitute
  by unfold_locales (use substitute_spec substitute_unused in \<open>simp; fail\<close>)+

end
