(* ===== verification/Aig_Support.thy ===== *)
theory Aig_Support
  imports Aig_Collapse Cofactor
begin

text \<open>
  Which variables the ESOPs of a graph mention: an input that no node and no output refers
  to does not occur in any cube \<^verbatim>\<open>aig_extract\<close> returns. The collapse tool relies on this
  when it adds the literals of the cofactored variables to the cubes.
\<close>

definition no_lit :: "nat \<Rightarrow> cube32 \<Rightarrow> bool" where
  "no_lit j c \<longleftrightarrow> \<not> bit (lit_mask c) j"

lemma no_lit_lit_at: "no_lit j c \<longleftrightarrow> lit_at c j = Dash"
  by (simp add: no_lit_def lit_at_def)

lemma no_lit_one [simp]: "no_lit j cube32_one"
  by (simp add: no_lit_def cube32_one_def)

lemma no_lit_merge: "no_lit j c \<Longrightarrow> no_lit j d \<Longrightarrow> no_lit j (merge c d)"
  by (simp add: no_lit_def merge_def Let_def bit_simps)

lemma no_lit_invert [simp]: "no_lit j (invert c) = no_lit j c"
  by (simp add: no_lit_def invert_def)

lemma no_lit_and: "no_lit j c \<Longrightarrow> no_lit j d \<Longrightarrow> cube_and c d \<noteq> cube32_zero \<Longrightarrow> no_lit j (cube_and c d)"
  by (auto simp: no_lit_def cube_and_def Let_def cube32_zero_def lit_mask_of_value bit_simps)

lemma set_uset_insert [simp]: "set (elems (uset_insert P x s)) = insert x (set (elems s))"
  by (auto simp: uset_insert_def uset_find_def Let_def set_insort_key)

lemma set_uset_erase: "set (elems (uset_erase x s)) \<subseteq> set (elems s)"
  by (simp add: uset_erase_def set_remove1_subset)

section \<open>The operations of the collapse\<close>

definition set_free :: "nat \<Rightarrow> cube32 uset \<Rightarrow> bool" where
  "set_free j s \<longleftrightarrow> list_all (no_lit j) (elems s)"

lemma set_free_insert: "set_free j s \<Longrightarrow> no_lit j c \<Longrightarrow> set_free j (uset_insert P c s)"
  by (simp add: set_free_def list_all_iff)

lemma set_free_erase: "set_free j s \<Longrightarrow> set_free j (uset_erase c s)"
  using set_uset_erase [of c s] by (auto simp: set_free_def list_all_iff)

lemma set_free_find: "set_free j s \<Longrightarrow> uset_find c s \<Longrightarrow> no_lit j c"
  by (simp add: set_free_def list_all_iff uset_find_def)

lemmas set_free_intros = set_free_insert set_free_erase no_lit_merge no_lit_and

lemma set_free_add: "set_free j s \<Longrightarrow> no_lit j c \<Longrightarrow> set_free j (aig_add_cube P n c s)"
proof (induction P n c s rule: aig_add_cube.induct)
  case (1 P n c s)
  show ?case
  proof (cases "uset_find c s \<or> cube_eq c cube32_one \<or> find_neighbour [0..<n] c s = None")
    case True
    then show ?thesis using "1.prems" by (subst aig_add_cube.simps) (auto intro: set_free_intros)
  next
    case False
    then obtain d where d: "find_neighbour [0..<n] c s = Some d" by blast
    have "no_lit j d" using find_neighbour_found [OF d] set_free_find "1.prems"(1) by blast
    then show ?thesis using False d "1.IH" [OF _ _ d] "1.prems"
      by (subst aig_add_cube.simps) (auto intro: set_free_intros)
  qed
qed

lemma set_free_fold: "set_free j s \<Longrightarrow> list_all (no_lit j) cs \<Longrightarrow> set_free j (fold (aig_add_cube P n) cs s)"
  by (induction cs arbitrary: s) (auto intro: set_free_add)

lemma set_free_row: "set_free j s \<Longrightarrow> no_lit j c \<Longrightarrow> list_all (no_lit j) cs \<Longrightarrow> set_free j (and_row P n c cs s)"
  by (induction P n c cs s rule: and_row.induct) (auto simp: Let_def cube_eq_iff intro: set_free_add no_lit_and)

lemma set_free_rows:
  "set_free j s \<Longrightarrow> list_all (no_lit j) cs \<Longrightarrow> list_all (no_lit j) es \<Longrightarrow> set_free j (and_rows P n cs es s)"
  by (induction P n cs es s rule: and_rows.induct) (auto intro: set_free_fold set_free_row)

text \<open>All ESOPs but that of object \<open>z\<close> are free of variable \<open>j\<close>.\<close>

definition esops_free :: "nat \<Rightarrow> nat \<Rightarrow> cube32 list list \<Rightarrow> bool" where
  "esops_free j z es \<longleftrightarrow> (\<forall>i < length es. i \<noteq> z \<longrightarrow> list_all (no_lit j) (es ! i))"

definition extr_free :: "nat \<Rightarrow> nat \<Rightarrow> aig_extr \<Rightarrow> bool" where
  "extr_free j z x \<longleftrightarrow> esops_free j z (m_esops x) \<and> set_free j (m_curr_esop x)"

lemma prepare_input_free:
  "prepare_input i c x = Some e \<Longrightarrow> esops_free j z (m_esops x) \<Longrightarrow> i \<noteq> z \<Longrightarrow> list_all (no_lit j) e"
  by (auto simp: prepare_input_def bind_eq_Some_conv vec_at_iff esops_free_def split: if_splits list.splits)

lemma esops_free_append:
  assumes "esops_free j z es" and "list_all (no_lit j) e"
  shows "esops_free j z (es[i := es ! i @ e])"
  unfolding esops_free_def
proof (intro allI impI)
  fix k assume k: "k < length (es[i := es ! i @ e])" "k \<noteq> z"
  then have "list_all (no_lit j) (es ! k)" using assms(1) by (simp add: esops_free_def)
  with k(1) assms(2) show "list_all (no_lit j) (es[i := es ! i @ e] ! k)"
    by (cases "k = i") simp_all
qed

lemma and_step_free:
  assumes "and_step P n nd x = Some x'" and "extr_free j z x" and "avoids z nd"
  shows "extr_free j z x'"
proof -
  obtain i fi0 fi1 where nd: "nd = (i, fi0, fi1)" by (cases nd)
  obtain e0 e1 where e: "prepare_input (fst fi0) (snd fi0) x = Some e0"
      "prepare_input (fst fi1) (snd fi1) (x\<lparr>m_esop0 := e0\<rparr>) = Some e1"
      "compute_and P n i (x\<lparr>m_esop0 := e0, m_esop1 := e1\<rparr>) = Some x'"
    using assms(1) by (auto simp: and_step_def nd bind_eq_Some_conv Let_def)
  have free: "esops_free j z (m_esops x)" "set_free j (m_curr_esop x)"
    using assms(2) by (simp_all add: extr_free_def)
  have "list_all (no_lit j) e0" "list_all (no_lit j) e1"
    using prepare_input_free [OF e(1) free(1)] prepare_input_free [OF e(2), of j z] free(1) assms(3)
    by (simp_all add: avoids_def nd)
  from set_free_rows [OF free(2) this, of P n]
  have "list_all (no_lit j) (elems (and_rows P n e0 e1 (m_curr_esop x)))" by (simp add: set_free_def)
  from esops_free_append [OF free(1) this, of i] e(3) free show ?thesis
    by (auto simp: compute_and_def Let_def bind_eq_Some_conv vec_modify_iff extr_free_def set_free_def
        uset_clear_def split: if_splits)
qed

lemma and_loop_free:
  "and_loop P verbose data n nds x = Some (x', evs) \<Longrightarrow> extr_free j z x \<Longrightarrow> list_all (avoids z) nds \<Longrightarrow>
   extr_free j z x'"
  by (induction nds arbitrary: x evs) (auto simp: bind_eq_Some_conv intro: and_step_free)

lemma co_loop_free:
  "co_loop data i fis x ret = Some (x', es, evs) \<Longrightarrow> esops_free j z (m_esops x) \<Longrightarrow>
   list_all (\<lambda>fi. fst fi \<noteq> z) fis \<Longrightarrow> list_all (list_all (no_lit j)) ret \<Longrightarrow> list_all (list_all (no_lit j)) es"
proof (induction fis arbitrary: i x ret evs)
  case (Cons fi fis)
  then show ?case using prepare_input_free [of "fst fi" "snd fi" x _ j z]
    by (fastforce simp: bind_eq_Some_conv)
qed simp

lemma load_inputs_free:
  assumes "load_inputs i cis es = Some es'" and "esops_free j z es"
    and "\<And>k. k < length cis \<Longrightarrow> i + k = j \<Longrightarrow> cis ! k = z"
  shows "esops_free j z es'"
  using assms
proof (induction cis arbitrary: i es)
  case (Cons ci cis)
  let ?c = "Cube32 (shl1 i) (shl1 i)"
  obtain m: "ci < length es" "load_inputs (Suc i) cis (es[ci := es ! ci @ [?c]]) = Some es'"
    using Cons.prems(1) by (auto simp: bind_eq_Some_conv vec_modify_iff)
  have "esops_free j z (es[ci := es ! ci @ [?c]])"
  proof (cases "i = j")
    case True
    then have "ci = z" using Cons.prems(3) [of 0] by simp
    then show ?thesis using Cons.prems(2) by (simp add: esops_free_def)
  next
    case False
    then have "no_lit j ?c" by (simp add: no_lit_def)
    then show ?thesis using esops_free_append [OF Cons.prems(2)] by simp
  qed
  from Cons.IH [OF m(2) this] Cons.prems(3) [of "Suc _"] show ?case by simp
qed simp

lemma aig_run_free:
  assumes "aig_run P verbose data g aig_extr_init = Some (f, evs :: 'b event list)" and "j < ci_num g" and "ci_unused j g"
  shows "list_all (list_all (no_lit j)) (cubes f)"
proof -
  let ?z = "ci_ids g ! j"
  obtain es x1 x2 ret and evs1 evs2 :: "'b event list" where r: "load_inputs 0 (ci_ids g) (replicate (obj_num g) []) = Some es"
      "and_loop P verbose data (ci_num g) (and_nodes g) (aig_extr_init\<lparr>m_esops := es\<rparr>) = Some (x1, evs1)"
      "co_loop data 0 (co_nodes g) x1 [] = Some (x2, ret, evs2)" "f = \<lparr>kind = ESOP, n_inputs = ci_num g, cubes = ret\<rparr>"
    using assms(1) by (auto simp: aig_run_def bind_eq_Some_conv aig_extr_init_def vec_resize_def)
  have "esops_free j ?z (replicate (obj_num g) [])" by (simp add: esops_free_def)
  from load_inputs_free [OF r(1) this] have "esops_free j ?z es" by simp
  then have "extr_free j ?z (aig_extr_init\<lparr>m_esops := es\<rparr>)"
    by (simp add: extr_free_def aig_extr_init_def set_free_def uset_empty_def)
  from and_loop_free [OF r(2) this] co_loop_free [OF r(3), of j ?z] assms(3) show ?thesis
    by (simp add: r(4) ci_unused_def extr_free_def)
qed

end
