(* ===== verification/Psdkro.thy ===== *)
theory Psdkro
  imports Aig_Collapse
begin

text \<open>
  \<^verbatim>\<open>source/bdd/collapse.hpp\<close> and \<^verbatim>\<open>collapse.cpp\<close>: the BDD of an output is turned into a
  pseudo-Kronecker expression. \<^verbatim>\<open>count_cubes\<close> finds, for each node, which of the three
  expansions at the node's variable needs the fewest cubes; \<^verbatim>\<open>generate_exact\<close> then walks
  down and inserts one cube per path that ends in the constant one.

  The BDDs belong to CUDD, which is not part of the repository: the record \<open>cudd\<close> holds the
  functions of it that the code calls, and the locale \<open>bdd_package\<close> what CUDD documents of
  them. Nodes are values here; the calls of \<^verbatim>\<open>Cudd_Ref\<close> and \<^verbatim>\<open>Cudd_RecursiveDeref\<close> are
  modelled in \<open>Bdd_Refs\<close>. \<open>None\<close> is an access out of range, a failed \<^verbatim>\<open>assert\<close> or a recursion that does
  not end.
\<close>

record 'd cudd =
  dd_size :: nat
  dd_zero :: 'd
  dd_one :: 'd
  dd_index :: "'d \<Rightarrow> nat"
  dd_E :: "'d \<Rightarrow> 'd"
  dd_T :: "'d \<Rightarrow> 'd"
  dd_is_complement :: "'d \<Rightarrow> bool"
  dd_not_cond :: "'d \<Rightarrow> bool \<Rightarrow> 'd"
  dd_xor :: "'d \<Rightarrow> 'd \<Rightarrow> 'd"

datatype var_value = POSITIVE | NEGATIVE | UNUSED

datatype exp_type = POSITIVE_DAVIO | NEGATIVE_DAVIO | SHANNON

type_synonym 'd costs = "'d \<rightharpoonup> exp_type \<times> u32"

record 'd psdkro =
  m_vars :: "nat list"
  m_var_values :: "var_value list"
  m_exp_costs :: "'d costs"
  m_esop :: "cube32 uset"

section \<open>The operations\<close>

definition psdkro_init :: "nat \<Rightarrow> 'd psdkro" where
  "psdkro_init sz =
     \<lparr>m_vars = [], m_var_values = replicate sz UNUSED, m_exp_costs = Map.empty, m_esop = uset_empty\<rparr>"

text \<open>
  The cofactors of a node by its variable and their difference.
\<close>

definition cofactor0 :: "'d cudd \<Rightarrow> 'd \<Rightarrow> 'd" where
  "cofactor0 D f = dd_not_cond D (dd_E D f) (dd_is_complement D f)"

definition cofactor1 :: "'d cudd \<Rightarrow> 'd \<Rightarrow> 'd" where
  "cofactor1 D f = dd_not_cond D (dd_T D f) (dd_is_complement D f)"

definition cofactor2 :: "'d cudd \<Rightarrow> 'd \<Rightarrow> 'd" where
  "cofactor2 D f = dd_xor D (cofactor0 D f) (cofactor1 D f)"

text \<open>The least costly expansion: the most costly of the three subproblems is left out.\<close>

definition choose_expansion :: "u32 \<Rightarrow> u32 \<Rightarrow> u32 \<Rightarrow> exp_type \<times> u32" where
  "choose_expansion n0 n1 n2 =
     (let n_max = max (max n0 n1) n2
      in if n_max = n0 then (NEGATIVE_DAVIO, n1 + n2)
         else if n_max = n1 then (POSITIVE_DAVIO, n0 + n2)
         else (SHANNON, n0 + n1))"

partial_function (option) count_cubes :: "'d cudd \<Rightarrow> 'd \<Rightarrow> 'd costs \<Rightarrow> ((exp_type \<times> u32) \<times> 'd costs) option" where
  "count_cubes D f costs =
     (if f = dd_zero D then Some ((POSITIVE_DAVIO, 0), costs)
      else if f = dd_one D then Some ((POSITIVE_DAVIO, 1), costs)
      else (case costs f of
              Some e \<Rightarrow> Some (e, costs)
            | None \<Rightarrow>
                do { (e0, costs0) \<leftarrow> count_cubes D (cofactor0 D f) costs;
                     (e1, costs1) \<leftarrow> count_cubes D (cofactor1 D f) costs0;
                     (e2, costs2) \<leftarrow> count_cubes D (cofactor2 D f) costs1;
                     let ret = choose_expansion (snd e0) (snd e1) (snd e2);
                     Some (ret, costs2(f \<mapsto> ret)) }))"

declare count_cubes.simps [code]

text \<open>The cube of the current path: \<open>None\<close> if a variable is not below 32.\<close>

fun path_cube :: "var_value list \<Rightarrow> nat list \<Rightarrow> cube32 \<Rightarrow> cube32 option" where
  "path_cube values [] cube = Some cube"
| "path_cube values (var # vars) cube =
     do { x \<leftarrow> vec_at values var;
          if var < 32
          then path_cube values vars
                 (Cube32 (lit_mask cube OR (if x \<noteq> UNUSED then shl1 var else 0))
                         (polarity cube OR (if x = POSITIVE then shl1 var else 0)))
          else None }"

definition set_value :: "nat \<Rightarrow> var_value \<Rightarrow> 'd psdkro \<Rightarrow> 'd psdkro option" where
  "set_value idx x s = do { xs \<leftarrow> vec_modify idx (\<lambda>_. x) (m_var_values s); Some (s\<lparr>m_var_values := xs\<rparr>) }"

partial_function (option) generate_exact :: "cube32 policy \<Rightarrow> 'd cudd \<Rightarrow> 'd \<Rightarrow> 'd psdkro \<Rightarrow> 'd psdkro option" where
  "generate_exact P D f s =
     (if f = dd_zero D then Some s
      else if f = dd_one D then
        do { cube \<leftarrow> path_cube (m_var_values s) (m_vars s) (cube_of_value 0);
             Some (s\<lparr>m_esop := uset_insert P cube (m_esop s)\<rparr>) }
      else
        do { e \<leftarrow> m_exp_costs s f;
             let idx = dd_index D f;
             let s0 = s\<lparr>m_vars := m_vars s @ [idx]\<rparr>;
             let f0 = cofactor0 D f;
             let f1 = cofactor1 D f;
             let f2 = cofactor2 D f;
             let (x, g, y, h) = (case fst e of
                 POSITIVE_DAVIO \<Rightarrow> (UNUSED, f0, POSITIVE, f2)
               | NEGATIVE_DAVIO \<Rightarrow> (UNUSED, f1, NEGATIVE, f2)
               | SHANNON \<Rightarrow> (NEGATIVE, f0, POSITIVE, f1));
             s1 \<leftarrow> set_value idx x s0;
             s2 \<leftarrow> generate_exact P D g s1;
             s3 \<leftarrow> set_value idx y s2;
             s4 \<leftarrow> generate_exact P D h s3;
             set_value idx UNUSED (s4\<lparr>m_vars := butlast (m_vars s4)\<rparr>) })"

declare generate_exact.simps [code]

text \<open>\<open>None\<close> as the node is the null pointer.\<close>

definition extract_esop :: "cube32 policy \<Rightarrow> 'd cudd \<Rightarrow> 'd option \<Rightarrow> 'd psdkro
    \<Rightarrow> ('d psdkro \<times> cube32 list) option" where
  "extract_esop P D fo s =
     (case fo of
        None \<Rightarrow> Some (s, [])
      | Some f \<Rightarrow>
          do { let s0 = s\<lparr>m_exp_costs := Map.empty, m_esop := uset_clear (m_esop s),
                          m_var_values := map (\<lambda>_. UNUSED) (m_var_values s)\<rparr>;
               (_, costs) \<leftarrow> count_cubes D f (m_exp_costs s0);
               s1 \<leftarrow> generate_exact P D f (s0\<lparr>m_exp_costs := costs\<rparr>);
               Some (s1, elems (m_esop s1)) })"

fun extract_all :: "cube32 policy \<Rightarrow> 'd cudd \<Rightarrow> 'd option list \<Rightarrow> 'd psdkro \<Rightarrow> cube32 list list
    \<Rightarrow> cube32 list list option" where
  "extract_all P D [] s fncts = Some fncts"
| "extract_all P D (i # is) s fncts =
     do { (s', esop) \<leftarrow> extract_esop P D i s; extract_all P D is s' (fncts @ [esop]) }"

text \<open>\<^verbatim>\<open>bdd_extract\<close>, with what it prints: more than 32 variables end the program.\<close>

definition bdd_extract :: "cube32 policy \<Rightarrow> 'd cudd \<Rightarrow> 'd option list
    \<Rightarrow> ('b event list \<times> (extract_exit + two_lvl32)) option" where
  "bdd_extract P D outputs =
     (if dd_size D > 32
      then Some ([Print (''Cannot handle more than 32 input variables'' @ [newline])], Inl Too_Many_Inputs)
      else do { fncts \<leftarrow> extract_all P D outputs (psdkro_init (dd_size D)) [];
                Some ([Print (''[i] Collapsing using BDD'' @ [newline]), Elapsed],
                      Inr \<lparr>kind = ESOP, n_inputs = dd_size D, cubes = fncts\<rparr>) })"

text \<open>
  \<^verbatim>\<open>psdkro::add_cube\<close>, which \<^verbatim>\<open>generate_exact\<close> no longer calls. It differs from that of
  the AIG method in that it compares the element a found iterator points to once more.
\<close>

definition uset_lookup :: "'a \<Rightarrow> 'a uset \<Rightarrow> 'a option" where
  "uset_lookup x s = List.find (\<lambda>y. y = x) (elems s)"

fun psdkro_neighbour :: "nat list \<Rightarrow> cube32 \<Rightarrow> cube32 uset \<Rightarrow> cube32 option" where
  "psdkro_neighbour [] c1 s = None"
| "psdkro_neighbour (i # is) c1 s =
     (let c2 = cube_rotate i c1;
          second = (let c3 = cube_rotate i c2
                    in case uset_lookup c3 s of
                         Some c_tmp \<Rightarrow> if cube_eq c_tmp c3 then Some c_tmp else psdkro_neighbour is c1 s
                       | None \<Rightarrow> psdkro_neighbour is c1 s)
      in case uset_lookup c2 s of
           Some c_tmp \<Rightarrow> if cube_eq c_tmp c2 then Some c_tmp else second
         | None \<Rightarrow> second)"

lemma uset_lookup_eq: "uset_lookup x s = (if uset_find x s then Some x else None)"
proof -
  have "List.find (\<lambda>y. y = x) xs = (if x \<in> set xs then Some x else None)" for xs
    by (induction xs) auto
  then show ?thesis by (simp add: uset_lookup_def uset_find_iff)
qed

lemma psdkro_neighbour_found:
  "psdkro_neighbour is c s = Some d \<Longrightarrow>
   uset_find d s \<and> (\<exists>i \<in> set is. d = cube_rotate i c \<or> d = cube_rotate i (cube_rotate i c))"
  by (induction "is") (auto simp: Let_def uset_lookup_eq cube_eq_iff split: if_splits)

function psdkro_add_cube :: "cube32 policy \<Rightarrow> nat \<Rightarrow> cube32 \<Rightarrow> cube32 uset \<Rightarrow> cube32 uset" where
  "psdkro_add_cube P sz c1 s =
     (if uset_find c1 s then uset_erase c1 s
      else if cube_eq c1 cube32_one then uset_insert P c1 s
      else (case psdkro_neighbour [0..<sz] c1 s of
              Some c_tmp \<Rightarrow> psdkro_add_cube P sz (merge c1 c_tmp) (uset_erase c_tmp s)
            | None \<Rightarrow> uset_insert P c1 s))"
  by pat_completeness auto

termination psdkro_add_cube
  by (relation "measure (\<lambda>(P, sz, c1, s). length (elems s))")
    (auto dest: psdkro_neighbour_found intro: uset_erase_smaller)

declare psdkro_add_cube.simps [simp del]

section \<open>The unused \<^verbatim>\<open>add_cube\<close> agrees with that of the AIG method\<close>

lemma psdkro_neighbour_eq: "psdkro_neighbour is c s = find_neighbour is c s"
  by (induction "is") (auto simp: Let_def uset_lookup_eq cube_eq_iff)

lemma psdkro_add_cube_eq: "psdkro_add_cube P n c s = aig_add_cube P n c s"
proof (induction P n c s rule: aig_add_cube.induct)
  case (1 P n c s)
  show ?case
    using 1 unfolding psdkro_add_cube.simps [of P n c s] aig_add_cube.simps [of P n c s] psdkro_neighbour_eq
    by (auto split: option.splits)
qed

interpretation px: xor_adder "psdkro_add_cube P n" elems "esop_set_ok n" "cube_ok n"
    "\<lambda>v c. cube_eval c v" esop_eval
  for P :: "cube32 policy" and n :: nat
  by unfold_locales (use aig_add_cube_spec in \<open>auto simp: psdkro_add_cube_eq\<close>)

section \<open>The expansions of a function\<close>

text \<open>
  \<open>psdkro_exp D f k\<close>: there is a pseudo-Kronecker expression of \<open>f\<close> with \<open>k\<close> cubes, that
  is, a choice of an expansion for each node met on the way down.
\<close>

inductive psdkro_exp :: "'d cudd \<Rightarrow> 'd \<Rightarrow> nat \<Rightarrow> bool" for D where
  exp_zero: "psdkro_exp D (dd_zero D) 0"
| exp_one: "psdkro_exp D (dd_one D) 1"
| exp_positive_davio: "f \<noteq> dd_zero D \<Longrightarrow> f \<noteq> dd_one D \<Longrightarrow>
    psdkro_exp D (cofactor0 D f) k0 \<Longrightarrow> psdkro_exp D (cofactor2 D f) k2 \<Longrightarrow> psdkro_exp D f (k0 + k2)"
| exp_negative_davio: "f \<noteq> dd_zero D \<Longrightarrow> f \<noteq> dd_one D \<Longrightarrow>
    psdkro_exp D (cofactor1 D f) k1 \<Longrightarrow> psdkro_exp D (cofactor2 D f) k2 \<Longrightarrow> psdkro_exp D f (k1 + k2)"
| exp_shannon: "f \<noteq> dd_zero D \<Longrightarrow> f \<noteq> dd_one D \<Longrightarrow>
    psdkro_exp D (cofactor0 D f) k0 \<Longrightarrow> psdkro_exp D (cofactor1 D f) k1 \<Longrightarrow> psdkro_exp D f (k0 + k1)"

inductive_cases psdkro_expE: "psdkro_exp D f k"

definition psdkro_min :: "'d cudd \<Rightarrow> 'd \<Rightarrow> nat \<Rightarrow> bool" where
  "psdkro_min D f k \<longleftrightarrow> psdkro_exp D f k \<and> (\<forall>k'. psdkro_exp D f k' \<longrightarrow> k \<le> k')"

section \<open>The BDD package\<close>

text \<open>The level of a node's variable in the current order; the constants are below all.\<close>

definition dd_level :: "'d cudd \<Rightarrow> (nat \<Rightarrow> nat) \<Rightarrow> 'd \<Rightarrow> nat" where
  "dd_level D level f = (if f = dd_zero D \<or> f = dd_one D then dd_size D else level (dd_index D f))"

text \<open>
  What CUDD documents: the two constants, the decomposition of a node by its variable
  into two different cofactors further down in the variable order, the exclusive or, and
  that two references with the same function are the same.
  \<open>ok\<close> says which references are BDDs of the manager, \<open>val\<close> the function of one.
\<close>

locale bdd_package =
  fixes D :: "'d cudd"
    and level :: "nat \<Rightarrow> nat"
    and ok :: "'d \<Rightarrow> bool"
    and val :: "'d \<Rightarrow> (nat \<Rightarrow> bool) \<Rightarrow> bool"
  assumes zero_neq_one: "dd_zero D \<noteq> dd_one D"
    and ok_zero: "ok (dd_zero D)" and ok_one: "ok (dd_one D)"
    and val_zero: "\<not> val (dd_zero D) v" and val_one: "val (dd_one D) v"
    and level_inj: "inj_on level {..<dd_size D}"
    and level_less: "i < dd_size D \<Longrightarrow> level i < dd_size D"
    and index_less: "ok f \<Longrightarrow> f \<noteq> dd_zero D \<Longrightarrow> f \<noteq> dd_one D \<Longrightarrow> dd_index D f < dd_size D"
    and ok_cofactors: "ok f \<Longrightarrow> f \<noteq> dd_zero D \<Longrightarrow> f \<noteq> dd_one D \<Longrightarrow> ok (cofactor0 D f) \<and> ok (cofactor1 D f)"
    and reduced: "ok f \<Longrightarrow> f \<noteq> dd_zero D \<Longrightarrow> f \<noteq> dd_one D \<Longrightarrow> cofactor0 D f \<noteq> cofactor1 D f"
    and ordered: "ok f \<Longrightarrow> f \<noteq> dd_zero D \<Longrightarrow> f \<noteq> dd_one D \<Longrightarrow>
      level (dd_index D f) < dd_level D level (cofactor0 D f) \<and>
      level (dd_index D f) < dd_level D level (cofactor1 D f)"
    and val_node: "ok f \<Longrightarrow> f \<noteq> dd_zero D \<Longrightarrow> f \<noteq> dd_one D \<Longrightarrow>
      val f v = (if v (dd_index D f) then val (cofactor1 D f) v else val (cofactor0 D f) v)"
    and ok_xor: "ok f \<Longrightarrow> ok g \<Longrightarrow> ok (dd_xor D f g)"
    and val_xor: "ok f \<Longrightarrow> ok g \<Longrightarrow> val (dd_xor D f g) v = (val f v \<noteq> val g v)"
    and level_xor: "ok f \<Longrightarrow> ok g \<Longrightarrow>
      min (dd_level D level f) (dd_level D level g) \<le> dd_level D level (dd_xor D f g)"
    and unique: "ok f \<Longrightarrow> ok g \<Longrightarrow> (\<forall>v. val f v = val g v) \<Longrightarrow> f = g"
begin

abbreviation const :: "'d \<Rightarrow> bool" where
  "const f \<equiv> f = dd_zero D \<or> f = dd_one D"

lemma level_le: "ok f \<Longrightarrow> dd_level D level f \<le> dd_size D"
  using index_less level_less by (auto simp: dd_level_def intro: less_imp_le)

lemma node_level: "ok f \<Longrightarrow> \<not> const f \<Longrightarrow> dd_level D level f = level (dd_index D f) \<and> dd_level D level f < dd_size D"
  using index_less level_less by (auto simp: dd_level_def)

lemma cofactors:
  assumes "ok f" and "\<not> const f" and "g \<in> {cofactor0 D f, cofactor1 D f, cofactor2 D f}"
  shows "ok g" and "dd_level D level f < dd_level D level g"
proof -
  have o: "ok (cofactor0 D f)" "ok (cofactor1 D f)" using ok_cofactors assms(1,2) by auto
  then have "ok (cofactor2 D f)" by (simp add: cofactor2_def ok_xor)
  with o assms(3) show "ok g" by auto
  have l: "dd_level D level f < dd_level D level (cofactor0 D f)" "dd_level D level f < dd_level D level (cofactor1 D f)"
    using ordered [OF assms(1)] node_level [OF assms(1,2)] assms(2) by auto
  then have "dd_level D level f < dd_level D level (cofactor2 D f)"
    using level_xor [OF o] by (simp add: cofactor2_def)
  with l assms(3) show "dd_level D level f < dd_level D level g" by auto
qed

lemma val_cofactor2: "ok f \<Longrightarrow> \<not> const f \<Longrightarrow> val (cofactor2 D f) v = (val (cofactor0 D f) v \<noteq> val (cofactor1 D f) v)"
  using ok_cofactors val_xor by (simp add: cofactor2_def)

subsection \<open>The cost table\<close>

definition cost :: "'d costs \<Rightarrow> 'd \<Rightarrow> u32" where
  "cost costs f = (if f = dd_zero D then 0 else if f = dd_one D then 1 else snd (the (costs f)))"

definition known :: "'d costs \<Rightarrow> 'd \<Rightarrow> bool" where
  "known costs f \<longleftrightarrow> const f \<or> f \<in> dom costs"

definition entry_ok :: "'d costs \<Rightarrow> 'd \<Rightarrow> exp_type \<times> u32 \<Rightarrow> bool" where
  "entry_ok costs f e \<longleftrightarrow> ok f \<and> \<not> const f \<and>
     known costs (cofactor0 D f) \<and> known costs (cofactor1 D f) \<and> known costs (cofactor2 D f) \<and>
     e = choose_expansion (cost costs (cofactor0 D f)) (cost costs (cofactor1 D f)) (cost costs (cofactor2 D f))"

definition table_ok :: "'d costs \<Rightarrow> bool" where
  "table_ok costs \<longleftrightarrow> (\<forall>f e. costs f = Some e \<longrightarrow> entry_ok costs f e)"

lemma cost_mono: "costs \<subseteq>\<^sub>m costs' \<Longrightarrow> known costs f \<Longrightarrow> cost costs' f = cost costs f \<and> known costs' f"
  by (auto simp: cost_def known_def map_le_def dom_def)

lemma entry_ok_mono:
  assumes "costs \<subseteq>\<^sub>m costs'" and "entry_ok costs f e"
  shows "entry_ok costs' f e"
  using assms(2) cost_mono [OF assms(1)] by (simp add: entry_ok_def)

text \<open>What a run on \<open>f\<close> does to the table: entries of nodes at or below \<open>f\<close> are added.\<close>

definition counted :: "'d \<Rightarrow> 'd costs \<Rightarrow> exp_type \<times> u32 \<Rightarrow> 'd costs \<Rightarrow> bool" where
  "counted f costs e costs' \<longleftrightarrow> table_ok costs' \<and> costs \<subseteq>\<^sub>m costs' \<and> known costs' f \<and> snd e = cost costs' f \<and>
     finite (dom costs' - dom costs) \<and>
     (\<forall>g \<in> dom costs' - dom costs. dd_level D level f \<le> dd_level D level g)"

lemma countedD:
  assumes "counted f costs e costs'"
  shows "table_ok costs'" and "costs \<subseteq>\<^sub>m costs'" and "known costs' f" and "snd e = cost costs' f"
    and "finite (dom costs' - dom costs)"
    and "g \<in> dom costs' - dom costs \<Longrightarrow> dd_level D level f \<le> dd_level D level g"
  using assms unfolding counted_def by blast+

text \<open>The runs on the three subproblems of a node add entries below the node only.\<close>

lemma counted_below:
  assumes f: "ok f" "\<not> const f" and c0: "counted (cofactor0 D f) costs e0 c0"
    and c1: "counted (cofactor1 D f) c0 e1 c1" and c2: "counted (cofactor2 D f) c1 e2 c2"
    and g: "g \<in> dom c2 - dom costs"
  shows "dd_level D level f < dd_level D level g"
proof -
  have l: "dd_level D level f < dd_level D level (cofactor0 D f)"
      "dd_level D level f < dd_level D level (cofactor1 D f)"
      "dd_level D level f < dd_level D level (cofactor2 D f)"
    using cofactors(2) [OF f] by simp_all
  consider "g \<in> dom c0 - dom costs" | "g \<in> dom c1 - dom c0" | "g \<in> dom c2 - dom c1"
    using g by blast
  then show ?thesis
    by cases (use order_less_le_trans [OF l(1) countedD(6) [OF c0]] order_less_le_trans [OF l(2) countedD(6) [OF c1]]
      order_less_le_trans [OF l(3) countedD(6) [OF c2]] in blast)+
qed

lemma counted_node:
  assumes f: "ok f" "\<not> const f" and fresh: "costs f = None" and c0: "counted (cofactor0 D f) costs e0 c0"
    and c1: "counted (cofactor1 D f) c0 e1 c1" and c2: "counted (cofactor2 D f) c1 e2 c2"
  defines "ret \<equiv> choose_expansion (snd e0) (snd e1) (snd e2)"
  shows "counted f costs ret (c2(f \<mapsto> ret))" and "f \<notin> dom c2"
proof -
  note r0 = countedD [OF c0] and r1 = countedD [OF c1] and r2 = countedD [OF c2]
  note below = counted_below [OF f c0 c1 c2]
  show f2: "f \<notin> dom c2" using below [of f] fresh by auto
  let ?c3 = "c2(f \<mapsto> ret)"
  have c23: "c2 \<subseteq>\<^sub>m ?c3" using f2 by (auto simp: map_le_def)
  have c12: "c1 \<subseteq>\<^sub>m ?c3" and c02: "c0 \<subseteq>\<^sub>m ?c3" and cc: "costs \<subseteq>\<^sub>m ?c3"
    using map_le_trans r0(2) r1(2) r2(2) c23 by blast+
  have "entry_ok ?c3 f ret"
    using f cost_mono [OF c02 r0(3)] cost_mono [OF c12 r1(3)] cost_mono [OF c23 r2(3)]
    by (simp add: entry_ok_def ret_def r0(4) r1(4) r2(4))
  then have "table_ok ?c3"
    using r2(1) entry_ok_mono [OF c23] by (auto simp: table_ok_def)
  moreover have "dom ?c3 - dom costs \<subseteq> insert f ((dom c0 - dom costs) \<union> (dom c1 - dom c0) \<union> (dom c2 - dom c1))"
    by auto
  then have "finite (dom ?c3 - dom costs)"
    by (rule finite_subset) (simp add: r0(5) r1(5) r2(5))
  moreover have "dd_level D level f \<le> dd_level D level g" if "g \<in> dom ?c3 - dom costs" for g
    using that below [of g] by (cases "g = f") (auto intro: less_imp_le)
  ultimately show "counted f costs ret ?c3"
    using cc f(2) unfolding counted_def by (simp add: known_def cost_def)
qed

lemma count_cubes_terminal:
  "const f \<or> f \<in> dom costs \<Longrightarrow> table_ok costs \<Longrightarrow> \<exists>e. count_cubes D f costs = Some (e, costs) \<and> counted f costs e costs"
  using zero_neq_one by (subst count_cubes.simps) (auto simp: counted_def known_def cost_def)

lemma count_cubes_node:
  assumes "\<not> const f" and "costs f = None" and "count_cubes D (cofactor0 D f) costs = Some (e0, c0)"
    and "count_cubes D (cofactor1 D f) c0 = Some (e1, c1)" and "count_cubes D (cofactor2 D f) c1 = Some (e2, c2)"
    and "ret = choose_expansion (snd e0) (snd e1) (snd e2)"
  shows "count_cubes D f costs = Some (ret, c2(f \<mapsto> ret))"
  using assms by (subst count_cubes.simps) (simp add: Let_def)

lemma count_cubes_counted:
  assumes "ok f" and "table_ok costs"
  obtains e costs' where "count_cubes D f costs = Some (e, costs')" and "counted f costs e costs'"
  using assms
proof (induction "dd_size D - dd_level D level f" arbitrary: f costs thesis rule: less_induct)
  case less
  show ?case
  proof (cases "const f \<or> f \<in> dom costs")
    case True
    then show ?thesis using count_cubes_terminal [OF True less.prems(3)] less.prems(1) by blast
  next
    case False
    then have nc: "\<not> const f" and fresh: "costs f = None" by auto
    have m: "dd_size D - dd_level D level g < dd_size D - dd_level D level f" "ok g"
      if "g \<in> {cofactor0 D f, cofactor1 D f, cofactor2 D f}" for g
      using cofactors [OF less.prems(2) nc that] node_level [OF less.prems(2) nc] by auto
    obtain e0 c0 where r0: "count_cubes D (cofactor0 D f) costs = Some (e0, c0)" "counted (cofactor0 D f) costs e0 c0"
      using less.hyps [OF m(1) _ m(2) less.prems(3)] by blast
    obtain e1 c1 where r1: "count_cubes D (cofactor1 D f) c0 = Some (e1, c1)" "counted (cofactor1 D f) c0 e1 c1"
      using less.hyps [OF m(1) _ m(2) countedD(1) [OF r0(2)]] by blast
    obtain e2 c2 where r2: "count_cubes D (cofactor2 D f) c1 = Some (e2, c2)" "counted (cofactor2 D f) c1 e2 c2"
      using less.hyps [OF m(1) _ m(2) countedD(1) [OF r1(2)]] by blast
    from less.prems(1) [OF count_cubes_node [OF nc fresh r0(1) r1(1) r2(1) refl]
        counted_node(1) [OF less.prems(2) nc fresh r0(2) r1(2) r2(2)]] show ?thesis .
  qed
qed

lemma count_cubes_spec:
  assumes "ok f" and "table_ok costs"
  shows "\<exists>e costs'. count_cubes D f costs = Some (e, costs') \<and> table_ok costs' \<and> known costs' f \<and> snd e = cost costs' f"
  using count_cubes_counted [OF assms] countedD by metis

end

lemma choose_expansion_min:
  assumes "unat a + unat b < 2 ^ 32" and "unat a + unat c < 2 ^ 32" and "unat b + unat c < 2 ^ 32"
  shows "unat (snd (choose_expansion a b c)) = min (unat a + unat b) (min (unat a + unat c) (unat b + unat c))"
proof -
  have s: "unat (a + b) = unat a + unat b" "unat (a + c) = unat a + unat c" "unat (b + c) = unat b + unat c"
    using assms by (simp_all add: unat_add_lem [symmetric] len_of_numeral_defs)
  have "a \<le> b \<longleftrightarrow> unat a \<le> unat b" "a \<le> c \<longleftrightarrow> unat a \<le> unat c" "b \<le> c \<longleftrightarrow> unat b \<le> unat c"
    by (simp_all add: word_le_nat_alt)
  then show ?thesis
    by (auto simp: choose_expansion_def Let_def max_def s)
qed

context bdd_package
begin

lemma entry_cost: "table_ok costs \<Longrightarrow> known costs f \<Longrightarrow> \<not> const f \<Longrightarrow>
    \<exists>e. costs f = Some e \<and> entry_ok costs f e \<and> cost costs f = snd e"
  by (auto simp: table_ok_def known_def cost_def)

lemma entry_cofactor:
  "entry_ok costs f e \<Longrightarrow> g \<in> {cofactor0 D f, cofactor1 D f, cofactor2 D f} \<Longrightarrow> known costs g"
  by (auto simp: entry_ok_def)

text \<open>
  With at most 32 variables no count exceeds \<open>2 ^ 31\<close>, so that the 32-bit sums are exact: a
  node with \<open>r\<close> variables from its own one on down has a cost of at most \<open>2 ^ (r - 1)\<close>.
\<close>

lemma cost_node:
  assumes "dd_size D \<le> 32" and "ok f" and "\<not> const f" and e: "entry_ok costs f e" "cost costs f = snd e"
    and r: "r \<le> dd_size D - 1"
    and le: "\<And>g. g \<in> {cofactor0 D f, cofactor1 D f, cofactor2 D f} \<Longrightarrow>
      unat (cost costs g) \<le> 2 ^ (r - 1) \<and> (r = 0 \<longrightarrow> const g)"
  shows "unat (cost costs f) \<le> 2 ^ r \<and>
    unat (cost costs f) = min (unat (cost costs (cofactor0 D f)) + unat (cost costs (cofactor1 D f)))
      (min (unat (cost costs (cofactor0 D f)) + unat (cost costs (cofactor2 D f)))
        (unat (cost costs (cofactor1 D f)) + unat (cost costs (cofactor2 D f))))"
proof -
  let ?c0 = "unat (cost costs (cofactor0 D f))" and ?c1 = "unat (cost costs (cofactor1 D f))"
    and ?c2 = "unat (cost costs (cofactor2 D f))"
  have small: "2 ^ (r - 1) \<le> (2 ^ 30 :: nat)"
    using assms(1) r by (intro power_increasing) simp_all
  have sums: "?c0 + ?c1 < 2 ^ 32" "?c0 + ?c2 < 2 ^ 32" "?c1 + ?c2 < 2 ^ 32"
    using le [of "cofactor0 D f"] le [of "cofactor1 D f"] le [of "cofactor2 D f"] small by auto
  have min: "unat (cost costs f) = min (?c0 + ?c1) (min (?c0 + ?c2) (?c1 + ?c2))"
    using e choose_expansion_min [OF sums] by (simp add: entry_ok_def)
  have "unat (cost costs f) \<le> 2 ^ r"
  proof (cases "r = 0")
    case True
    have "const (cofactor0 D f)" "const (cofactor1 D f)"
      using True le [of "cofactor0 D f"] le [of "cofactor1 D f"] by auto
    moreover have "cofactor0 D f \<noteq> cofactor1 D f" using reduced assms(2,3) by auto
    ultimately have "?c0 + ?c1 \<le> 1" by (auto simp: cost_def)
    with min True show ?thesis by simp
  next
    case False
    then have "2 ^ r = 2 * (2 ^ (r - 1) :: nat)" by (simp flip: power_Suc)
    moreover have "?c0 \<le> 2 ^ (r - 1)" "?c1 \<le> 2 ^ (r - 1)"
      using le [of "cofactor0 D f"] le [of "cofactor1 D f"] by auto
    ultimately show ?thesis using min by linarith
  qed
  with min show ?thesis by blast
qed

lemma cost_bound:
  assumes "dd_size D \<le> 32" and "table_ok costs" and "ok f" and "known costs f" and "\<not> const f"
  shows "unat (cost costs f) \<le> 2 ^ (dd_size D - 1 - dd_level D level f) \<and>
    unat (cost costs f) = min (unat (cost costs (cofactor0 D f)) + unat (cost costs (cofactor1 D f)))
      (min (unat (cost costs (cofactor0 D f)) + unat (cost costs (cofactor2 D f)))
        (unat (cost costs (cofactor1 D f)) + unat (cost costs (cofactor2 D f))))"
  using assms(3-)
proof (induction "dd_size D - dd_level D level f" arbitrary: f rule: less_induct)
  case less
  obtain e where e: "entry_ok costs f e" "cost costs f = snd e"
    using entry_cost [OF assms(2) less.prems(2,3)] by blast
  let ?r = "dd_size D - 1 - dd_level D level f"
  note lv = node_level [OF less.prems(1,3)]
  have "unat (cost costs g) \<le> 2 ^ (?r - 1) \<and> (?r = 0 \<longrightarrow> const g)"
    if g: "g \<in> {cofactor0 D f, cofactor1 D f, cofactor2 D f}" for g
  proof (cases "const g")
    case True
    then show ?thesis by (auto simp: cost_def)
  next
    case False
    note cg = cofactors [OF less.prems(1,3) g]
    note lg = node_level [OF cg(1) False]
    have "dd_size D - dd_level D level g < dd_size D - dd_level D level f" using cg(2) lv by linarith
    then have "unat (cost costs g) \<le> 2 ^ (dd_size D - 1 - dd_level D level g)"
      using less.hyps [OF _ cg(1) entry_cofactor [OF e(1) g] False] by blast
    moreover have "dd_size D - 1 - dd_level D level g \<le> ?r - 1" using cg(2) by simp
    ultimately have "unat (cost costs g) \<le> 2 ^ (?r - 1)"
      by (meson order_trans power_increasing one_le_numeral)
    with cg(2) lg show ?thesis by auto
  qed
  then show ?case by (rule cost_node [OF assms(1) less.prems(1,3) e diff_le_self])
qed

text \<open>The number in the table is the least number of cubes of any expression.\<close>

lemma min_node:
  assumes node: "\<not> const f"
    and IH: "\<And>g. g \<in> {cofactor0 D f, cofactor1 D f, cofactor2 D f} \<Longrightarrow> psdkro_min D g (c g)"
    and min: "c f = min (c (cofactor0 D f) + c (cofactor1 D f))
      (min (c (cofactor0 D f) + c (cofactor2 D f)) (c (cofactor1 D f) + c (cofactor2 D f)))"
  shows "psdkro_min D f (c f)"
proof -
  have ex: "psdkro_exp D g (c g)" and least: "psdkro_exp D g k \<Longrightarrow> c g \<le> k"
    if "g \<in> {cofactor0 D f, cofactor1 D f, cofactor2 D f}" for g k
    using IH [OF that] by (auto simp: psdkro_min_def)
  have "psdkro_exp D f (c (cofactor0 D f) + c (cofactor1 D f))"
    "psdkro_exp D f (c (cofactor0 D f) + c (cofactor2 D f))"
    "psdkro_exp D f (c (cofactor1 D f) + c (cofactor2 D f))"
    using node ex by (auto intro: exp_shannon exp_positive_davio exp_negative_davio)
  then have "psdkro_exp D f (c f)" unfolding min by (auto simp: min_def)
  moreover have "c f \<le> k" if "psdkro_exp D f k" for k
    using that
  proof (cases rule: psdkro_exp.cases)
    case (exp_positive_davio k0 k2)
    then show ?thesis using least [of "cofactor0 D f" k0] least [of "cofactor2 D f" k2] min by auto
  next
    case (exp_negative_davio k1 k2)
    then show ?thesis using least [of "cofactor1 D f" k1] least [of "cofactor2 D f" k2] min by auto
  next
    case (exp_shannon k0 k1)
    then show ?thesis using least [of "cofactor0 D f" k0] least [of "cofactor1 D f" k1] min by auto
  qed (use node in simp_all)
  ultimately show ?thesis by (simp add: psdkro_min_def)
qed

lemma cost_minimal:
  assumes "dd_size D \<le> 32" and "table_ok costs" and "ok f" and "known costs f"
  shows "psdkro_min D f (unat (cost costs f))"
  using assms(3-)
proof (induction "dd_size D - dd_level D level f" arbitrary: f rule: less_induct)
  case less
  consider (zero) "f = dd_zero D" | (one) "f = dd_one D" | (node) "\<not> const f" by blast
  then show ?case
  proof cases
    case zero
    then show ?thesis by (auto simp: psdkro_min_def cost_def intro: exp_zero)
  next
    case one
    have "1 \<le> k" if "psdkro_exp D f k" for k
      using that one zero_neq_one by (auto elim: psdkro_expE)
    with one show ?thesis using zero_neq_one exp_one by (auto simp: psdkro_min_def cost_def)
  next
    case node
    obtain e where e: "entry_ok costs f e" using entry_cost [OF assms(2) less.prems(2) node] by blast
    have "psdkro_min D g (unat (cost costs g))" if g: "g \<in> {cofactor0 D f, cofactor1 D f, cofactor2 D f}" for g
    proof -
      have "dd_size D - dd_level D level g < dd_size D - dd_level D level f"
        using cofactors(2) [OF less.prems(1) node g] node_level [OF less.prems(1) node] by linarith
      then show ?thesis
        by (rule less.hyps [OF _ cofactors(1) [OF less.prems(1) node g] entry_cofactor [OF e g]])
    qed
    then show ?thesis
      by (rule min_node [OF node _ cost_bound [OF assms(1,2) less.prems node, THEN conjunct2]])
  qed
qed

end

section \<open>The cubes of the paths\<close>

definition value_lit :: "var_value \<Rightarrow> literal" where
  "value_lit x = (case x of POSITIVE \<Rightarrow> Pos | NEGATIVE \<Rightarrow> Neg | UNUSED \<Rightarrow> Dash)"

lemma path_cube_bits:
  assumes "\<And>i. i \<in> set vars \<Longrightarrow> i < length xs" and "length xs \<le> 32"
  shows "\<exists>c. path_cube xs vars cube = Some c \<and>
    (\<forall>i. bit (lit_mask c) i = (bit (lit_mask cube) i \<or> i \<in> set vars \<and> xs ! i \<noteq> UNUSED)) \<and>
    (\<forall>i. bit (polarity c) i = (bit (polarity cube) i \<or> i \<in> set vars \<and> xs ! i = POSITIVE))"
  using assms(1)
proof (induction vars arbitrary: cube)
  case (Cons i vars)
  let ?cube = "Cube32 (lit_mask cube OR (if xs ! i \<noteq> UNUSED then shl1 i else 0))
    (polarity cube OR (if xs ! i = POSITIVE then shl1 i else 0))"
  have i: "i < length xs" "i < 32" using Cons.prems [of i] assms(2) by auto
  obtain c where c: "path_cube xs vars ?cube = Some c"
    and m: "\<And>j. bit (lit_mask c) j = (bit (lit_mask ?cube) j \<or> j \<in> set vars \<and> xs ! j \<noteq> UNUSED)"
    and p: "\<And>j. bit (polarity c) j = (bit (polarity ?cube) j \<or> j \<in> set vars \<and> xs ! j = POSITIVE)"
    using Cons.IH [of ?cube] Cons.prems by auto
  have "path_cube xs (i # vars) cube = Some c" using c i by (simp add: vec_simps)
  moreover have "bit (lit_mask c) j = (bit (lit_mask cube) j \<or> j \<in> set (i # vars) \<and> xs ! j \<noteq> UNUSED)" for j
    using i by (auto simp: m bit_simps)
  moreover have "bit (polarity c) j = (bit (polarity cube) j \<or> j \<in> set (i # vars) \<and> xs ! j = POSITIVE)" for j
    using i by (auto simp: p bit_simps)
  ultimately show ?case by blast
qed simp

lemma path_cube_spec:
  assumes "set vars \<subseteq> {..<length xs}" and "length xs \<le> 32"
    and unused: "\<And>i. i < length xs \<Longrightarrow> i \<notin> set vars \<Longrightarrow> xs ! i = UNUSED"
  obtains c where "path_cube xs vars (cube_of_value 0) = Some c" and "cube_ok (length xs) c"
    and "\<And>i. lit_at c i = (if i < length xs then value_lit (xs ! i) else Dash)"
proof -
  have bits: "lit_mask (cube_of_value 0) = 0" "polarity (cube_of_value 0) = 0"
    by (simp_all add: cube_of_value_def)
  have inr: "\<And>i. i \<in> set vars \<Longrightarrow> i < length xs" using assms(1) by auto
  obtain c where c: "path_cube xs vars (cube_of_value 0) = Some c"
    and m: "\<And>i. bit (lit_mask c) i = (i \<in> set vars \<and> xs ! i \<noteq> UNUSED)"
    and p: "\<And>i. bit (polarity c) i = (i \<in> set vars \<and> xs ! i = POSITIVE)"
    using path_cube_bits [where vars = vars and xs = xs and cube = "cube_of_value 0"] inr assms(2)
    by (auto simp: bits)
  have lit: "lit_at c i = (if i < length xs then value_lit (xs ! i) else Dash)" for i
    using unused [of i] inr [of i]
    by (cases "xs ! i") (auto simp: lit_at_def m p value_lit_def)
  have "canonical c" by (auto simp: canonical_iff m p)
  then have "cube_ok (length xs) c" by (rule cube_okI) (simp add: lit split: if_splits)
  with c lit that show thesis by blast
qed

text \<open>
  A cube agrees with the values on the variables above a level; the values as a product.
\<close>

definition agrees :: "(nat \<Rightarrow> nat) \<Rightarrow> nat \<Rightarrow> var_value list \<Rightarrow> cube32 \<Rightarrow> bool" where
  "agrees level lvl xs c \<longleftrightarrow>
     (\<forall>i < length xs. level i < lvl \<longrightarrow> lit_at c i = value_lit (xs ! i))"

definition path_true :: "var_value list \<Rightarrow> (nat \<Rightarrow> bool) \<Rightarrow> bool" where
  "path_true xs v \<longleftrightarrow> (\<forall>i < length xs. lit_sat (value_lit (xs ! i)) (v i))"

lemma path_true_update:
  assumes "i < length xs" and "xs ! i = UNUSED"
  shows "path_true (xs[i := x]) v \<longleftrightarrow> path_true xs v \<and> lit_sat (value_lit x) (v i)"
proof -
  have "lit_sat (value_lit (xs ! i)) (v i)" using assms(2) by (simp add: value_lit_def)
  then show ?thesis using assms(1) by (auto simp: path_true_def nth_list_update)
qed

lemma agrees_update:
  assumes "agrees level (Suc (level k)) (xs[k := x]) c" and "lvl \<le> level k"
  shows "agrees level lvl xs c"
  unfolding agrees_def
proof (intro allI impI)
  fix i assume i: "i < length xs" "level i < lvl"
  then have "i \<noteq> k" "level i < Suc (level k)" using assms(2) by auto
  then show "lit_at c i = value_lit (xs ! i)" using assms(1) i(1) by (auto simp: agrees_def)
qed

lemma agrees_at:
  assumes "agrees level (Suc (level k)) (xs[k := x]) c" and "k < length xs"
  shows "lit_at c k = value_lit x"
  using assms by (auto simp: agrees_def)

lemma value_lit_inj: "value_lit x = value_lit y \<Longrightarrow> x = y"
  by (cases x; cases y) (simp_all add: value_lit_def)

text \<open>The state of the walk, at a node whose level is at least \<open>lvl\<close>.\<close>

definition walk_ok :: "(nat \<Rightarrow> nat) \<Rightarrow> nat \<Rightarrow> nat \<Rightarrow> 'd psdkro \<Rightarrow> bool" where
  "walk_ok level n lvl s \<longleftrightarrow> n \<le> 32 \<and> length (m_var_values s) = n \<and> set (m_vars s) \<subseteq> {..<n} \<and>
     (\<forall>i < n. i \<notin> set (m_vars s) \<longrightarrow> m_var_values s ! i = UNUSED) \<and>
     (\<forall>i \<in> set (m_vars s). level i < lvl) \<and> esop_set_ok n (m_esop s) \<and>
     (\<forall>c \<in> set (elems (m_esop s)). \<not> agrees level lvl (m_var_values s) c)"

text \<open>What a walk has added when it comes back: \<open>k\<close> new cubes, with the function \<open>f\<close>.\<close>

definition walked :: "(nat \<Rightarrow> nat) \<Rightarrow> nat \<Rightarrow> nat \<Rightarrow> ((nat \<Rightarrow> bool) \<Rightarrow> bool) \<Rightarrow> nat \<Rightarrow> 'd psdkro \<Rightarrow> 'd psdkro \<Rightarrow> bool" where
  "walked level n lvl f k s s' \<longleftrightarrow> m_vars s' = m_vars s \<and> m_var_values s' = m_var_values s \<and>
     m_exp_costs s' = m_exp_costs s \<and> esop_set_ok n (m_esop s') \<and>
     (\<forall>c \<in> set (elems (m_esop s')). c \<in> set (elems (m_esop s)) \<or> agrees level lvl (m_var_values s) c) \<and>
     (\<forall>v. esop_eval v (elems (m_esop s')) = (esop_eval v (elems (m_esop s)) \<noteq> f v)) \<and>
     length (elems (m_esop s')) = length (elems (m_esop s)) + k"

lemma walk_leaf:
  assumes "walk_ok level n lvl s"
  obtains c where "path_cube (m_var_values s) (m_vars s) (cube_of_value 0) = Some c"
    and "walked level n lvl (path_true (m_var_values s)) 1 s (s\<lparr>m_esop := uset_insert P c (m_esop s)\<rparr>)"
proof -
  let ?xs = "m_var_values s"
  have w: "n \<le> 32" "length ?xs = n" "set (m_vars s) \<subseteq> {..<n}" "esop_set_ok n (m_esop s)"
      "\<And>i. i < n \<Longrightarrow> i \<notin> set (m_vars s) \<Longrightarrow> ?xs ! i = UNUSED"
    and no: "\<And>c. c \<in> set (elems (m_esop s)) \<Longrightarrow> \<not> agrees level lvl ?xs c"
    using assms by (simp_all add: walk_ok_def)
  obtain c where c: "path_cube ?xs (m_vars s) (cube_of_value 0) = Some c" "cube_ok n c"
    and l: "\<And>i. lit_at c i = (if i < n then value_lit (?xs ! i) else Dash)"
    using path_cube_spec [of "m_vars s" ?xs] w by auto
  have ag: "agrees level lvl ?xs c" using w(2) by (simp add: agrees_def l)
  then have nf: "\<not> uset_find c (m_esop s)" using no by (auto simp: uset_find_iff)
  have ui: "uset_inv (m_esop s)" by (rule esop_set_okD(2) [OF w(4)])
  have ev: "cube_eval c v = path_true ?xs v" for v
    using w(1,2) by (auto simp: cube_eval_iff path_true_def l)
  have "walked level n lvl (path_true ?xs) 1 s (s\<lparr>m_esop := uset_insert P c (m_esop s)\<rparr>)"
    using us.length_insert [OF ui TrueI nf, of P] us.set_insert [OF ui TrueI, of P c]
      cs.parity_insert [OF ui TrueI nf, of _ P] esop_set_ok_insert [OF w(4) c(2), of P] ag
    by (auto simp: walked_def ev)
  with c(1) that show thesis by blast
qed

lemma walk_branch:
  assumes w: "walk_ok level n lvl s" and k: "k < n" and lvl: "lvl \<le> level k"
    and no: "\<And>c. c \<in> set es \<Longrightarrow> \<not> agrees level (Suc (level k)) ((m_var_values s)[k := x]) c"
    and es: "elems (m_esop t) = es" and tok: "esop_set_ok n (m_esop t)"
    and t: "m_vars t = m_vars s @ [k]" "m_var_values t = (m_var_values s)[k := x]"
  shows "walk_ok level n (Suc (level k)) t"
proof -
  have "level i < Suc (level k)" if "i \<in> set (m_vars s)" for i
    using w lvl that unfolding walk_ok_def by (meson less_SucI order_less_le_trans)
  moreover have "(m_var_values s)[k := x] ! i = UNUSED" if "i < n" "i \<notin> set (m_vars s)" "i \<noteq> k" for i
    using w that by (simp add: walk_ok_def)
  ultimately show ?thesis
    using w k no es tok by (auto simp: walk_ok_def t)
qed

text \<open>
  The two branches of an expansion: with value \<open>x\<close> of variable \<open>k\<close> the function \<open>f\<close> is added,
  then with value \<open>y\<close> the function \<open>g\<close>.
\<close>

lemma walk_first:
  assumes "walk_ok level n lvl s" and "k < n" and "lvl \<le> level k"
  shows "walk_ok level n (Suc (level k)) (s\<lparr>m_vars := m_vars s @ [k], m_var_values := (m_var_values s)[k := x]\<rparr>)"
proof (rule walk_branch [OF assms _ refl])
  fix c assume "c \<in> set (elems (m_esop (s\<lparr>m_vars := m_vars s @ [k], m_var_values := (m_var_values s)[k := x]\<rparr>)))"
  then have "\<not> agrees level lvl (m_var_values s) c" using assms(1) by (simp add: walk_ok_def)
  then show "\<not> agrees level (Suc (level k)) ((m_var_values s)[k := x]) c"
    using agrees_update [of level k "m_var_values s" x c lvl] assms(3) by blast
qed (use assms(1) in \<open>auto simp: walk_ok_def\<close>)

lemma walk_second:
  assumes w: "walk_ok level n lvl s" and k: "k < n" and lvl: "lvl \<le> level k" and xy: "x \<noteq> y"
    and W1: "walked level n (Suc (level k)) f c1
      (s\<lparr>m_vars := m_vars s @ [k], m_var_values := (m_var_values s)[k := x]\<rparr>) s2"
  shows "walk_ok level n (Suc (level k)) (s2\<lparr>m_var_values := (m_var_values s2)[k := y]\<rparr>)"
proof (rule walk_branch [OF w k lvl _ refl])
  let ?xs = "m_var_values s"
  have len: "length ?xs = n" using w by (simp add: walk_ok_def)
  fix c assume "c \<in> set (elems (m_esop (s2\<lparr>m_var_values := (m_var_values s2)[k := y]\<rparr>)))"
  then have c: "c \<in> set (elems (m_esop s)) \<or> agrees level (Suc (level k)) (?xs[k := x]) c"
    using W1 by (auto simp: walked_def)
  show "\<not> agrees level (Suc (level k)) (?xs[k := y]) c"
  proof
    assume a: "agrees level (Suc (level k)) (?xs[k := y]) c"
    have "lit_at c k = value_lit y" using agrees_at [OF a] k len by simp
    moreover have "lit_at c k = value_lit x" if "agrees level (Suc (level k)) (?xs[k := x]) c"
      using agrees_at [OF that] k len by simp
    moreover have "c \<notin> set (elems (m_esop s))"
      using w agrees_update [OF a lvl] by (auto simp: walk_ok_def)
    ultimately show False using c xy value_lit_inj by metis
  qed
qed (use W1 in \<open>auto simp: walked_def\<close>)

lemma walk_two:
  assumes w: "walk_ok level n lvl s" and k: "k < n" and lvl: "lvl \<le> level k"
    and s1: "s1 = s\<lparr>m_vars := m_vars s @ [k], m_var_values := (m_var_values s)[k := x]\<rparr>"
    and W1: "walked level n (Suc (level k)) (\<lambda>v. path_true (m_var_values s1) v \<and> f v) c1 s1 s2"
    and s3: "s3 = s2\<lparr>m_var_values := (m_var_values s2)[k := y]\<rparr>"
    and W2: "walked level n (Suc (level k)) (\<lambda>v. path_true (m_var_values s3) v \<and> g v) c2 s3 s4"
    and h: "\<And>v. h v = ((lit_sat (value_lit x) (v k) \<and> f v) \<noteq> (lit_sat (value_lit y) (v k) \<and> g v))"
  shows "walked level n lvl (\<lambda>v. path_true (m_var_values s) v \<and> h v) (c1 + c2) s
    (s4\<lparr>m_vars := butlast (m_vars s4), m_var_values := (m_var_values s4)[k := UNUSED]\<rparr>)"
proof -
  let ?xs = "m_var_values s"
  have len: "length ?xs = n" using w by (simp add: walk_ok_def)
  have kx: "?xs ! k = UNUSED"
    using w k lvl unfolding walk_ok_def by (meson not_less)
  have up: "agrees level lvl ?xs c" if "agrees level (Suc (level k)) (?xs[k := z]) c" for z c
    by (rule agrees_update [OF that lvl])
  have x3: "m_var_values s3 = ?xs[k := y]" "m_vars s3 = m_vars s @ [k]" "m_esop s3 = m_esop s2"
      "m_exp_costs s3 = m_exp_costs s"
    using W1 by (simp_all add: s3 walked_def s1)
  have x4: "m_var_values s4 = ?xs[k := y]" "m_vars s4 = m_vars s @ [k]" "m_exp_costs s4 = m_exp_costs s"
    using W2 by (simp_all add: walked_def x3)
  have "\<forall>c \<in> set (elems (m_esop s4)). c \<in> set (elems (m_esop s2)) \<or> agrees level (Suc (level k)) (?xs[k := y]) c"
      "\<forall>c \<in> set (elems (m_esop s2)). c \<in> set (elems (m_esop s)) \<or> agrees level (Suc (level k)) (?xs[k := x]) c"
    using W1 W2 by (simp_all add: walked_def x3 s1)
  then have "c \<in> set (elems (m_esop s)) \<or> agrees level lvl ?xs c" if "c \<in> set (elems (m_esop s4))" for c
    using that up by blast
  moreover have "path_true (?xs[k := z]) v = (path_true ?xs v \<and> lit_sat (value_lit z) (v k))" for z v
    using path_true_update [OF _ kx] k len by simp
  moreover have "?xs[k := UNUSED] = ?xs" using kx by (metis list_update_id)
  ultimately show ?thesis
    using W1 W2 by (auto simp: walked_def x4 x3 s1 h)
qed

lemma generate_exact_step:
  assumes "f \<noteq> dd_zero D" and "f \<noteq> dd_one D" and "m_exp_costs s f = Some e" and "k = dd_index D f"
    and choice: "(case fst e of POSITIVE_DAVIO \<Rightarrow> (UNUSED, cofactor0 D f, POSITIVE, cofactor2 D f)
      | NEGATIVE_DAVIO \<Rightarrow> (UNUSED, cofactor1 D f, NEGATIVE, cofactor2 D f)
      | SHANNON \<Rightarrow> (NEGATIVE, cofactor0 D f, POSITIVE, cofactor1 D f)) = (x, g, y, h)"
    and "k < length (m_var_values s)"
    and "s1 = s\<lparr>m_vars := m_vars s @ [k], m_var_values := (m_var_values s)[k := x]\<rparr>"
    and "generate_exact P D g s1 = Some s2" and "length (m_var_values s2) = length (m_var_values s)"
    and "s3 = s2\<lparr>m_var_values := (m_var_values s2)[k := y]\<rparr>"
    and "generate_exact P D h s3 = Some s4" and "length (m_var_values s4) = length (m_var_values s)"
  shows "generate_exact P D f s =
    Some (s4\<lparr>m_vars := butlast (m_vars s4), m_var_values := (m_var_values s4)[k := UNUSED]\<rparr>)"
  using assms by (subst generate_exact.simps) (simp add: set_value_def vec_simps Let_def)

lemma choose_expansion_type:
  "min (unat a + unat b) (min (unat a + unat c) (unat b + unat c)) =
    (case fst (choose_expansion a b c) of POSITIVE_DAVIO \<Rightarrow> unat a + unat c
     | NEGATIVE_DAVIO \<Rightarrow> unat b + unat c | SHANNON \<Rightarrow> unat a + unat b)"
proof -
  have "a \<le> b \<longleftrightarrow> unat a \<le> unat b" "a \<le> c \<longleftrightarrow> unat a \<le> unat c" "b \<le> c \<longleftrightarrow> unat b \<le> unat c"
    by (simp_all add: word_le_nat_alt)
  then show ?thesis
    by (auto simp: choose_expansion_def Let_def max_def min_def)
qed

context bdd_package
begin

text \<open>The constants, and an inner node given the walks on its two subproblems.\<close>

definition generates :: "cube32 policy \<Rightarrow> 'd costs \<Rightarrow> nat \<Rightarrow> 'd \<Rightarrow> 'd psdkro \<Rightarrow> bool" where
  "generates P costs lvl f s \<longleftrightarrow> (\<exists>s'. generate_exact P D f s = Some s' \<and>
     walked level (dd_size D) lvl (\<lambda>v. path_true (m_var_values s) v \<and> val f v) (unat (cost costs f)) s s')"

lemma generate_const:
  assumes "const f" and "walk_ok level (dd_size D) lvl s"
  shows "generates P costs lvl f s"
proof (cases "f = dd_zero D")
  case True
  have "generate_exact P D f s = Some s" by (subst generate_exact.simps) (simp add: True)
  with assms(2) show ?thesis
    by (simp add: generates_def True walked_def walk_ok_def cost_def val_zero)
next
  case False
  then have one: "f = dd_one D" using assms(1) by simp
  obtain c where c: "path_cube (m_var_values s) (m_vars s) (cube_of_value 0) = Some c"
      "walked level (dd_size D) lvl (path_true (m_var_values s)) 1 s (s\<lparr>m_esop := uset_insert P c (m_esop s)\<rparr>)"
    using walk_leaf [OF assms(2)] by blast
  have "generate_exact P D f s = Some (s\<lparr>m_esop := uset_insert P c (m_esop s)\<rparr>)"
    using c(1) zero_neq_one by (subst generate_exact.simps) (simp add: one)
  with c(2) show ?thesis using zero_neq_one by (simp add: generates_def one cost_def val_one)
qed

text \<open>The expansion in the table: its two subproblems, their costs and what they make of \<open>f\<close>.\<close>

lemma chosen_expansion:
  assumes n: "dd_size D \<le> 32" and tab: "table_ok costs" and f: "ok f" "known costs f" "\<not> const f"
  obtains e x g y h where "costs f = Some e" and "x \<noteq> y"
    and "(case fst e of POSITIVE_DAVIO \<Rightarrow> (UNUSED, cofactor0 D f, POSITIVE, cofactor2 D f)
        | NEGATIVE_DAVIO \<Rightarrow> (UNUSED, cofactor1 D f, NEGATIVE, cofactor2 D f)
        | SHANNON \<Rightarrow> (NEGATIVE, cofactor0 D f, POSITIVE, cofactor1 D f)) = (x, g, y, h)"
    and "g \<in> {cofactor0 D f, cofactor1 D f, cofactor2 D f}" and "h \<in> {cofactor0 D f, cofactor1 D f, cofactor2 D f}"
    and "unat (cost costs f) = unat (cost costs g) + unat (cost costs h)"
    and "\<And>v. val f v = ((lit_sat (value_lit x) (v (dd_index D f)) \<and> val g v) \<noteq>
      (lit_sat (value_lit y) (v (dd_index D f)) \<and> val h v))"
proof -
  obtain e where e: "costs f = Some e" "entry_ok costs f e"
    using entry_cost [OF tab f(2,3)] by blast
  obtain x g y h where choice: "(case fst e of POSITIVE_DAVIO \<Rightarrow> (UNUSED, cofactor0 D f, POSITIVE, cofactor2 D f)
      | NEGATIVE_DAVIO \<Rightarrow> (UNUSED, cofactor1 D f, NEGATIVE, cofactor2 D f)
      | SHANNON \<Rightarrow> (NEGATIVE, cofactor0 D f, POSITIVE, cofactor1 D f)) = (x, g, y, h)"
    using prod_cases4 by blast
  show thesis
  proof (rule that [OF e(1) _ choice])
    show "unat (cost costs f) = unat (cost costs g) + unat (cost costs h)"
      using cost_bound [OF n tab f] choice e(2)
      unfolding choose_expansion_type entry_ok_def by (auto split: exp_type.splits)
    show "val f v = ((lit_sat (value_lit x) (v (dd_index D f)) \<and> val g v) \<noteq>
        (lit_sat (value_lit y) (v (dd_index D f)) \<and> val h v))" for v
      using choice val_node [OF f(1)] val_cofactor2 [OF f(1,3)] f(3)
      by (auto simp: value_lit_def split: exp_type.splits)
  qed (use choice in \<open>auto split: exp_type.splits\<close>)
qed

lemma generate_node:
  assumes n: "dd_size D \<le> 32" and tab: "table_ok costs" and f: "ok f" "known costs f" "\<not> const f"
    and w: "walk_ok level (dd_size D) lvl s" "m_exp_costs s = costs" and lv: "lvl \<le> level (dd_index D f)"
    and IH: "\<And>q t. q \<in> {cofactor0 D f, cofactor1 D f, cofactor2 D f} \<Longrightarrow>
      walk_ok level (dd_size D) (Suc (level (dd_index D f))) t \<Longrightarrow> m_exp_costs t = costs \<Longrightarrow>
      generates P costs (Suc (level (dd_index D f))) q t"
  shows "generates P costs lvl f s"
proof -
  let ?n = "dd_size D" and ?k = "dd_index D f" and ?c = "\<lambda>g. unat (cost costs g)"
  have k: "?k < ?n" using index_less [OF f(1)] f(3) by auto
  have len: "length (m_var_values s) = ?n" using w(1) by (simp add: walk_ok_def)
  obtain e x g y h where e: "costs f = Some e" and xy: "x \<noteq> y"
    and choice: "(case fst e of POSITIVE_DAVIO \<Rightarrow> (UNUSED, cofactor0 D f, POSITIVE, cofactor2 D f)
      | NEGATIVE_DAVIO \<Rightarrow> (UNUSED, cofactor1 D f, NEGATIVE, cofactor2 D f)
      | SHANNON \<Rightarrow> (NEGATIVE, cofactor0 D f, POSITIVE, cofactor1 D f)) = (x, g, y, h)"
    and sub: "g \<in> {cofactor0 D f, cofactor1 D f, cofactor2 D f}" "h \<in> {cofactor0 D f, cofactor1 D f, cofactor2 D f}"
    and cst: "?c f = ?c g + ?c h"
    and fn: "\<And>v. val f v = ((lit_sat (value_lit x) (v ?k) \<and> val g v) \<noteq> (lit_sat (value_lit y) (v ?k) \<and> val h v))"
    using chosen_expansion [OF n tab f] by metis
  define s1 where "s1 = s\<lparr>m_vars := m_vars s @ [?k], m_var_values := (m_var_values s)[?k := x]\<rparr>"
  have "walk_ok level ?n (Suc (level ?k)) s1"
    unfolding s1_def by (rule walk_first [OF w(1) k lv])
  moreover have "m_exp_costs s1 = costs" using w(2) by (simp add: s1_def)
  ultimately obtain s2 where s2: "generate_exact P D g s1 = Some s2"
      "walked level ?n (Suc (level ?k)) (\<lambda>v. path_true (m_var_values s1) v \<and> val g v) (?c g) s1 s2"
    using IH [OF sub(1)] unfolding generates_def by blast
  define s3 where "s3 = s2\<lparr>m_var_values := (m_var_values s2)[?k := y]\<rparr>"
  have "walk_ok level ?n (Suc (level ?k)) s3"
    unfolding s3_def by (rule walk_second [OF w(1) k lv xy s2(2) [unfolded s1_def]])
  moreover have "m_exp_costs s3 = costs"
    using s2(2) w(2) by (simp add: s3_def walked_def s1_def)
  ultimately obtain s4 where s4: "generate_exact P D h s3 = Some s4"
      "walked level ?n (Suc (level ?k)) (\<lambda>v. path_true (m_var_values s3) v \<and> val h v) (?c h) s3 s4"
    using IH [OF sub(2)] unfolding generates_def by blast
  let ?s5 = "s4\<lparr>m_vars := butlast (m_vars s4), m_var_values := (m_var_values s4)[?k := UNUSED]\<rparr>"
  have "generate_exact P D f s = Some ?s5"
    by (rule generate_exact_step [OF _ _ _ refl choice _ s1_def s2(1) _ s3_def s4(1)])
      (use f(3) e w(2) k len s2(2) s4(2) in \<open>auto simp: walked_def s1_def s3_def\<close>)
  with walk_two [OF w(1) k lv s1_def s2(2) s3_def s4(2) fn] show ?thesis
    unfolding generates_def cst by blast
qed

lemma generate_exact_spec:
  assumes n: "dd_size D \<le> 32" and tab: "table_ok costs"
    and "ok f" and "known costs f" and "walk_ok level (dd_size D) lvl s" and "lvl \<le> dd_level D level f"
    and "m_exp_costs s = costs"
  shows "generates P costs lvl f s"
  using assms(3-)
proof (induction "dd_size D - dd_level D level f" arbitrary: f lvl s rule: less_induct)
  case less
  show ?case
  proof (cases "const f")
    case True
    then show ?thesis by (rule generate_const [OF _ less.prems(3)])
  next
    case node: False
    let ?k = "dd_index D f"
    have k: "level ?k = dd_level D level f" "dd_level D level f < dd_size D"
      using node_level [OF less.prems(1) node] by auto
    obtain e where e: "entry_ok costs f e" using entry_cost [OF tab less.prems(2) node] by blast
    have IH: "generates P costs (Suc (level ?k)) q t"
      if q: "q \<in> {cofactor0 D f, cofactor1 D f, cofactor2 D f}"
        and t: "walk_ok level (dd_size D) (Suc (level ?k)) t" "m_exp_costs t = costs" for q t
    proof (rule less.hyps)
      show "dd_size D - dd_level D level q < dd_size D - dd_level D level f"
        using cofactors(2) [OF less.prems(1) node q] k(2) by linarith
      show "ok q" by (rule cofactors(1) [OF less.prems(1) node q])
      show "known costs q" by (rule entry_cofactor [OF e q])
      show "Suc (level ?k) \<le> dd_level D level q"
        using cofactors(2) [OF less.prems(1) node q] k(1) by simp
    qed (rule t)+
    show ?thesis
      by (rule generate_node [OF n tab less.prems(1,2) node less.prems(3,5) _ IH])
        (use less.prems(4) k(1) in simp_all)
  qed
qed

end

section \<open>Whole extractions\<close>

context bdd_package
begin

text \<open>The ESOP of one output: the function of the BDD, in as few cubes as any expression.\<close>

definition extracted :: "'d option \<Rightarrow> cube32 list \<Rightarrow> bool" where
  "extracted fo es \<longleftrightarrow> list_all (cube_ok (dd_size D)) es \<and> distinct es \<and>
     (case fo of None \<Rightarrow> es = []
      | Some f \<Rightarrow> (\<forall>v. esop_eval v es = val f v) \<and> psdkro_min D f (length es))"

lemma extract_esop_spec:
  assumes n: "dd_size D \<le> 32" and "case fo of None \<Rightarrow> True | Some f \<Rightarrow> ok f"
    and s: "m_vars s = []" "length (m_var_values s) = dd_size D"
  shows "\<exists>s' es. extract_esop P D fo s = Some (s', es) \<and> m_vars s' = [] \<and>
    length (m_var_values s') = dd_size D \<and> extracted fo es"
proof (cases fo)
  case None
  with s show ?thesis by (simp add: extract_esop_def extracted_def)
next
  case (Some f)
  then have f: "ok f" using assms(2) by simp
  let ?n = "dd_size D"
  define s0 where "s0 = s\<lparr>m_exp_costs := Map.empty, m_esop := uset_clear (m_esop s),
    m_var_values := map (\<lambda>_. UNUSED) (m_var_values s)\<rparr>"
  obtain e costs where c: "count_cubes D f Map.empty = Some (e, costs)" "table_ok costs" "known costs f"
    using count_cubes_spec [OF f, of Map.empty] by (auto simp: table_ok_def)
  define s1 where "s1 = s0\<lparr>m_exp_costs := costs\<rparr>"
  have w: "walk_ok level ?n 0 s1"
    using n s by (simp add: walk_ok_def s1_def s0_def esop_set_ok_def)
  obtain s2 where s2: "generate_exact P D f s1 = Some s2"
      "walked level ?n 0 (\<lambda>v. path_true (m_var_values s1) v \<and> val f v) (unat (cost costs f)) s1 s2"
    using generate_exact_spec [OF n c(2) f c(3) w, of P] by (auto simp: s1_def generates_def)
  have "path_true (m_var_values s1) v" for v
    by (simp add: path_true_def s1_def s0_def value_lit_def)
  then have "extracted fo (elems (m_esop s2))"
    using s2(2) cost_minimal [OF n c(2) f c(3)]
    by (auto simp: extracted_def Some walked_def esop_set_ok_def uset_inv_def s1_def s0_def)
  moreover have "extract_esop P D fo s = Some (s2, elems (m_esop s2))"
    unfolding extract_esop_def Some option.case s0_def [symmetric]
    using c(1) s2(1) by (simp add: s1_def) (simp add: s0_def Let_def)
  moreover have "m_vars s2 = []" "length (m_var_values s2) = ?n"
    using s2(2) s by (simp_all add: walked_def s1_def s0_def)
  ultimately show ?thesis by blast
qed

text \<open>The size of the result, for a BDD that is not a constant.\<close>

lemma extract_bound:
  assumes n: "dd_size D \<le> 32" and f: "ok f" "\<not> const f" and s: "m_vars s = []" "length (m_var_values s) = dd_size D"
  shows "\<exists>e costs s' es. count_cubes D f Map.empty = Some (e, costs) \<and>
    (\<forall>g e'. costs g = Some e' \<longrightarrow> unat (snd e') \<le> 2 ^ (dd_size D - 1)) \<and>
    extract_esop P D (Some f) s = Some (s', es) \<and> length es = unat (snd e) \<and>
    length es \<le> 2 ^ (dd_size D - 1 - dd_level D level f)"
proof -
  obtain e costs where c: "count_cubes D f Map.empty = Some (e, costs)" "table_ok costs" "known costs f" "snd e = cost costs f"
    using count_cubes_spec [OF f(1), of Map.empty] by (auto simp: table_ok_def)
  have "unat (snd e') \<le> 2 ^ (dd_size D - 1)" if "costs g = Some e'" for g e'
  proof -
    have "entry_ok costs g e'" using c(2) that unfolding table_ok_def by blast
    then have g: "ok g" "\<not> const g" by (auto simp: entry_ok_def)
    then have g: "ok g" "\<not> const g" "known costs g" "cost costs g = snd e'"
      using that by (auto simp: known_def cost_def)
    have "unat (snd e') \<le> 2 ^ (dd_size D - 1 - dd_level D level g)"
      using cost_bound [OF n c(2) g(1,3,2)] g(4) by simp
    also have "\<dots> \<le> 2 ^ (dd_size D - 1)" by (rule power_increasing) simp_all
    finally show ?thesis .
  qed
  moreover obtain s' es where "extract_esop P D (Some f) s = Some (s', es)" "psdkro_min D f (length es)"
    using extract_esop_spec [OF n _ s, of "Some f" P] f(1) by (auto simp: extracted_def)
  moreover from this have "length es = unat (snd e)"
    using cost_minimal [OF n c(2) f(1) c(3)] c(4) by (auto simp: psdkro_min_def intro: antisym)
  moreover have "unat (snd e) \<le> 2 ^ (dd_size D - 1 - dd_level D level f)"
    using cost_bound [OF n c(2) f(1) c(3) f(2)] c(4) by simp
  ultimately show ?thesis using c(1) by metis
qed

lemma extract_all_spec:
  assumes n: "dd_size D \<le> 32" and "list_all (\<lambda>fo. case fo of None \<Rightarrow> True | Some f \<Rightarrow> ok f) fos"
    and "m_vars s = []" "length (m_var_values s) = dd_size D"
  shows "\<exists>ess. extract_all P D fos s fncts = Some (fncts @ ess) \<and> list_all2 extracted fos ess"
  using assms(2-)
proof (induction fos arbitrary: s fncts)
  case (Cons fo fos)
  have "case fo of None \<Rightarrow> True | Some f \<Rightarrow> ok f" using Cons.prems(1) by simp
  then obtain s' es where s': "extract_esop P D fo s = Some (s', es)" "m_vars s' = []"
      "length (m_var_values s') = dd_size D" "extracted fo es"
    using extract_esop_spec [OF n _ Cons.prems(2,3)] by blast
  obtain ess where "extract_all P D fos s' (fncts @ [es]) = Some ((fncts @ [es]) @ ess)" "list_all2 extracted fos ess"
    using Cons.IH [OF _ s'(2,3), where fncts = "fncts @ [es]"] Cons.prems(1) by auto
  with s' show ?case by (intro exI [of _ "es # ess"]) simp
qed simp

lemma bdd_extract_spec:
  assumes n: "dd_size D \<le> 32" and "list_all (\<lambda>fo. case fo of None \<Rightarrow> True | Some f \<Rightarrow> ok f) fos"
  shows "\<exists>g. bdd_extract P D fos = Some ([Print (''[i] Collapsing using BDD'' @ [newline]), Elapsed] :: 'b event list, Inr g) \<and> kind g = ESOP \<and> n_inputs g = dd_size D \<and> two_lvl_ok g \<and>
    list_all2 extracted fos (cubes g)"
proof -
  obtain ess where ess: "extract_all P D fos (psdkro_init (dd_size D)) [] = Some ([] @ ess)" "list_all2 extracted fos ess"
    using extract_all_spec [OF assms, of "psdkro_init (dd_size D)" P "[]"] by (auto simp: psdkro_init_def)
  have "list_all (list_all (cube_ok (dd_size D))) ess"
    using ess(2) by (auto simp: list_all2_conv_all_nth list_all_length extracted_def)
  with ess n show ?thesis by (simp add: bdd_extract_def two_lvl_ok_def)
qed

end

end
