(* ===== verification/Bdd_Support.thy ===== *)
theory Bdd_Support
  imports Aig_Support Psdkro
begin

text \<open>
  The same for the BDD method: a variable that the functions of the BDDs do not depend on
  does not occur in the cubes of \<^verbatim>\<open>bdd_extract\<close>. BDDs are reduced and unique, so that no node
  with this variable is reached, and its value stays \<^verbatim>\<open>UNUSED\<close> on every path.
\<close>

lemma path_cube_free:
  assumes "path_cube xs vars cube = Some c" and "no_lit j cube" and "xs ! j = UNUSED"
  shows "no_lit j c"
  using assms(1,2)
proof (induction vars arbitrary: cube)
  case (Cons i vars)
  let ?m = "lit_mask cube OR (if xs ! i \<noteq> UNUSED then shl1 i else 0)"
  have "\<not> bit ?m j" using Cons.prems(2) assms(3) by (auto simp: no_lit_def bit_simps)
  with Cons.prems(1) show ?case
    by (auto simp: bind_eq_Some_conv vec_at_iff no_lit_def dest: Cons.IH [unfolded no_lit_def] split: if_split_asm)
qed simp

definition walk_free :: "nat \<Rightarrow> 'd psdkro \<Rightarrow> bool" where
  "walk_free j s \<longleftrightarrow> j < length (m_var_values s) \<and> m_var_values s ! j = UNUSED \<and> set_free j (m_esop s)"

lemma walk_free_set_value: "set_value i x s = Some s' \<Longrightarrow> i \<noteq> j \<Longrightarrow> walk_free j s \<Longrightarrow> walk_free j s'"
  by (auto simp: set_value_def bind_eq_Some_conv vec_modify_iff walk_free_def)

lemma walk_free_vars [simp]: "walk_free j (s\<lparr>m_vars := vs\<rparr>) = walk_free j s"
  by (simp add: walk_free_def)

context bdd_package
begin

lemma val_above:
  assumes "ok f" and "i < dd_size D" and "level i < dd_level D level f"
  shows "val f (v(i := b)) = val f v"
  using assms(1,3)
proof (induction "dd_size D - dd_level D level f" arbitrary: f rule: less_induct)
  case less
  show ?case
  proof (cases "const f")
    case True
    then show ?thesis using val_zero val_one by auto
  next
    case False
    have lv: "dd_level D level f = level (dd_index D f)" "dd_level D level f < dd_size D"
      using node_level [OF less.prems(1) False] by auto
    then have i: "dd_index D f \<noteq> i" using less.prems(2) by auto
    have "val g (v(i := b)) = val g v" if g: "g \<in> {cofactor0 D f, cofactor1 D f, cofactor2 D f}" for g
    proof (rule less.hyps)
      note c = cofactors [OF less.prems(1) False g]
      show "dd_size D - dd_level D level g < dd_size D - dd_level D level f" using c(2) lv(2) by linarith
      show "ok g" "level i < dd_level D level g" using c less.prems(2) by simp_all
    qed
    then show ?thesis using val_node [OF less.prems(1)] False i by simp
  qed
qed

definition indep :: "nat \<Rightarrow> 'd \<Rightarrow> bool" where
  "indep j f \<longleftrightarrow> ok f \<and> j < dd_size D \<and> (\<forall>v b. val f (v(j := b)) = val f v)"

lemma indep_node:
  assumes f: "indep j f" "\<not> const f"
  shows "dd_index D f \<noteq> j" and "indep j (cofactor0 D f)" and "indep j (cofactor1 D f)" and "indep j (cofactor2 D f)"
proof -
  let ?i = "dd_index D f"
  have ok: "ok f" "j < dd_size D" and ind: "\<And>v b. val f (v(j := b)) = val f v"
    using f(1) by (simp_all add: indep_def)
  have i: "?i < dd_size D" "level ?i = dd_level D level f"
    using index_less [OF ok(1)] node_level [OF ok(1) f(2)] f(2) by auto
  have ok': "ok (cofactor0 D f)" "ok (cofactor1 D f)" using ok_cofactors [OF ok(1)] f(2) by auto
  have v0: "val (cofactor0 D f) v = val f (v(?i := False))" for v
    using val_node [OF ok(1)] f(2) val_above [OF ok'(1) i(1)] cofactors(2) [OF ok(1) f(2), of "cofactor0 D f"] i(2) by simp
  have v1: "val (cofactor1 D f) v = val f (v(?i := True))" for v
    using val_node [OF ok(1)] f(2) val_above [OF ok'(2) i(1)] cofactors(2) [OF ok(1) f(2), of "cofactor1 D f"] i(2) by simp
  show "?i \<noteq> j"
  proof
    assume "?i = j"
    then have "val (cofactor0 D f) v = val (cofactor1 D f) v" for v by (simp add: v0 v1 ind)
    then show False using unique [OF ok'] reduced [OF ok(1)] f(2) by blast
  qed
  then have sw: "v(j := b, ?i := c) = v(?i := c, j := b)" for v :: "nat \<Rightarrow> bool" and b c
    by (simp add: fun_upd_twist)
  show i0: "indep j (cofactor0 D f)" using ok ok' by (simp add: indep_def v0 sw ind)
  show i1: "indep j (cofactor1 D f)" using ok ok' by (simp add: indep_def v1 sw ind)
  show "indep j (cofactor2 D f)"
    using i0 i1 ok_xor val_xor by (simp add: indep_def cofactor2_def)
qed

lemma walk_free_node:
  assumes "set_value i x (s\<lparr>m_vars := m_vars s @ [i]\<rparr>) = Some s1" and "rec g s1 = Some s2"
    and "set_value i y s2 = Some s3" and "rec h s3 = Some s4"
    and "set_value i z (s4\<lparr>m_vars := butlast (m_vars s4)\<rparr>) = Some s'"
    and rec: "\<And>f s s'. f \<in> {g, h} \<Longrightarrow> rec f s = Some s' \<Longrightarrow> walk_free j s \<Longrightarrow> walk_free j s'"
    and i: "i \<noteq> j" and s: "walk_free j s"
  shows "walk_free j s'"
proof -
  have "walk_free j s1" by (rule walk_free_set_value [OF assms(1) i]) (simp add: s)
  then have "walk_free j s2" by (rule rec [OF insertI1 assms(2)])
  then have "walk_free j s3" by (rule walk_free_set_value [OF assms(3) i])
  then have "walk_free j s4" by (rule rec [OF insertI2 [OF singletonI] assms(4)])
  then show ?thesis by (intro walk_free_set_value [OF assms(5) i]) simp
qed

lemma generate_exact_free:
  assumes "generate_exact P D f s = Some s'" and "indep j f" and "walk_free j s"
  shows "walk_free j s'"
proof -
  let ?Q = "\<lambda>(((P', D'), f), s) s'. D' = D \<longrightarrow> indep j f \<longrightarrow> walk_free j s \<longrightarrow> walk_free j s'"
  have "?Q (((P, D), f), s) s'"
  proof (rule generate_exact.raw_induct [where Pa = ?Q, OF _ assms(1)], goal_cases)
    case (1 rec P' D' f s s')
    have IH: "rec P' D f s = Some s' \<Longrightarrow> indep j f \<Longrightarrow> walk_free j s \<Longrightarrow> walk_free j s'" for P' f s s'
      using 1(1) [of P' D f s s'] by simp
    show ?case
    proof (clarify)
      assume D: "D' = D" and f: "indep j f" and s: "walk_free j s"
      consider (zero) "f = dd_zero D" | (one) "f = dd_one D" "f \<noteq> dd_zero D" | (node) "\<not> const f" by blast
      then show "walk_free j s'"
      proof cases
        case zero
        then show ?thesis using 1(2) s by (simp add: D)
      next
        case one
        then obtain c where c: "path_cube (m_var_values s) (m_vars s) (cube_of_value 0) = Some c"
            "s' = s\<lparr>m_esop := uset_insert P' c (m_esop s)\<rparr>"
          using 1(2) by (auto simp: D bind_eq_Some_conv)
        have "no_lit j c"
          by (rule path_cube_free [OF c(1)]) (use s in \<open>simp_all add: walk_free_def no_lit_def cube_of_value_def\<close>)
        then show ?thesis using s c(2) by (simp add: walk_free_def set_free_insert)
      next
        case node
        let ?i = "dd_index D f"
        note nd = indep_node [OF f node]
        obtain e where e: "m_exp_costs s f = Some e" using 1(2) node by (auto simp: D bind_eq_Some_conv)
        obtain x g y h where c: "(case fst e of POSITIVE_DAVIO \<Rightarrow> (UNUSED, cofactor0 D f, POSITIVE, cofactor2 D f)
            | NEGATIVE_DAVIO \<Rightarrow> (UNUSED, cofactor1 D f, NEGATIVE, cofactor2 D f)
            | SHANNON \<Rightarrow> (NEGATIVE, cofactor0 D f, POSITIVE, cofactor1 D f)) = (x, g, y, h)"
          using prod_cases4 by blast
        then have gh: "indep j g" "indep j h" using nd by (auto split: exp_type.splits)
        obtain s1 s2 s3 s4 where r: "set_value ?i x (s\<lparr>m_vars := m_vars s @ [?i]\<rparr>) = Some s1"
            "rec P' D g s1 = Some s2" "set_value ?i y s2 = Some s3" "rec P' D h s3 = Some s4"
            "set_value ?i UNUSED (s4\<lparr>m_vars := butlast (m_vars s4)\<rparr>) = Some s'"
          using 1(2) node e c by (auto simp: D Let_def bind_eq_Some_conv)
        show ?thesis
          by (rule walk_free_node [where rec = "rec P' D", OF r _ nd(1) s]) (use IH gh in blast)
      qed
    qed
  qed
  with assms(2,3) show ?thesis by simp
qed

lemma extract_esop_free:
  assumes "extract_esop P D fo s = Some (s', es)" and "case fo of None \<Rightarrow> True | Some f \<Rightarrow> indep j f"
    and "j < length (m_var_values s)"
  shows "list_all (no_lit j) es \<and> j < length (m_var_values s')"
proof (cases fo)
  case None
  then show ?thesis using assms by (auto simp: extract_esop_def)
next
  case (Some f)
  then obtain costs where s: "es = elems (m_esop s')"
      "generate_exact P D f (s\<lparr>m_esop := uset_clear (m_esop s),
         m_var_values := map (\<lambda>_. UNUSED) (m_var_values s), m_exp_costs := costs\<rparr>) = Some s'" (is "generate_exact P D f ?s0 = _")
    using assms(1) by (auto simp: extract_esop_def Let_def bind_eq_Some_conv)
  have "walk_free j ?s0" using assms(3) by (simp add: walk_free_def set_free_def uset_clear_def)
  from generate_exact_free [OF s(2) _ this] Some assms(2) show ?thesis
    by (simp add: s(1) walk_free_def set_free_def)
qed

lemma extract_all_free:
  "extract_all P D fos s fncts = Some ess \<Longrightarrow> list_all (\<lambda>fo. case fo of None \<Rightarrow> True | Some f \<Rightarrow> indep j f) fos \<Longrightarrow>
   j < length (m_var_values s) \<Longrightarrow> list_all (list_all (no_lit j)) fncts \<Longrightarrow> list_all (list_all (no_lit j)) ess"
proof (induction fos arbitrary: s fncts)
  case (Cons fo fos)
  then obtain s' es where r: "extract_esop P D fo s = Some (s', es)" "extract_all P D fos s' (fncts @ [es]) = Some ess"
    by (auto simp: bind_eq_Some_conv)
  from extract_esop_free [OF r(1), of j] Cons.prems Cons.IH [OF r(2)] show ?case by simp
qed simp

lemma bdd_extract_free:
  assumes "bdd_extract P D fos = Some (evs, Inr f)" and "j < dd_size D"
    and "list_all (\<lambda>fo. case fo of None \<Rightarrow> True | Some f \<Rightarrow> indep j f) fos"
  shows "list_all (list_all (no_lit j)) (cubes f)"
  using assms extract_all_free [of P fos "psdkro_init (dd_size D)" "[]" _ j]
  by (auto simp: bdd_extract_def bind_eq_Some_conv psdkro_init_def split: if_splits)

end

end
