(* ===== verification/Aig_To_Bdd.thy ===== *)
theory Aig_To_Bdd
  imports Psdkro
begin

text \<open>
  \<^verbatim>\<open>source/xforms/aig_to_bdd.cpp\<close>: the BDDs of a graph's outputs, built node by node. The
  vector \<^verbatim>\<open>nodes\<close> starts with null BDDs, and object 0, the constant, is never assigned. An
  operation of CUDD on a null BDD is undefined, \<open>None\<close> here; copying one is not. The
  messages, and the calls that switch the reordering of variables on and off, are the events of
  the run. The order itself is the \<open>level\<close> of the package, and every theorem holds for each of
  them. The static function \<^verbatim>\<open>test\<close> of the file has no caller.
\<close>

record 'd bdd_api =
  bdd_var :: "nat \<Rightarrow> 'd"
  bdd_not :: "'d \<Rightarrow> 'd"
  bdd_and :: "'d \<Rightarrow> 'd \<Rightarrow> 'd"

section \<open>The operations\<close>

fun bdd_inputs :: "'d bdd_api \<Rightarrow> nat \<Rightarrow> nat list \<Rightarrow> 'd option list \<Rightarrow> 'd option list option" where
  "bdd_inputs B i [] nodes = Some nodes"
| "bdd_inputs B i (ci # cis) nodes =
     do { nodes' \<leftarrow> vec_modify ci (\<lambda>_. Some (bdd_var B i)) nodes; bdd_inputs B (Suc i) cis nodes' }"

text \<open>\<^verbatim>\<open>c ? !b : b\<close>\<close>

definition bdd_edge :: "'d bdd_api \<Rightarrow> 'd option \<Rightarrow> bool \<Rightarrow> 'd option option" where
  "bdd_edge B b c = (if c then map_option (\<lambda>f. Some (bdd_not B f)) b else Some b)"

definition bdd_and_node :: "'d bdd_api \<Rightarrow> nat \<times> fanin \<times> fanin \<Rightarrow> 'd option list \<Rightarrow> 'd option list option" where
  "bdd_and_node B nd nodes =
     (case nd of (i, fi0, fi1) \<Rightarrow>
        do { b1 \<leftarrow> vec_at nodes (fst fi0);
             b2 \<leftarrow> vec_at nodes (fst fi1);
             e1 \<leftarrow> bdd_edge B b1 (snd fi0);
             e2 \<leftarrow> bdd_edge B b2 (snd fi1);
             f1 \<leftarrow> e1;
             f2 \<leftarrow> e2;
             vec_modify i (\<lambda>_. Some (bdd_and B f1 f2)) nodes })"

text \<open>The line of progress before a node, \<open>last_node\<close> being the vector's size less one and the outputs.\<close>

definition node_progress :: "bool \<Rightarrow> u64 \<Rightarrow> nat \<Rightarrow> 'b event list" where
  "node_progress verbose last_node i =
     (if verbose
      then [Print (carriage_return # ''Node '' @ pad 4 (show_int (of_nat i)) @ '' / '' @ pad 4 (show_nat (unat last_node)))]
      else [])"

fun bdd_ands :: "'d bdd_api \<Rightarrow> bool \<Rightarrow> u64 \<Rightarrow> (nat \<times> fanin \<times> fanin) list \<Rightarrow> 'd option list
    \<Rightarrow> ('d option list \<times> 'b event list) option" where
  "bdd_ands B verbose last_node [] nodes = Some (nodes, [])"
| "bdd_ands B verbose last_node (nd # nds) nodes =
     do { nodes' \<leftarrow> bdd_and_node B nd nodes;
          (nodes'', evs) \<leftarrow> bdd_ands B verbose last_node nds nodes';
          Some (nodes'', node_progress verbose last_node (fst nd) @ evs) }"

definition output_progress :: "bool \<Rightarrow> u32 \<Rightarrow> nat \<Rightarrow> 'b event list" where
  "output_progress verbose last_co i =
     (if verbose
      then [Print (carriage_return # ''Output '' @ pad 2 (show_int (of_nat i)) @ '' / '' @ pad 2 (show_int last_co))]
      else [])"

fun bdd_outputs :: "'d bdd_api \<Rightarrow> bool \<Rightarrow> u32 \<Rightarrow> nat \<Rightarrow> fanin list \<Rightarrow> 'd option list
    \<Rightarrow> ('d option list \<times> 'b event list) option" where
  "bdd_outputs B verbose last_co i [] nodes = Some ([], [])"
| "bdd_outputs B verbose last_co i (fi # fis) nodes =
     do { b \<leftarrow> vec_at nodes (fst fi);
          e \<leftarrow> bdd_edge B b (snd fi);
          (es, evs) \<leftarrow> bdd_outputs B verbose last_co (Suc i) fis nodes;
          Some (e # es, output_progress verbose last_co i @ evs) }"

definition bdd_summary :: "nat \<Rightarrow> 'd option \<Rightarrow> 'd event" where
  "bdd_summary n dd =
     (case dd of None \<Rightarrow> Print (''empty DD.'' @ [newline]) | Some f \<Rightarrow> Bdd_Summary f n)"

definition aig_to_bdd :: "'d bdd_api \<Rightarrow> bool \<Rightarrow> bool \<Rightarrow> aig \<Rightarrow> ('d option list \<times> 'd event list) option" where
  "aig_to_bdd B reorder verbose g =
     do { nodes0 \<leftarrow> bdd_inputs B 0 (ci_ids g) (replicate (obj_num g) None);
          (nodes1, evs1) \<leftarrow> bdd_ands B verbose (of_nat (obj_num g) - 1 - of_nat (length (co_nodes g))) (and_nodes g) nodes0;
          (outputs, evs2) \<leftarrow> bdd_outputs B verbose (of_nat (length (co_nodes g)) - 1) 0 (co_nodes g) nodes1;
          let told = (if verbose then [Print ('' [Done]'' @ [newline])] else []);
          Some (outputs,
                (if reorder then [Autodyn True] else []) @
                Print (''[i] Converting AIG to BDD'' @ [newline]) # evs1 @ told @ evs2 @ told @
                (if verbose then Elapsed # map (bdd_summary (ci_num g)) outputs else []) @
                (if reorder then [Autodyn False] else [])) }"

text \<open>
  What a graph must keep so that no null BDD is used: no node has the constant as a
  fanin, and no output is the complemented constant.
\<close>

definition constants_unused :: "aig \<Rightarrow> bool" where
  "constants_unused g \<longleftrightarrow>
     list_all (\<lambda>(i, fi0, fi1). fst fi0 \<noteq> 0 \<and> fst fi1 \<noteq> 0) (and_nodes g) \<and>
     list_all (\<lambda>fi. fi \<noteq> (0, True)) (co_nodes g)"

text \<open>Object 0 keeps its null BDD, so that a complemented constant cannot be converted.\<close>

lemma bdd_inputs_null:
  "bdd_inputs B i cis nodes = Some nodes' \<Longrightarrow> 0 \<notin> set cis \<Longrightarrow> nodes ! 0 = None \<Longrightarrow> nodes' ! 0 = None"
  by (induction cis arbitrary: i nodes) (auto simp: bind_eq_Some_conv vec_modify_iff)

lemma bdd_ands_null:
  "bdd_ands B verbose last_node nds nodes = Some (nodes', evs) \<Longrightarrow> 0 \<notin> fst ` set nds \<Longrightarrow> nodes ! 0 = None \<Longrightarrow>
   nodes' ! 0 = None"
  by (induction nds arbitrary: nodes evs)
    (fastforce simp: bind_eq_Some_conv vec_modify_iff bdd_and_node_def split: prod.splits)+

lemma bdd_outputs_null:
  "nodes ! 0 = None \<Longrightarrow> (0, True) \<in> set fis \<Longrightarrow> bdd_outputs B verbose last_co i fis nodes = None"
  by (induction fis arbitrary: i) (auto simp: bdd_edge_def vec_at_def bind_eq_None_conv)

lemma ands_ok_fresh: "ands_ok n known ns \<Longrightarrow> x \<in> set known \<Longrightarrow> x \<notin> fst ` set ns"
  by (induction n known ns rule: ands_ok.induct) auto

lemma aig_to_bdd_null:
  assumes "aig_ok g" and "(0, True) \<in> set (co_nodes g)"
  shows "aig_to_bdd B reorder verbose g = None"
proof -
  have ok: "0 < obj_num g" "0 \<notin> set (ci_ids g)" "ands_ok (obj_num g) (0 # ci_ids g) (and_nodes g)"
    using assms(1) by (simp_all add: aig_ok_def)
  show ?thesis
  proof (rule ccontr)
    assume "aig_to_bdd B reorder verbose g \<noteq> None"
    then obtain nodes0 nodes1 last_node last_co res and evs :: "'a event list" where
      r: "bdd_inputs B 0 (ci_ids g) (replicate (obj_num g) None) = Some nodes0"
        "bdd_ands B verbose last_node (and_nodes g) nodes0 = Some (nodes1, evs)"
      and out: "bdd_outputs B verbose last_co 0 (co_nodes g) nodes1 = Some (res :: 'a option list \<times> 'a event list)"
      by (auto simp: aig_to_bdd_def bind_eq_Some_conv)
    have "nodes1 ! 0 = None"
      by (rule bdd_ands_null [OF r(2) ands_ok_fresh [OF ok(3)] bdd_inputs_null [OF r(1) ok(2)]]) (use ok(1) in simp_all)
    then show False using out by (simp add: bdd_outputs_null [OF _ assms(2)])
  qed
qed

text \<open>What is told of the conversion is for the standard output only.\<close>

lemma silent_progress [simp]: "silent (node_progress verbose last_node i)" "silent (output_progress verbose last_co i)"
  by (simp_all add: node_progress_def output_progress_def)

lemma silent_summaries [simp]: "silent (map (bdd_summary n) bs)"
  by (induction bs) (auto simp: silent_def bdd_summary_def split: option.splits)

section \<open>The functions of the BDDs\<close>

text \<open>What CUDD documents of variables, complements and conjunctions.\<close>

locale bdd_builder = bdd_package D level ok val
  for D :: "'d cudd" and level :: "nat \<Rightarrow> nat" and ok :: "'d \<Rightarrow> bool" and val :: "'d \<Rightarrow> (nat \<Rightarrow> bool) \<Rightarrow> bool" +
  fixes B :: "'d bdd_api"
  assumes ok_var: "i < dd_size D \<Longrightarrow> ok (bdd_var B i)"
    and val_var: "i < dd_size D \<Longrightarrow> val (bdd_var B i) v = v i"
    and ok_not: "ok f \<Longrightarrow> ok (bdd_not B f)"
    and val_not: "ok f \<Longrightarrow> val (bdd_not B f) v = (\<not> val f v)"
    and ok_and: "ok f \<Longrightarrow> ok g \<Longrightarrow> ok (bdd_and B f g)"
    and val_and: "ok f \<Longrightarrow> ok g \<Longrightarrow> val (bdd_and B f g) v = (val f v \<and> val g v)"
begin

text \<open>
  \<open>bdd_of g fi f\<close>: the BDD \<open>f\<close> has the function of the fanin \<open>fi\<close>. A node that has been built
  has the function of the node, the others are still null.
\<close>

definition bdd_of :: "aig \<Rightarrow> fanin \<Rightarrow> 'd \<Rightarrow> bool" where
  "bdd_of g fi f \<longleftrightarrow> ok f \<and> (\<forall>v w. aig_model g v w \<longrightarrow> val f v = fanin_val w fi)"

definition built :: "aig \<Rightarrow> nat list \<Rightarrow> 'd option list \<Rightarrow> bool" where
  "built g seen nodes \<longleftrightarrow> length nodes = obj_num g \<and>
     (\<forall>i < obj_num g. if i \<in> set seen then \<exists>f. nodes ! i = Some f \<and> bdd_of g (i, False) f
       else nodes ! i = None)"

lemma built_at:
  "built g seen nodes \<Longrightarrow> i \<in> set seen \<Longrightarrow> i < obj_num g \<Longrightarrow> \<exists>f. nodes ! i = Some f \<and> bdd_of g (i, False) f"
  by (simp add: built_def)

lemma built_update:
  assumes "built g seen nodes" and "bdd_of g (i, False) f"
  shows "built g (i # seen) (nodes[i := Some f])"
proof -
  have "if j \<in> set (i # seen) then \<exists>f'. nodes[i := Some f] ! j = Some f' \<and> bdd_of g (j, False) f'
      else nodes[i := Some f] ! j = None" if j: "j < obj_num g" for j
    by (cases "j = i") (use assms j in \<open>auto simp: built_def\<close>)
  then show ?thesis using assms(1) by (simp add: built_def)
qed

lemma bdd_edge_spec:
  "bdd_of g (i, False) f \<Longrightarrow> \<exists>f'. bdd_edge B (Some f) c = Some (Some f') \<and> bdd_of g (i, c) f'"
  by (cases c) (auto simp: bdd_edge_def bdd_of_def fanin_val_def ok_not val_not)

lemma bdd_inputs_spec:
  assumes "ci_ids g = done @ rest" and "distinct (ci_ids g)" and "list_all (\<lambda>i. i < obj_num g) (ci_ids g)"
    and "ci_num g \<le> dd_size D" and "built g (rev done) nodes"
  shows "\<exists>nodes'. bdd_inputs B (length done) rest nodes = Some nodes' \<and> built g (rev (ci_ids g)) nodes'"
  using assms(1,5)
proof (induction rest arbitrary: "done" nodes)
  case Nil
  then show ?case by simp
next
  case (Cons ci rest)
  let ?i = "length done" and ?f = "bdd_var B (length done)"
  have i: "?i < ci_num g" using Cons.prems(1) by (simp add: ci_num_def)
  have ci: "ci_ids g ! ?i = ci" "ci < obj_num g" using Cons.prems(1) assms(3) by auto
  have "bdd_of g (ci, False) ?f"
    using i ci assms(4) by (auto simp: bdd_of_def fanin_val_def aig_model_def list_all_length ok_var val_var)
  from built_update [OF Cons.prems(2) this]
  have b: "built g (rev (done @ [ci])) (nodes[ci := Some ?f])" by simp
  have "bdd_inputs B ?i (ci # rest) nodes = bdd_inputs B (length (done @ [ci])) rest (nodes[ci := Some ?f])"
    using ci(2) Cons.prems(2) by (simp add: built_def vec_simps)
  moreover have "\<exists>nodes'. bdd_inputs B (length (done @ [ci])) rest (nodes[ci := Some ?f]) = Some nodes' \<and>
      built g (rev (ci_ids g)) nodes'"
    by (rule Cons.IH [OF _ b]) (use Cons.prems(1) in simp)
  ultimately show ?case by simp
qed

lemma bdd_and_node_spec:
  assumes "fst fi0 \<in> set seen" and "fst fi1 \<in> set seen" and "set seen \<subseteq> {..<obj_num g}" and "i < obj_num g"
    and "(i, fi0, fi1) \<in> set (and_nodes g)" and "built g seen nodes"
  shows "\<exists>nodes'. bdd_and_node B (i, fi0, fi1) nodes = Some nodes' \<and> built g (i # seen) nodes'"
proof -
  have r: "fst fi0 < obj_num g" "fst fi1 < obj_num g" using assms(1-3) by auto
  have len: "length nodes = obj_num g" using assms(6) by (simp add: built_def)
  obtain f0 f1 where f: "nodes ! fst fi0 = Some f0" "bdd_of g (fst fi0, False) f0"
      "nodes ! fst fi1 = Some f1" "bdd_of g (fst fi1, False) f1"
    using built_at [OF assms(6,1) r(1)] built_at [OF assms(6,2) r(2)] by blast
  obtain e0 e1 where e: "bdd_edge B (Some f0) (snd fi0) = Some (Some e0)" "bdd_of g fi0 e0"
      "bdd_edge B (Some f1) (snd fi1) = Some (Some e1)" "bdd_of g fi1 e1"
    using bdd_edge_spec [OF f(2), of "snd fi0"] bdd_edge_spec [OF f(4), of "snd fi1"] by auto
  have "bdd_of g (i, False) (bdd_and B e0 e1)"
    using e(2,4) assms(5) by (auto simp: bdd_of_def ok_and val_and aig_model_def list_all_iff fanin_val_def)
  from built_update [OF assms(6) this] show ?thesis
    using r len f(1,3) e(1,3) assms(4) by (simp add: bdd_and_node_def vec_simps)
qed

lemma bdd_ands_spec:
  assumes "ands_ok (obj_num g) seen nds" and "set seen \<subseteq> {..<obj_num g}"
    and "list_all (\<lambda>(i, fi0, fi1). fst fi0 \<noteq> 0 \<and> fst fi1 \<noteq> 0) nds"
    and "set nds \<subseteq> set (and_nodes g)" and "built g (filter (\<lambda>i. i \<noteq> 0) seen) nodes" and "0 \<in> set seen"
  shows "\<exists>nodes'. (\<forall>verbose last_node. \<exists>evs :: 'b event list. bdd_ands B verbose last_node nds nodes = Some (nodes', evs) \<and> silent evs) \<and>
    built g (filter (\<lambda>i. i \<noteq> 0) (rev (map fst nds) @ seen)) nodes'"
  using assms
proof (induction "obj_num g" seen nds arbitrary: nodes rule: ands_ok.induct)
  case (1 seen)
  then show ?case by simp
next
  case (2 seen i fi0 fi1 nds)
  let ?nz = "filter (\<lambda>i. i \<noteq> 0)"
  have i: "i < obj_num g" "i \<notin> set seen" and rest: "ands_ok (obj_num g) (i # seen) nds"
    and k: "fst fi0 \<in> set (?nz seen)" "fst fi1 \<in> set (?nz seen)"
    using "2.prems"(1,3,6) by auto
  have inz: "i \<noteq> 0" using i(2) "2.prems"(6) by metis
  have "set (?nz seen) \<subseteq> {..<obj_num g}" "(i, fi0, fi1) \<in> set (and_nodes g)" using "2.prems"(2,4) by auto
  from bdd_and_node_spec [OF k this(1) i(1) this(2) "2.prems"(5)] obtain nodes1
    where n1: "bdd_and_node B (i, fi0, fi1) nodes = Some nodes1" "built g (?nz (i # seen)) nodes1"
    using inz by auto
  have "\<exists>nodes'. (\<forall>verbose last_node. \<exists>evs :: 'b event list. bdd_ands B verbose last_node nds nodes1 = Some (nodes', evs) \<and> silent evs) \<and>
      built g (?nz (rev (map fst nds) @ i # seen)) nodes'"
    by (rule "2.hyps" [OF rest _ _ _ n1(2)]) (use "2.prems"(2,3,4,6) i(1) in auto)
  then obtain nodes' where n': "\<And>verbose last_node. \<exists>evs :: 'b event list. bdd_ands B verbose last_node nds nodes1 = Some (nodes', evs) \<and> silent evs"
      "built g (?nz (rev (map fst nds) @ i # seen)) nodes'" by blast
  have "\<exists>evs :: 'b event list. bdd_ands B verbose last_node ((i, fi0, fi1) # nds) nodes = Some (nodes', evs) \<and> silent evs"
    for verbose last_node
    using n'(1) [of verbose last_node] n1(1) by auto
  with n'(2) show ?case by (intro exI [of _ nodes']) simp
qed

text \<open>What an output's BDD is: null for the constant 0, otherwise a BDD of its function.\<close>

definition output_bdd :: "aig \<Rightarrow> fanin \<Rightarrow> 'd option \<Rightarrow> bool" where
  "output_bdd g fi b \<longleftrightarrow> (case b of None \<Rightarrow> fi = (0, False)
     | Some f \<Rightarrow> bdd_of g fi f)"

lemma bdd_outputs_spec:
  assumes "built g seen nodes" and "0 \<notin> set seen" and "0 < obj_num g" and "set seen \<subseteq> {..<obj_num g}"
    and "list_all (\<lambda>fi. fi \<noteq> (0, True) \<and> (fst fi = 0 \<or> fst fi \<in> set seen)) fis"
  shows "\<exists>bs. (\<forall>verbose last_co. \<exists>evs :: 'b event list. bdd_outputs B verbose last_co i fis nodes = Some (bs, evs) \<and> silent evs) \<and>
    list_all2 (output_bdd g) fis bs"
  using assms(5)
proof (induction fis arbitrary: i)
  case (Cons fi fis)
  have len: "length nodes = obj_num g" using assms(1) by (simp add: built_def)
  have "\<exists>e. vec_at nodes (fst fi) \<bind> (\<lambda>b. bdd_edge B b (snd fi)) = Some e \<and> output_bdd g fi e"
  proof (cases "fst fi = 0")
    case True
    then have "fi = (0, False)" using Cons.prems by (cases fi) auto
    moreover have "nodes ! 0 = None" using assms(1-3) by (auto simp: built_def)
    ultimately show ?thesis using assms(3) len by (simp add: vec_simps bdd_edge_def output_bdd_def)
  next
    case False
    then have k: "fst fi \<in> set seen" using Cons.prems by simp
    then have r: "fst fi < obj_num g" using assms(4) by auto
    obtain f where f: "nodes ! fst fi = Some f" "bdd_of g (fst fi, False) f"
      using built_at [OF assms(1) k r] by blast
    obtain e where "bdd_edge B (Some f) (snd fi) = Some (Some e)" "bdd_of g fi e"
      using bdd_edge_spec [OF f(2), of "snd fi"] by auto
    with f(1) r len show ?thesis by (simp add: vec_simps output_bdd_def)
  qed
  then obtain b e where e: "vec_at nodes (fst fi) = Some b" "bdd_edge B b (snd fi) = Some e" "output_bdd g fi e"
    by (auto simp: bind_eq_Some_conv)
  obtain bs where bs: "\<And>verbose last_co. \<exists>evs :: 'b event list. bdd_outputs B verbose last_co (Suc i) fis nodes = Some (bs, evs) \<and> silent evs"
      "list_all2 (output_bdd g) fis bs"
    using Cons.IH [of "Suc i"] Cons.prems by auto
  have "\<exists>evs :: 'b event list. bdd_outputs B verbose last_co i (fi # fis) nodes = Some (e # bs, evs) \<and> silent evs" for verbose last_co
    using bs(1) [of verbose last_co] e(1,2) by auto
  with bs(2) e(3) show ?case by (intro exI [of _ "e # bs"]) simp
qed simp

lemma aig_to_bdd_spec:
  assumes ok: "aig_ok g" and const: "constants_unused g" and n: "ci_num g \<le> dd_size D"
  shows "\<exists>bs. (\<forall>reorder verbose. \<exists>evs. aig_to_bdd B reorder verbose g = Some (bs, evs) \<and> silent evs) \<and>
    list_all2 (output_bdd g) (co_nodes g) bs"
proof -
  have parts: "distinct (ci_ids g)" "0 \<notin> set (ci_ids g)" "list_all (\<lambda>i. i < obj_num g) (ci_ids g)" "0 < obj_num g"
      "ands_ok (obj_num g) (0 # ci_ids g) (and_nodes g)"
      "list_all (\<lambda>fi. fst fi \<in> set (0 # ci_ids g @ map fst (and_nodes g))) (co_nodes g)"
    using ok by (simp_all add: aig_ok_def)
  have cu: "list_all (\<lambda>(i, fi0, fi1). fst fi0 \<noteq> 0 \<and> fst fi1 \<noteq> 0) (and_nodes g)"
      "list_all (\<lambda>fi. fi \<noteq> (0, True)) (co_nodes g)"
    using const by (simp_all add: constants_unused_def)
  have "built g (rev []) (replicate (obj_num g) None)" by (simp add: built_def)
  then obtain nodes0 where n0: "bdd_inputs B 0 (ci_ids g) (replicate (obj_num g) None) = Some nodes0"
      "built g (rev (ci_ids g)) nodes0"
    using bdd_inputs_spec [of g "[]" "ci_ids g"] parts(1,3) n by auto
  have "filter (\<lambda>i. i \<noteq> 0) xs = xs" if "0 \<notin> set xs" for xs :: "nat list"
    using that by (induction xs) auto
  from this [OF parts(2)] have "filter (\<lambda>i. i \<noteq> 0) (0 # ci_ids g) = ci_ids g" by simp
  then have b0: "built g (filter (\<lambda>i. i \<noteq> 0) (0 # ci_ids g)) nodes0"
    using n0(2) by (simp add: built_def)
  obtain nodes1 where n1: "\<forall>verbose last_node. \<exists>evs :: 'd event list. bdd_ands B verbose last_node (and_nodes g) nodes0 = Some (nodes1, evs) \<and> silent evs"
      "built g (filter (\<lambda>i. i \<noteq> 0) (rev (map fst (and_nodes g)) @ 0 # ci_ids g)) nodes1"
    using bdd_ands_spec [where 'b = 'd, OF parts(5) _ cu(1) order_refl b0] parts(3,4) by (auto simp: list_all_iff)
  have ids: "fst ` set (and_nodes g) \<subseteq> {..<obj_num g}"
    using ands_ok_ids [OF parts(5)] by (auto simp: list_all_iff)
  have "\<exists>bs. (\<forall>verbose last_co. \<exists>evs :: 'd event list. bdd_outputs B verbose last_co 0 (co_nodes g) nodes1 = Some (bs, evs) \<and> silent evs) \<and>
      list_all2 (output_bdd g) (co_nodes g) bs"
    by (rule bdd_outputs_spec [OF n1(2) _ parts(4)])
      (use parts(3,6) ids cu(2) in \<open>auto simp: list_all_iff\<close>)
  then obtain bs where bs: "\<forall>verbose last_co. \<exists>evs :: 'd event list. bdd_outputs B verbose last_co 0 (co_nodes g) nodes1 = Some (bs, evs) \<and> silent evs"
      "list_all2 (output_bdd g) (co_nodes g) bs" by blast
  have "\<exists>evs. aig_to_bdd B reorder verbose g = Some (bs, evs) \<and> silent evs" for reorder verbose
  proof -
    let ?last_node = "of_nat (obj_num g) - 1 - of_nat (length (co_nodes g)) :: u64" and ?last_co = "of_nat (length (co_nodes g)) - 1 :: u32"
    obtain evs1 evs2 :: "'d event list" where "bdd_ands B verbose ?last_node (and_nodes g) nodes0 = Some (nodes1, evs1)" "silent evs1"
        "bdd_outputs B verbose ?last_co 0 (co_nodes g) nodes1 = Some (bs, evs2)" "silent evs2"
      using n1(1) bs(1) by blast
    then show ?thesis using n0(1) by (simp add: aig_to_bdd_def Let_def)
  qed
  with bs(2) show ?thesis by blast
qed

end

end
