(* ===== verification/Esop_To_Aig.thy ===== *)
theory Esop_To_Aig
  imports Two_Lvl32
begin

text \<open>
  \<^verbatim>\<open>source/xforms/esop_to_aig.cpp\<close>: a graph is built from an ESOP form, which the collapse
  tool compares with the original. The construction of graphs belongs to ABC, which is
  not part of the repository: the record \<open>gia_api\<close> holds the calls, and the locale
  \<open>gia_builder\<close> what ABC documents of them. A literal is twice the number of its object,
  plus one if it is complemented; object 0 is the constant 0. A shift by 32 or more is
  undefined, \<open>None\<close>.
\<close>

record 'g gia_api =
  gia_start :: 'g
  gia_append_ci :: "'g \<Rightarrow> 'g"
  gia_hash_and :: "'g \<Rightarrow> nat \<Rightarrow> nat \<Rightarrow> 'g \<times> nat"
  gia_hash_xor :: "'g \<Rightarrow> nat \<Rightarrow> nat \<Rightarrow> 'g \<times> nat"
  gia_append_co :: "'g \<Rightarrow> nat \<Rightarrow> 'g"
  gia_cleanup :: "'g \<Rightarrow> 'g"

section \<open>The operations\<close>

definition var2lit :: "nat \<Rightarrow> bool \<Rightarrow> nat" where
  "var2lit var c = var + var + (if c then 1 else 0)"

text \<open>The inner loop, over the variables \<open>k\<close> of a cube; \<open>and_idx\<close> is the literal so far.\<close>

fun and_lits :: "'g gia_api \<Rightarrow> cube32 \<Rightarrow> nat list \<Rightarrow> 'g \<Rightarrow> nat \<Rightarrow> ('g \<times> nat) option" where
  "and_lits G c [] aig and_idx = Some (aig, and_idx)"
| "and_lits G c (k # ks) aig and_idx =
     (if 32 \<le> k then None
      else if lit_mask c AND shl1 k \<noteq> 0
      then let lit = var2lit k (drop_bit k (polarity c) AND 1 = 0);
               (aig', and_idx') = gia_hash_and G aig and_idx (lit + 2)
           in and_lits G c ks aig' and_idx'
      else and_lits G c ks aig and_idx)"

fun xor_cubes :: "'g gia_api \<Rightarrow> nat \<Rightarrow> cube32 list \<Rightarrow> 'g \<Rightarrow> nat \<Rightarrow> ('g \<times> nat) option" where
  "xor_cubes G n [] aig root_idx = Some (aig, root_idx)"
| "xor_cubes G n (c # cs) aig root_idx =
     do { (aig1, and_idx) \<leftarrow> (if \<not> cube_eq c cube32_one then and_lits G c [0..<n] aig 1 else Some (aig, 1));
          let (aig2, root') = gia_hash_xor G aig1 root_idx and_idx;
          xor_cubes G n cs aig2 root' }"

fun append_outputs :: "'g gia_api \<Rightarrow> nat \<Rightarrow> cube32 list list \<Rightarrow> 'g \<Rightarrow> 'g option" where
  "append_outputs G n [] aig = Some aig"
| "append_outputs G n (cubes0 # css) aig =
     (if cubes0 = [] then append_outputs G n css (gia_append_co G aig 0)
      else do { (aig1, root_idx) \<leftarrow> xor_cubes G n cubes0 aig 0;
                append_outputs G n css (gia_append_co G aig1 root_idx) })"

definition esop_to_aig :: "'g gia_api \<Rightarrow> two_lvl32 \<Rightarrow> 'g option" where
  "esop_to_aig G esop =
     do { let aig0 = (gia_append_ci G ^^ n_inputs esop) (gia_start G);
          aig1 \<leftarrow> append_outputs G (n_inputs esop) (cubes esop) aig0;
          Some (gia_cleanup G aig1) }"

section \<open>The contract of the graph's constructors\<close>

text \<open>
  \<open>wf\<close> says that a graph is well-formed, \<open>lits\<close> which literals it has, \<open>lit_val\<close> what their
  values are, \<open>outs\<close> the functions of its outputs. A call keeps the literals there were.
\<close>

locale gia_builder =
  fixes G :: "'g gia_api"
    and wf :: "'g \<Rightarrow> bool"
    and lits :: "'g \<Rightarrow> nat \<Rightarrow> bool"
    and lit_val :: "'g \<Rightarrow> nat \<Rightarrow> (nat \<Rightarrow> bool) \<Rightarrow> bool"
    and n_cis :: "'g \<Rightarrow> nat"
    and outs :: "'g \<Rightarrow> ((nat \<Rightarrow> bool) \<Rightarrow> bool) list"
  assumes start: "wf ((gia_append_ci G ^^ n) (gia_start G)) \<and>
      n_cis ((gia_append_ci G ^^ n) (gia_start G)) = n \<and> outs ((gia_append_ci G ^^ n) (gia_start G)) = []"
    and ci_lit: "k < n \<Longrightarrow> lits ((gia_append_ci G ^^ n) (gia_start G)) (2 * k + 2 + (if c then 1 else 0)) \<and>
      lit_val ((gia_append_ci G ^^ n) (gia_start G)) (2 * k + 2 + (if c then 1 else 0)) v = (v k \<noteq> c)"
    and const_lit: "wf g \<Longrightarrow> lits g 0 \<and> lits g 1 \<and> \<not> lit_val g 0 v \<and> lit_val g 1 v"
    and hash_and: "wf g \<Longrightarrow> lits g a \<Longrightarrow> lits g b \<Longrightarrow> gia_hash_and G g a b = (g', l) \<Longrightarrow>
      wf g' \<and> n_cis g' = n_cis g \<and> outs g' = outs g \<and> lits g' l \<and>
      (\<forall>v. lit_val g' l v = (lit_val g a v \<and> lit_val g b v)) \<and>
      (\<forall>l. lits g l \<longrightarrow> lits g' l \<and> lit_val g' l = lit_val g l)"
    and hash_xor: "wf g \<Longrightarrow> lits g a \<Longrightarrow> lits g b \<Longrightarrow> gia_hash_xor G g a b = (g', l) \<Longrightarrow>
      wf g' \<and> n_cis g' = n_cis g \<and> outs g' = outs g \<and> lits g' l \<and>
      (\<forall>v. lit_val g' l v = (lit_val g a v \<noteq> lit_val g b v)) \<and>
      (\<forall>l. lits g l \<longrightarrow> lits g' l \<and> lit_val g' l = lit_val g l)"
    and append_co: "wf g \<Longrightarrow> lits g l \<Longrightarrow>
      wf (gia_append_co G g l) \<and> n_cis (gia_append_co G g l) = n_cis g \<and>
      outs (gia_append_co G g l) = outs g @ [lit_val g l] \<and>
      (\<forall>l'. lits g l' \<longrightarrow> lits (gia_append_co G g l) l' \<and> lit_val (gia_append_co G g l) l' = lit_val g l')"
    and cleanup: "wf g \<Longrightarrow> wf (gia_cleanup G g) \<and> n_cis (gia_cleanup G g) = n_cis g \<and>
      outs (gia_cleanup G g) = outs g"
begin

text \<open>The graph \<open>g'\<close> is \<open>g\<close> with more objects.\<close>

definition grown :: "'g \<Rightarrow> 'g \<Rightarrow> bool" where
  "grown g g' \<longleftrightarrow> wf g' \<and> n_cis g' = n_cis g \<and>
     (\<forall>l. lits g l \<longrightarrow> lits g' l \<and> lit_val g' l = lit_val g l)"

lemma grown_trans: "grown g1 g2 \<Longrightarrow> grown g2 g3 \<Longrightarrow> grown g1 g3"
  by (simp add: grown_def)

lemma grown_refl: "wf g \<Longrightarrow> grown g g"
  by (simp add: grown_def)

text \<open>The inputs' literals are there, with the values of the inputs.\<close>

definition has_inputs :: "nat \<Rightarrow> 'g \<Rightarrow> bool" where
  "has_inputs n g \<longleftrightarrow> (\<forall>k < n. \<forall>c. lits g (2 * k + 2 + (if c then 1 else 0)) \<and>
     (\<forall>v. lit_val g (2 * k + 2 + (if c then 1 else 0)) v = (v k \<noteq> c)))"

lemma has_inputs_grown: "has_inputs n g \<Longrightarrow> grown g g' \<Longrightarrow> has_inputs n g'"
  by (auto simp: has_inputs_def grown_def)

definition lits_true :: "cube32 \<Rightarrow> nat list \<Rightarrow> (nat \<Rightarrow> bool) \<Rightarrow> bool" where
  "lits_true c ks v = list_all (\<lambda>k. lit_sat (lit_at c k) (v k)) ks"

lemma and_lits_spec:
  assumes "wf g" and "has_inputs n g" and "lits g a" and "list_all (\<lambda>k. k < n) ks" and "n \<le> 32"
  shows "\<exists>g' l. and_lits G c ks g a = Some (g', l) \<and> grown g g' \<and> outs g' = outs g \<and> lits g' l \<and>
    (\<forall>v. lit_val g' l v = (lit_val g a v \<and> lits_true c ks v))"
  using assms(1-4)
proof (induction ks arbitrary: g a)
  case Nil
  then show ?case by (simp add: lits_true_def grown_refl)
next
  case (Cons k ks)
  have k: "k < n" "\<not> 32 \<le> k" using Cons.prems(4) assms(5) by auto
  have bits: "(lit_mask c AND shl1 k \<noteq> 0) = bit (lit_mask c) k"
      "(drop_bit k (polarity c) AND 1 = 0) = (\<not> bit (polarity c) k)"
    by (rule and_shl1_iff) (rule drop_bit_and_one)
  show ?case
  proof (cases "bit (lit_mask c) k")
    case False
    then have "lit_at c k = Dash" by (simp add: lit_at_def)
    with False k bits Cons show ?thesis by (simp add: lits_true_def)
  next
    case True
    define neg where "neg = (\<not> bit (polarity c) k)"
    have lit: "var2lit k neg + 2 = 2 * k + 2 + (if neg then 1 else 0)" by (simp add: var2lit_def)
    have kl: "lits g (var2lit k neg + 2)" "\<And>v. lit_val g (var2lit k neg + 2) v = (v k \<noteq> neg)"
      unfolding lit using Cons.prems(2) k(1) by (simp_all add: has_inputs_def)
    obtain g1 l1 where h: "gia_hash_and G g a (var2lit k neg + 2) = (g1, l1)" by fastforce
    note a1 = hash_and [OF Cons.prems(1,3) kl(1) h]
    have gr: "grown g g1" using a1 by (simp add: grown_def)
    obtain g' l where r: "and_lits G c ks g1 l1 = Some (g', l)" "grown g1 g'" "outs g' = outs g1" "lits g' l"
        "\<forall>v. lit_val g' l v = (lit_val g1 l1 v \<and> lits_true c ks v)"
      using Cons.IH [OF _ has_inputs_grown [OF Cons.prems(2) gr], of l1] a1 Cons.prems(4) by auto
    have "lit_sat (lit_at c k) (v k) = (v k \<noteq> neg)" for v
      using True by (simp add: lit_at_def neg_def)
    then have "lit_val g' l v = (lit_val g a v \<and> lits_true c (k # ks) v)" for v
      using r(5) a1 kl(2) by (simp add: lits_true_def)
    moreover have "and_lits G c (k # ks) g a = Some (g', l)"
      using True k(2) bits h r(1) by (simp add: neg_def Let_def)
    ultimately show ?thesis using r grown_trans [OF gr r(2)] a1 by auto
  qed
qed

lemma cube_eval_lits:
  assumes c: "cube_ok n c" and n: "n \<le> 32"
  shows "cube_eval c v = lits_true c [0..<n] v"
proof -
  have "lit_sat (lit_at c i) (v i)" if "\<not> i < n" for i
    using cube_ok_lit [OF c, of i] that by (cases "lit_at c i = Dash") auto
  then show ?thesis
    using n unfolding cube_eval_iff lits_true_def list_all_iff
    by (metis atLeastLessThan_iff le0 order_less_le_trans set_upt)
qed

lemma cube_literal_spec:
  assumes "n \<le> 32" and "wf g" and "has_inputs n g" and "cube_ok n c"
  shows "\<exists>g1 l1. (if \<not> cube_eq c cube32_one then and_lits G c [0..<n] g 1 else Some (g, 1)) = Some (g1, l1) \<and>
    grown g g1 \<and> outs g1 = outs g \<and> lits g1 l1 \<and> (\<forall>v. lit_val g1 l1 v = cube_eval c v)"
proof (cases "c = cube32_one")
  case True
  have "lits g 1" "\<forall>v. lit_val g 1 v" using const_lit [OF assms(2)] by blast+
  with True show ?thesis by (simp add: cube_eq_iff grown_refl assms(2) cube_eval_one)
next
  case False
  have "lits g 1" using const_lit [OF assms(2)] by blast
  from and_lits_spec [OF assms(2,3) this _ assms(1), of "[0..<n]" c] False show ?thesis
    using const_lit [OF assms(2)] by (auto simp: cube_eq_iff cube_eval_lits [OF assms(4,1)] list_all_iff)
qed

lemma xor_cubes_spec:
  assumes "n \<le> 32" and "wf g" and "has_inputs n g" and "lits g r" and "list_all (cube_ok n) cs"
  shows "\<exists>g' l. xor_cubes G n cs g r = Some (g', l) \<and> grown g g' \<and> outs g' = outs g \<and> lits g' l \<and>
    (\<forall>v. lit_val g' l v = (lit_val g r v \<noteq> esop_eval v cs))"
  using assms(2-)
proof (induction cs arbitrary: g r)
  case Nil
  then show ?case by (simp add: grown_refl)
next
  case (Cons c cs)
  have c: "cube_ok n c" using Cons.prems(4) by simp
  obtain g1 l1 where s1: "(if \<not> cube_eq c cube32_one then and_lits G c [0..<n] g 1 else Some (g, 1)) = Some (g1, l1)"
      "grown g g1" "outs g1 = outs g" "lits g1 l1" "\<forall>v. lit_val g1 l1 v = cube_eval c v"
    using cube_literal_spec [OF assms(1) Cons.prems(1,2) c] by blast
  have w1: "wf g1" "lits g1 r" "lit_val g1 r = lit_val g r"
    using s1(2) Cons.prems(3) by (simp_all add: grown_def)
  obtain g2 l2 where h: "gia_hash_xor G g1 r l1 = (g2, l2)" by fastforce
  note x = hash_xor [OF w1(1,2) s1(4) h]
  have gr: "grown g1 g2" using x by (simp add: grown_def)
  have i2: "has_inputs n g2"
    by (rule has_inputs_grown [OF has_inputs_grown [OF Cons.prems(2) s1(2)] gr])
  obtain g' l where r: "xor_cubes G n cs g2 l2 = Some (g', l)" "grown g2 g'" "outs g' = outs g2" "lits g' l"
      "\<forall>v. lit_val g' l v = (lit_val g2 l2 v \<noteq> esop_eval v cs)"
    using Cons.IH [OF _ i2, of l2] x Cons.prems(4) by auto
  have "xor_cubes G n (c # cs) g r = Some (g', l)"
    using s1(1) h r(1) by (simp del: and_lits.simps)
  moreover have "grown g g'" by (rule grown_trans [OF grown_trans [OF s1(2) gr] r(2)])
  moreover have "lit_val g' l v = (lit_val g r v \<noteq> esop_eval v (c # cs))" for v
    using r(5) x s1(5) w1(3) by auto
  ultimately show ?case using r(3,4) x s1(3) by auto
qed

lemma append_outputs_spec:
  assumes "n \<le> 32" and "wf g" and "has_inputs n g" and "list_all (list_all (cube_ok n)) css"
  shows "\<exists>g'. append_outputs G n css g = Some g' \<and> wf g' \<and> n_cis g' = n_cis g \<and>
    outs g' = outs g @ map (\<lambda>cs v. esop_eval v cs) css"
  using assms(2-)
proof (induction css arbitrary: g)
  case (Cons cs css)
  have "\<exists>g1 l. (if cs = [] then Some (g, 0) else xor_cubes G n cs g 0) = Some (g1, l) \<and> grown g g1 \<and>
      outs g1 = outs g \<and> lits g1 l \<and> lit_val g1 l = (\<lambda>v. esop_eval v cs)"
    using const_lit [OF Cons.prems(1)] xor_cubes_spec [OF assms(1) Cons.prems(1,2), of 0 cs] Cons.prems(1,3)
    by (auto simp: grown_refl fun_eq_iff)
  then obtain g1 l where s: "(if cs = [] then Some (g, 0) else xor_cubes G n cs g 0) = Some (g1, l)" "grown g g1"
      "outs g1 = outs g" "lits g1 l" "lit_val g1 l = (\<lambda>v. esop_eval v cs)" by blast
  let ?g2 = "gia_append_co G g1 l"
  have w1: "wf g1" using s(2) by (simp add: grown_def)
  note co = append_co [OF w1 s(4)]
  then have gr: "grown g ?g2" using s(2) by (simp add: grown_def)
  have step: "append_outputs G n (cs # css) g = append_outputs G n css ?g2"
    using s(1) by (auto split: if_splits)
  have "wf ?g2" using co by blast
  from Cons.IH [OF this has_inputs_grown [OF Cons.prems(2) gr]] Cons.prems(3) show ?case
    unfolding step using co s(3,5) gr by (auto simp: grown_def)
qed simp

lemma esop_to_aig_spec:
  assumes "two_lvl_ok f"
  shows "\<exists>g. esop_to_aig G f = Some g \<and> wf g \<and> n_cis g = n_inputs f \<and>
    outs g = map (\<lambda>cs v. esop_eval v cs) (cubes f)"
proof -
  let ?g0 = "(gia_append_ci G ^^ n_inputs f) (gia_start G)"
  have "has_inputs (n_inputs f) ?g0" using ci_lit by (simp add: has_inputs_def)
  then obtain g1 where g1: "append_outputs G (n_inputs f) (cubes f) ?g0 = Some g1" "wf g1"
      "n_cis g1 = n_cis ?g0" "outs g1 = outs ?g0 @ map (\<lambda>cs v. esop_eval v cs) (cubes f)"
    using append_outputs_spec [of "n_inputs f" ?g0 "cubes f"] start assms by (auto simp: two_lvl_ok_def)
  then show ?thesis using start [of "n_inputs f"] cleanup [OF g1(2)]
    by (simp add: esop_to_aig_def Let_def)
qed

end

end
