(* ===== verification/Exorcism.thy ===== *)
theory Exorcism
  imports Exorlink Printf
begin

text \<open>
  \<^verbatim>\<open>source/opt/exorcism32.hpp\<close> and \<^verbatim>\<open>exorcism32.cpp\<close>: the ESOP minimiser. The manager
  keeps the cubes in one bucket per number of literals and, in two queues, the pairs
  of cubes at distance 2 and 3. \<^verbatim>\<open>add_cube\<close> adds a product to the exclusive sum,
  cancelling or merging it with a cube at distance 0 or 1; \<^verbatim>\<open>exorlink2\<close> and
  \<^verbatim>\<open>exorlink3\<close> go once through a queue and replace a pair by its reshaped cubes where
  that saves a cube; \<^verbatim>\<open>run\<close> repeats them until three rounds bring no gain.

  Every routine returns an \<open>option\<close>: \<open>None\<close> is an access out of range, the use of an
  invalid iterator or, for \<^verbatim>\<open>run\<close>, a loop that does not end. The counts the code
  keeps in 32 bits (\<^verbatim>\<open>n_cubes\<close>, the gains) are 32-bit words here; the sizes of the pair
  queues, stored in 32 bits by the bookmarks, are \<open>nat\<close>. The member \<^verbatim>\<open>m_verbose\<close> is an
  argument, and what a routine prints is part of its result.
\<close>

type_synonym cube_pair = "cube32 \<times> cube32"

record exorcism_mngr =
  m_cubes :: "cube32 uset list"
  m_n_vars :: nat
  m_pairs :: "cube_pair list list"
  m_pairs_tmp :: "cube_pair list list"
  m_pairs_bookmark :: "nat list"
  m_max_dist :: u32

section \<open>The operations\<close>

definition pairs_bookmark :: "exorcism_mngr \<Rightarrow> exorcism_mngr option" where
  "pairs_bookmark m =
     do { p0 \<leftarrow> vec_at (m_pairs m) 0;
          p1 \<leftarrow> vec_at (m_pairs m) 1;
          b0 \<leftarrow> vec_modify 0 (\<lambda>_. length p0) (m_pairs_bookmark m);
          b1 \<leftarrow> vec_modify 1 (\<lambda>_. length p1) b0;
          Some (m\<lparr>m_pairs_bookmark := b1\<rparr>) }"

definition default_pair :: cube_pair where
  "default_pair = (cube32_default, cube32_default)"

definition pairs_rollback :: "exorcism_mngr \<Rightarrow> exorcism_mngr option" where
  "pairs_rollback m =
     do { b0 \<leftarrow> vec_at (m_pairs_bookmark m) 0;
          b1 \<leftarrow> vec_at (m_pairs_bookmark m) 1;
          p0 \<leftarrow> vec_modify 0 (vec_resize default_pair b0) (m_pairs m);
          p1 \<leftarrow> vec_modify 1 (vec_resize default_pair b1) p0;
          Some (m\<lparr>m_pairs := p1\<rparr>) }"

definition n_cubes :: "exorcism_mngr \<Rightarrow> u32" where
  "n_cubes m = foldl (\<lambda>n buckt. n + of_nat (uset_size buckt)) 0 (m_cubes m)"

text \<open>
  The two nested loops of \<^verbatim>\<open>add_cube\<close>, up to the \<^verbatim>\<open>return\<close> that leaves them: whether one
  of the cubes looked at merges with \<open>c\<close> or cancels it, and the pairs collected so far.
\<close>

datatype verdict = Miss | Merge nat cube32 | Cancel nat cube32

fun scan_bucket :: "u32 \<Rightarrow> cube32 \<Rightarrow> nat \<Rightarrow> cube32 list \<Rightarrow> cube_pair list list
    \<Rightarrow> (verdict \<times> cube_pair list list) option" where
  "scan_bucket max_dist c i [] tmp = Some (Miss, tmp)"
| "scan_bucket max_dist c i (it # its) tmp =
     (let dist = distance c it
      in if dist = 1 then Some (Merge i it, tmp)
         else if dist = 0 then Some (Cancel i it, tmp)
         else if dist \<le> unat max_dist
         then do { tmp' \<leftarrow> vec_modify (dist - 2) (\<lambda>ps. ps @ [(c, it)]) tmp;
                   scan_bucket max_dist c i its tmp' }
         else scan_bucket max_dist c i its tmp)"

fun scan_buckets :: "u32 \<Rightarrow> cube32 \<Rightarrow> cube32 uset list \<Rightarrow> nat list \<Rightarrow> cube_pair list list
    \<Rightarrow> (verdict \<times> cube_pair list list) option" where
  "scan_buckets max_dist c bs [] tmp = Some (Miss, tmp)"
| "scan_buckets max_dist c bs (i # is) tmp =
     do { b \<leftarrow> vec_at bs i;
          (v, tmp') \<leftarrow> scan_bucket max_dist c i (elems b) tmp;
          (case v of Miss \<Rightarrow> scan_buckets max_dist c bs is tmp' | _ \<Rightarrow> Some (v, tmp')) }"

text \<open>
  \<^verbatim>\<open>begin\<close> is computed in unsigned 32-bit arithmetic, read as signed and cut at 0;
  \<^verbatim>\<open>end\<close> is the smaller of the number of variables and the sum.
\<close>

definition scan_range :: "exorcism_mngr \<Rightarrow> cube32 \<Rightarrow> nat list" where
  "scan_range m c =
     (let lits = of_nat (n_lits c) :: u32;
          first = max (sint (lits - m_max_dist m)) 0;
          last = min (m_n_vars m) (unat (lits + m_max_dist m))
      in [nat first ..< Suc last])"

text \<open>The final loop, \<^verbatim>\<open>d = 0 .. m_max_dist - 2\<close>: the collected pairs join the queues.\<close>

definition pair_dists :: "exorcism_mngr \<Rightarrow> nat list" where
  "pair_dists m = [0..<Suc (unat (m_max_dist m - 2))]"

fun append_pairs :: "nat list \<Rightarrow> cube_pair list list \<Rightarrow> cube_pair list list \<Rightarrow> cube_pair list list option" where
  "append_pairs [] tmp pairs = Some pairs"
| "append_pairs (d # ds) tmp pairs =
     do { ps \<leftarrow> vec_at tmp d;
          pairs' \<leftarrow> vec_modify d (\<lambda>qs. qs @ ps) pairs;
          append_pairs ds tmp pairs' }"

definition clear_tmp :: "cube_pair list list \<Rightarrow> cube_pair list list option" where
  "clear_tmp tmp = do { t0 \<leftarrow> vec_modify 0 (\<lambda>_. []) tmp; vec_modify 1 (\<lambda>_. []) t0 }"

definition verdict_found :: "cube32 \<Rightarrow> (nat \<Rightarrow> cube32 \<Rightarrow> bool) \<Rightarrow> verdict \<Rightarrow> bool" where
  "verdict_found c occurs v \<longleftrightarrow> (case v of Miss \<Rightarrow> True
     | Merge i it \<Rightarrow> occurs i it \<and> distance c it = 1
     | Cancel i it \<Rightarrow> occurs i it \<and> distance c it = 0)"

lemma verdict_found_simps [simp]:
  "verdict_found c occurs Miss"
  "verdict_found c occurs (Merge i it) \<longleftrightarrow> occurs i it \<and> distance c it = 1"
  "verdict_found c occurs (Cancel i it) \<longleftrightarrow> occurs i it \<and> distance c it = 0"
  by (simp_all add: verdict_found_def)

lemma verdict_found_mono:
  "verdict_found c P v \<Longrightarrow> (\<And>i it. P i it \<Longrightarrow> Q i it) \<Longrightarrow> verdict_found c Q v"
  by (cases v) auto

lemma scan_bucket_found:
  "scan_bucket md c i its tmp = Some (v, tmp') \<Longrightarrow>
   verdict_found c (\<lambda>j it. j = i \<and> it \<in> set its) v"
proof (induction its arbitrary: tmp)
  case (Cons it its)
  show ?case
  proof (cases "distance c it \<le> 1")
    case True
    then have "distance c it = 0 \<or> distance c it = 1" by arith
    with Cons.prems show ?thesis by (auto simp: Let_def)
  next
    case False
    then obtain tmp1 where "scan_bucket md c i its tmp1 = Some (v, tmp')"
      using Cons.prems by (auto simp: Let_def bind_eq_Some_conv split: if_splits)
    from Cons.IH [OF this] show ?thesis by (rule verdict_found_mono) simp
  qed
qed simp

lemma scan_buckets_found:
  "scan_buckets md c bs is tmp = Some (v, tmp') \<Longrightarrow>
   verdict_found c (\<lambda>i it. i < length bs \<and> it \<in> set (elems (bs ! i))) v"
proof (induction "is" arbitrary: tmp)
  case (Cons i "is")
  then obtain v1 tmp1 where i: "i < length bs"
    and sb: "scan_bucket md c i (elems (bs ! i)) tmp = Some (v1, tmp1)"
    and rest: "(case v1 of Miss \<Rightarrow> scan_buckets md c bs is tmp1 | _ \<Rightarrow> Some (v1, tmp1)) = Some (v, tmp')"
    by (auto simp: bind_eq_Some_conv vec_at_iff)
  have "verdict_found c (\<lambda>i it. i < length bs \<and> it \<in> set (elems (bs ! i))) v1"
    using scan_bucket_found [OF sb] by (rule verdict_found_mono) (simp add: i)
  then show ?case using rest Cons.IH [of tmp1] by (cases v1) auto
qed simp

function exo_add_cube :: "cube32 policy \<Rightarrow> cube32 \<Rightarrow> bool \<Rightarrow> exorcism_mngr \<Rightarrow> (exorcism_mngr \<times> nat) option" where
  "exo_add_cube P c add m =
     do { tmp0 \<leftarrow> clear_tmp (m_pairs_tmp m);
          (v, tmp) \<leftarrow> scan_buckets (m_max_dist m) c (m_cubes m) (scan_range m c) tmp0;
          (case v of
             Merge i it \<Rightarrow>
               do { bs \<leftarrow> vec_modify i (uset_erase it) (m_cubes m);
                    (m', r) \<leftarrow> exo_add_cube P (merge c it) True (m\<lparr>m_cubes := bs, m_pairs_tmp := tmp\<rparr>);
                    Some (m', r + 1) }
           | Cancel i it \<Rightarrow>
               do { bs \<leftarrow> vec_modify i (uset_erase it) (m_cubes m);
                    tmp' \<leftarrow> vec_modify 0 (\<lambda>_. []) tmp;
                    Some (m\<lparr>m_cubes := bs, m_pairs_tmp := tmp'\<rparr>, 2) }
           | Miss \<Rightarrow>
               do { bs \<leftarrow> (if add then vec_modify (n_lits c) (uset_insert P c) (m_cubes m)
                          else Some (m_cubes m));
                    pairs \<leftarrow> append_pairs (pair_dists m) tmp (m_pairs m);
                    Some (m\<lparr>m_cubes := bs, m_pairs := pairs, m_pairs_tmp := tmp\<rparr>, 0) }) }"
  by pat_completeness auto

definition bucket_sum :: "cube32 uset list \<Rightarrow> nat" where
  "bucket_sum bs = length (concat (map elems bs))"

lemma bucket_sum_erase:
  assumes "i < length bs" and "x \<in> set (elems (bs ! i))"
  shows "Suc (bucket_sum (bs[i := uset_erase x (bs ! i)])) = bucket_sum bs"
proof -
  let ?xss = "map elems bs"
  have "mset (concat (?xss[i := remove1 x (?xss ! i)])) + mset (?xss ! i) =
      mset (concat ?xss) + mset (remove1 x (?xss ! i))"
    by (rule mset_concat_update) (use assms in simp)
  from arg_cong [OF this, of size]
  have "length (concat (?xss[i := remove1 x (?xss ! i)])) + length (?xss ! i) =
      length (concat ?xss) + length (remove1 x (?xss ! i))"
    by (simp only: size_union size_mset)
  then have "bucket_sum (bs[i := uset_erase x (bs ! i)]) + length (elems (bs ! i)) =
      bucket_sum bs + (length (elems (bs ! i)) - 1)"
    using assms by (simp add: bucket_sum_def map_update elems_uset_erase length_remove1)
  moreover have "0 < length (elems (bs ! i))" using assms(2) by (rule length_pos_if_in_set)
  ultimately show ?thesis by linarith
qed

termination exo_add_cube
proof (relation "measure (\<lambda>(P, c, add, m). bucket_sum (m_cubes m))")
  fix P :: "cube32 policy" and c add m tmp0 vt v tmp i it bs
  assume scan: "scan_buckets (m_max_dist m) c (m_cubes m) (scan_range m c) tmp0 = Some vt"
    and vt: "(v, tmp) = vt" and v: "v = Merge i it"
    and bs: "vec_modify i (uset_erase it) (m_cubes m) = Some bs"
  have "i < length (m_cubes m) \<and> it \<in> set (elems (m_cubes m ! i))"
    using scan_buckets_found [of "m_max_dist m" c "m_cubes m" "scan_range m c" tmp0 v tmp] scan vt v
    by simp
  then have "bucket_sum bs < bucket_sum (m_cubes m)"
    using bs bucket_sum_erase [of i "m_cubes m" it] by (auto simp: vec_modify_iff)
  then show "((P, merge c it, True, m\<lparr>m_cubes := bs, m_pairs_tmp := tmp\<rparr>), P, c, add, m)
      \<in> measure (\<lambda>(P, c, add, m). bucket_sum (m_cubes m))"
    by simp
qed simp

declare exo_add_cube.simps [simp del]

text \<open>
  The start of both loop bodies: the front pair leaves queue \<open>q\<close>; if both of its cubes
  are still there they are taken out, through the iterators found before, and the queue
  lengths are bookmarked. \<open>None\<close> as the pair is the \<^verbatim>\<open>continue\<close> of the code.
\<close>

definition erase_found :: "nat \<Rightarrow> cube32 \<Rightarrow> cube32 uset list \<Rightarrow> cube32 uset list option" where
  "erase_found sz c bs =
     do { b \<leftarrow> vec_at bs sz;
          if uset_find c b then vec_modify sz (uset_erase c) bs else None }"

definition take_pair :: "nat \<Rightarrow> exorcism_mngr \<Rightarrow> (exorcism_mngr \<times> cube_pair option) option" where
  "take_pair q m =
     do { pairs \<leftarrow> vec_at (m_pairs m) q;
          (case pairs of
             [] \<Rightarrow> None
           | (cube0, cube1) # rest \<Rightarrow>
               do { ps \<leftarrow> vec_modify q (\<lambda>_. rest) (m_pairs m);
                    let m1 = m\<lparr>m_pairs := ps\<rparr>;
                    let cube0_sz = n_lits cube0;
                    let cube1_sz = n_lits cube1;
                    b0 \<leftarrow> vec_at (m_cubes m1) cube0_sz;
                    b1 \<leftarrow> vec_at (m_cubes m1) cube1_sz;
                    if \<not> uset_find cube0 b0 \<or> \<not> uset_find cube1 b1 then Some (m1, None)
                    else do { bs \<leftarrow> erase_found cube0_sz cube0 (m_cubes m1);
                              bs' \<leftarrow> erase_found cube1_sz cube1 bs;
                              m2 \<leftarrow> pairs_bookmark (m1\<lparr>m_cubes := bs'\<rparr>);
                              Some (m2, Some (cube0, cube1)) } }) }"

definition restore_pair :: "cube32 policy \<Rightarrow> cube_pair \<Rightarrow> exorcism_mngr \<Rightarrow> exorcism_mngr option" where
  "restore_pair P pr m =
     do { bs \<leftarrow> vec_modify (n_lits (fst pr)) (uset_insert P (fst pr)) (m_cubes m);
          bs' \<leftarrow> vec_modify (n_lits (snd pr)) (uset_insert P (snd pr)) bs;
          Some (m\<lparr>m_cubes := bs'\<rparr>) }"

text \<open>
  \<^verbatim>\<open>if (add_cube(a, false)) add_cube(b); else if (add_cube(b, false)) add_cube(a); else\<close>:
  the flag says that one of the two branches was taken.
\<close>

definition try_two :: "cube32 policy \<Rightarrow> cube32 \<Rightarrow> cube32 \<Rightarrow> exorcism_mngr
    \<Rightarrow> (exorcism_mngr \<times> bool) option" where
  "try_two P a b m =
     do { (m1, r1) \<leftarrow> exo_add_cube P a False m;
          if r1 \<noteq> 0 then do { (m2, _) \<leftarrow> exo_add_cube P b True m1; Some (m2, True) }
          else do { (m2, r2) \<leftarrow> exo_add_cube P b False m1;
                    if r2 \<noteq> 0 then do { (m3, _) \<leftarrow> exo_add_cube P a True m2; Some (m3, True) }
                    else Some (m2, False) } }"

text \<open>
  The variables that the body of the loop of \<^verbatim>\<open>exorlink2\<close> changes: the manager and the
  counters \<^verbatim>\<open>n_attempts\<close> and \<^verbatim>\<open>n_reshapes\<close>.
\<close>

type_synonym pass_state = "exorcism_mngr \<times> u32 \<times> u32"

text \<open>Its second half: the other group, and the pair put back when that does not help either.\<close>

definition exorlink2_retry :: "cube32 policy \<Rightarrow> cube32 \<times> cube32 \<Rightarrow> pass_state \<Rightarrow> pass_state option" where
  "exorlink2_retry P pr s =
     (let (m2, n_attempts, n_reshapes) = s
      in do { m3 \<leftarrow> pairs_rollback m2;
              n \<leftarrow> exorlink (fst pr) (snd pr) 2 (drop 4 cube_groups2);
              n0 \<leftarrow> vec_at n 0; n1 \<leftarrow> vec_at n 1;
              (m4, done4) \<leftarrow> try_two P n0 n1 m3;
              if done4 then Some (m4, n_attempts, n_reshapes)
              else do { m5 \<leftarrow> restore_pair P pr m4;
                        m6 \<leftarrow> pairs_rollback m5;
                        ps \<leftarrow> vec_modify 0 (\<lambda>pairs. pairs @ [pr]) (m_pairs m6);
                        Some (m6\<lparr>m_pairs := ps\<rparr>, n_attempts, n_reshapes - 1) } })"

definition exorlink2_step :: "cube32 policy \<Rightarrow> pass_state \<Rightarrow> pass_state option" where
  "exorlink2_step P s =
     (let (m, n_attempts, n_reshapes) = s
      in do { (m1, taken) \<leftarrow> take_pair 0 m;
              (case taken of
                 None \<Rightarrow> Some (m1, n_attempts, n_reshapes)
               | Some pr \<Rightarrow>
                   do { n \<leftarrow> exorlink (fst pr) (snd pr) 2 (drop 0 cube_groups2);
                        let n_attempts = n_attempts + 1;
                        let n_reshapes = n_reshapes + 1;
                        n0 \<leftarrow> vec_at n 0; n1 \<leftarrow> vec_at n 1;
                        (m2, done2) \<leftarrow> try_two P n0 n1 m1;
                        if done2 then Some (m2, n_attempts, n_reshapes)
                        else exorlink2_retry P pr (m2, n_attempts, n_reshapes) }) })"

text \<open>The other cubes of the triple, once cube \<open>j\<close> has brought a gain.\<close>

fun add_others :: "cube32 policy \<Rightarrow> cube32 list \<Rightarrow> nat \<Rightarrow> nat list \<Rightarrow> exorcism_mngr \<Rightarrow> exorcism_mngr option" where
  "add_others P n j [] m = Some m"
| "add_others P n j (k # ks) m =
     (if j \<noteq> k
      then do { c \<leftarrow> vec_at n k; (m', _) \<leftarrow> exo_add_cube P c True m; add_others P n j ks m' }
      else add_others P n j ks m)"

fun try_three :: "cube32 policy \<Rightarrow> cube32 list \<Rightarrow> nat list \<Rightarrow> exorcism_mngr
    \<Rightarrow> (exorcism_mngr \<times> bool) option" where
  "try_three P n [] m = Some (m, False)"
| "try_three P n (j # js) m =
     do { c \<leftarrow> vec_at n j;
          (m1, gain) \<leftarrow> exo_add_cube P c False m;
          if gain \<ge> 1 then do { m2 \<leftarrow> add_others P n j [0..<3] m1; Some (m2, True) }
          else do { m2 \<leftarrow> pairs_rollback m1; try_three P n js m2 } }"

fun try_groups3 :: "cube32 policy \<Rightarrow> cube_pair \<Rightarrow> nat list \<Rightarrow> exorcism_mngr
    \<Rightarrow> (exorcism_mngr \<times> bool) option" where
  "try_groups3 P pr [] m = Some (m, False)"
| "try_groups3 P pr (g # gs) m =
     do { n \<leftarrow> exorlink (fst pr) (snd pr) 3 (drop g cube_groups3);
          (m1, found) \<leftarrow> try_three P n [0..<3] m;
          if found then Some (m1, True) else try_groups3 P pr gs m1 }"

text \<open>\<^verbatim>\<open>exorlink3\<close> counts its attempts but, unlike \<^verbatim>\<open>exorlink2\<close>, never a reshape.\<close>

definition exorlink3_step :: "cube32 policy \<Rightarrow> pass_state \<Rightarrow> pass_state option" where
  "exorlink3_step P s =
     (let (m, n_attempts, n_reshapes) = s
      in do { (m1, taken) \<leftarrow> take_pair 1 m;
              (case taken of
                 None \<Rightarrow> Some (m1, n_attempts, n_reshapes)
               | Some pr \<Rightarrow>
                   do { let n_attempts = n_attempts + 1;
                        (m2, found) \<leftarrow> try_groups3 P pr [0, 9, 18, 27, 36, 45] m1;
                        m3 \<leftarrow> (if found then Some m2 else restore_pair P pr m2);
                        Some (m3, n_attempts, n_reshapes) }) })"

fun repeat_step :: "nat \<Rightarrow> ('a \<Rightarrow> 'a option) \<Rightarrow> 'a \<Rightarrow> 'a option" where
  "repeat_step 0 step s = Some s"
| "repeat_step (Suc i) step s = do { s' \<leftarrow> step s; repeat_step i step s' }"

definition pass_line :: "string \<Rightarrow> nat \<Rightarrow> u32 \<Rightarrow> u32 \<Rightarrow> u32 \<Rightarrow> u32 \<Rightarrow> string" where
  "pass_line name n_pairs n_attempts n_reshapes curr_size gain =
     name @ '': Que= '' @ pad 5 (show_nat n_pairs) @ ''  Att= '' @ pad 4 (show_nat (unat n_attempts)) @
     ''  Resh= '' @ pad 4 (show_nat (unat n_reshapes)) @ ''  NoResh= '' @ pad 4 (show_int (n_attempts - n_reshapes)) @
     ''  Cubes= '' @ pad 3 (show_int curr_size) @ ''  ('' @ show_int gain @ '')'' @ [newline]"

definition exorlink2 :: "cube32 policy \<Rightarrow> bool \<Rightarrow> exorcism_mngr \<Rightarrow> (exorcism_mngr \<times> u32 \<times> string) option" where
  "exorlink2 P verbose m =
     do { let old_size = n_cubes m;
          pairs \<leftarrow> vec_at (m_pairs m) 0;
          (m', n_attempts, n_reshapes) \<leftarrow> repeat_step (length pairs) (exorlink2_step P) (m, 0, 0);
          let curr_size = n_cubes m';
          Some (m', old_size - curr_size,
                if verbose
                then pass_line ''ExorLink-2'' (length pairs) n_attempts n_reshapes curr_size (old_size - curr_size)
                else '''') }"

definition exorlink3 :: "cube32 policy \<Rightarrow> bool \<Rightarrow> exorcism_mngr \<Rightarrow> (exorcism_mngr \<times> u32 \<times> string) option" where
  "exorlink3 P verbose m =
     do { let old_size = n_cubes m;
          pairs \<leftarrow> vec_at (m_pairs m) 1;
          (m', n_attempts, n_reshapes) \<leftarrow> repeat_step (length pairs) (exorlink3_step P) (m, 0, 0);
          let curr_size = n_cubes m';
          Some (m', old_size - curr_size,
                if verbose
                then pass_line ''ExorLink-3'' (length pairs) n_attempts n_reshapes curr_size (old_size - curr_size)
                else '''') }"

text \<open>The constructor: every bucket empty, then the original cubes one by one.\<close>

definition exo_empty :: "nat \<Rightarrow> exorcism_mngr" where
  "exo_empty n_vars =
     \<lparr>m_cubes = replicate (n_vars + 1) uset_empty, m_n_vars = n_vars, m_pairs = [[], []],
      m_pairs_tmp = [[], []], m_pairs_bookmark = [0, 0, 0, 0], m_max_dist = 3\<rparr>"

fun exo_add_all :: "cube32 policy \<Rightarrow> cube32 list \<Rightarrow> exorcism_mngr \<Rightarrow> exorcism_mngr option" where
  "exo_add_all P [] m = Some m"
| "exo_add_all P (c # cs) m = do { (m', _) \<leftarrow> exo_add_cube P c True m; exo_add_all P cs m' }"

definition exo_init :: "cube32 policy \<Rightarrow> cube32 list \<Rightarrow> nat \<Rightarrow> exorcism_mngr option" where
  "exo_init P original n_vars = exo_add_all P original (exo_empty n_vars)"

text \<open>The body of the loop of \<^verbatim>\<open>run\<close>: six times the two passes, the gains added up.\<close>

fun passes :: "cube32 policy \<Rightarrow> bool \<Rightarrow> nat \<Rightarrow> u32 \<Rightarrow> exorcism_mngr \<Rightarrow> (exorcism_mngr \<times> u32 \<times> string) option" where
  "passes P verbose 0 gain m = Some (m, gain, '''')"
| "passes P verbose (Suc k) gain m =
     do { (m1, g2, out2) \<leftarrow> exorlink2 P verbose m;
          (m2, g3, out3) \<leftarrow> exorlink3 P verbose m1;
          (m3, gain', out) \<leftarrow> passes P verbose k (gain + g2 + g3) m2;
          Some (m3, gain', out2 @ out3 @ out) }"

definition iteration_line :: "nat \<Rightarrow> string" where
  "iteration_line iteration = [newline] @ ''ITERATION: #'' @ pad 2 (show_nat iteration) @ [newline, newline]"

text \<open>The loop of \<^verbatim>\<open>run\<close>, with the value that \<^verbatim>\<open>iteration\<close> has when it ends; only the verbose mode counts.\<close>

partial_function (option) run_loop :: "cube32 policy \<Rightarrow> bool \<Rightarrow> nat \<Rightarrow> nat \<Rightarrow> exorcism_mngr \<Rightarrow>
    (exorcism_mngr \<times> nat \<times> string) option" where
  "run_loop P verbose without_improv iteration m =
     (let head = (if verbose then iteration_line iteration else '''');
          iteration = (if verbose then iteration + 1 else iteration)
      in Option.bind (passes P verbose 6 0 m) (\<lambda>(m', gain, out).
           let wi = (if sint gain > 0 then 0 else without_improv + 1)
           in if wi \<le> 2
              then Option.bind (run_loop P verbose wi iteration m') (\<lambda>(m'', iteration, out').
                     Some (m'', iteration, head @ out @ out'))
              else Some (m', iteration, head @ out)))"

declare run_loop.simps [code]

definition all_cubes :: "exorcism_mngr \<Rightarrow> cube32 list" where
  "all_cubes m = concat (map elems (m_cubes m))"

definition exo_run :: "cube32 policy \<Rightarrow> bool \<Rightarrow> exorcism_mngr \<Rightarrow> (cube32 list \<times> string) option" where
  "exo_run P verbose m =
     do { (m', _, out) \<leftarrow> run_loop P verbose 0 0 m;
          Some (all_cubes m', out @ (if verbose then [newline] else '''')) }"

fun exorcise_outputs :: "cube32 policy \<Rightarrow> bool \<Rightarrow> nat \<Rightarrow> cube32 list list \<Rightarrow>
    (cube32 list list \<times> string) option" where
  "exorcise_outputs P verbose n [] = Some ([], '''')"
| "exorcise_outputs P verbose n (esop # esops) =
     do { exor \<leftarrow> exo_init P esop n;
          (r, out) \<leftarrow> exo_run P verbose exor;
          (rs, outs) \<leftarrow> exorcise_outputs P verbose n esops;
          Some (r # rs, out @ outs) }"

text \<open>The minimised form, and what is printed.\<close>

definition exorcise :: "cube32 policy \<Rightarrow> bool \<Rightarrow> two_lvl32 \<Rightarrow> (two_lvl32 \<times> string) option" where
  "exorcise P verbose original =
     do { (ret, out) \<leftarrow> exorcise_outputs P verbose (n_inputs original) (cubes original);
          Some (\<lparr>kind = kind original, n_inputs = n_inputs original, cubes = ret\<rparr>,
                ''[i] Exorcism'' @ [newline] @ out) }"

end
