(* ===== verification/Exorcism_Store.thy ===== *)
theory Exorcism_Store
  imports Exorcism Esop_Rewriting
begin

text \<open>
  The buckets of the minimiser as one set of cubes. The bucket of a cube is decided by
  its number of literals; with that invariant the vector of buckets is itself an
  unordered set, and its contract is the one of \<open>Unordered_Set\<close>. The theory then states
  the invariant of the whole manager and what \<^verbatim>\<open>add_cube\<close> does to it: a sequence of
  steps of \<open>Esop_Rewriting\<close>.
\<close>

section \<open>The buckets\<close>

definition bucket_items :: "cube32 uset list \<Rightarrow> cube32 list" where
  "bucket_items bs = concat (map elems bs)"

definition bucket_find :: "cube32 \<Rightarrow> cube32 uset list \<Rightarrow> bool" where
  "bucket_find c bs = uset_find c (bs ! n_lits c)"

definition bucket_insert :: "cube32 policy \<Rightarrow> cube32 \<Rightarrow> cube32 uset list \<Rightarrow> cube32 uset list" where
  "bucket_insert P c bs = bs[n_lits c := uset_insert P c (bs ! n_lits c)]"

definition bucket_erase :: "cube32 \<Rightarrow> cube32 uset list \<Rightarrow> cube32 uset list" where
  "bucket_erase c bs = bs[n_lits c := uset_erase c (bs ! n_lits c)]"

definition bucket_inv :: "nat \<Rightarrow> cube32 uset list \<Rightarrow> bool" where
  "bucket_inv n bs \<longleftrightarrow> length bs = Suc n \<and>
     list_all (\<lambda>i. uset_inv (bs ! i) \<and> list_all (\<lambda>c. cube_ok n c \<and> n_lits c = i) (elems (bs ! i)))
       [0..<Suc n]"

lemma bucket_inv_iff:
  "bucket_inv n bs \<longleftrightarrow> length bs = Suc n \<and>
     (\<forall>i \<le> n. uset_inv (bs ! i) \<and> (\<forall>c \<in> set (elems (bs ! i)). cube_ok n c \<and> n_lits c = i))"
  by (simp add: bucket_inv_def list_all_iff less_Suc_eq_le Ball_def del: upt_Suc)

lemma bucket_invD:
  assumes "bucket_inv n bs"
  shows "length bs = Suc n"
    and "i \<le> n \<Longrightarrow> uset_inv (bs ! i)"
    and "i \<le> n \<Longrightarrow> c \<in> set (elems (bs ! i)) \<Longrightarrow> cube_ok n c"
    and "i \<le> n \<Longrightarrow> c \<in> set (elems (bs ! i)) \<Longrightarrow> n_lits c = i"
  using assms unfolding bucket_inv_iff by blast+

lemma bucket_inv_length: "bucket_inv n bs \<Longrightarrow> cube_ok n c \<Longrightarrow> n_lits c < length bs"
  by (simp add: bucket_inv_iff n_lits_le less_Suc_eq_le)

lemma bucket_items_nth:
  "c \<in> set (bucket_items bs) \<longleftrightarrow> (\<exists>i < length bs. c \<in> set (elems (bs ! i)))"
  by (simp add: bucket_items_def) (metis in_set_conv_nth)

lemma bucket_items_ok:
  "bucket_inv n bs \<Longrightarrow> c \<in> set (bucket_items bs) \<Longrightarrow> cube_ok n c"
  by (auto simp: bucket_items_nth bucket_inv_iff less_Suc_eq_le)

lemma bucket_items_at:
  "bucket_inv n bs \<Longrightarrow> c \<in> set (bucket_items bs) \<longleftrightarrow> n_lits c \<le> n \<and> c \<in> set (elems (bs ! n_lits c))"
  by (auto simp: bucket_items_nth bucket_inv_iff less_Suc_eq_le)

lemma mset_bucket_update:
  "i < length bs \<Longrightarrow>
   mset (bucket_items (bs[i := b])) + mset (elems (bs ! i)) = mset (bucket_items bs) + mset (elems b)"
  unfolding bucket_items_def map_update
  using mset_concat_update [of i "map elems bs" "elems b"] by simp

lemma distinct_concat_keyed:
  assumes "distinct is"
    and "\<And>i. i \<in> set is \<Longrightarrow> distinct (f i)"
    and key: "\<And>i x. i \<in> set is \<Longrightarrow> x \<in> set (f i) \<Longrightarrow> key x = i"
  shows "distinct (concat (map f is))"
  using assms
proof (induction "is")
  case (Cons i "is")
  have "x \<notin> set (concat (map f is))" if "x \<in> set (f i)" for x
  proof
    assume "x \<in> set (concat (map f is))"
    then obtain j where "j \<in> set is" "x \<in> set (f j)" by auto
    with that Cons.prems(1) Cons.prems(3) [of i x] Cons.prems(3) [of j x] show False by auto
  qed
  moreover have "distinct (concat (map f is))"
    by (rule Cons.IH) (use Cons.prems in auto)
  ultimately show ?case using Cons.prems(2) [of i] by auto
qed simp

lemma bucket_items_upt: "bucket_items bs = concat (map (\<lambda>i. elems (bs ! i)) [0..<length bs])"
proof -
  have "map elems bs = map (\<lambda>i. elems (bs ! i)) [0..<length bs]"
    by (rule nth_equalityI) simp_all
  then show ?thesis by (simp only: bucket_items_def)
qed

lemma distinct_bucket_items:
  assumes "bucket_inv n bs"
  shows "distinct (bucket_items bs)"
  unfolding bucket_items_upt
proof (rule distinct_concat_keyed [where key = n_lits])
  fix i assume "i \<in> set [0..<length bs]"
  then have i: "i \<le> n" by (simp add: bucket_invD(1) [OF assms] del: upt_Suc)
  show "distinct (elems (bs ! i))"
    using bucket_invD(2) [OF assms i] by (simp add: uset_inv_def)
  show "n_lits c = i" if "c \<in> set (elems (bs ! i))" for c
    using bucket_invD(4) [OF assms i that] .
qed simp

lemma bucket_inv_update:
  assumes "bucket_inv n bs" and "uset_inv b" and "\<And>c. c \<in> set (elems b) \<Longrightarrow> cube_ok n c \<and> n_lits c = i"
  shows "bucket_inv n (bs[i := b])"
proof -
  have "uset_inv (bs[i := b] ! j) \<and> (\<forall>c \<in> set (elems (bs[i := b] ! j)). cube_ok n c \<and> n_lits c = j)"
    if j: "j \<le> n" for j
  proof (cases "j = i")
    case True
    then have "bs[i := b] ! j = b" using assms(1) j by (simp add: bucket_inv_iff)
    then show ?thesis using assms(2,3) True by metis
  next
    case False
    then have "bs[i := b] ! j = bs ! j" by simp
    then show ?thesis using assms(1) j unfolding bucket_inv_iff by metis
  qed
  then show ?thesis using assms(1) unfolding bucket_inv_iff length_list_update by blast
qed

lemma bucket_inv_empty: "bucket_inv n (replicate (Suc n) uset_empty)"
  by (simp add: bucket_inv_iff less_Suc_eq_le del: replicate_Suc)

lemma bucket_items_empty: "bucket_items (replicate k uset_empty) = []"
  by (simp add: bucket_items_def)

lemma bucket_at:
  assumes "bucket_inv n bs" and "cube_ok n c"
  shows "uset_inv (bs ! n_lits c)"
    and "d \<in> set (elems (bs ! n_lits c)) \<Longrightarrow> cube_ok n d \<and> n_lits d = n_lits c"
    and "bucket_find c bs \<longleftrightarrow> c \<in> set (bucket_items bs)"
  using assms(1) n_lits_le [OF assms(2)]
  by (simp_all add: bucket_inv_iff bucket_find_def bucket_items_at [OF assms(1)] uset_find_iff)

lemma bucket_inv_insert:
  assumes "bucket_inv n bs" and "cube_ok n c"
  shows "bucket_inv n (bucket_insert P c bs)"
  unfolding bucket_insert_def
proof (rule bucket_inv_update [OF assms(1)])
  note b = bucket_at [OF assms]
  show "uset_inv (uset_insert P c (bs ! n_lits c))" by (rule us.inv_insert [OF b(1) TrueI])
  show "cube_ok n d \<and> n_lits d = n_lits c" if "d \<in> set (elems (uset_insert P c (bs ! n_lits c)))" for d
    using that b(2) assms(2) by (auto simp: us.set_insert [OF b(1) TrueI])
qed

lemma bucket_inv_erase:
  assumes "bucket_inv n bs" and "cube_ok n c"
  shows "bucket_inv n (bucket_erase c bs)"
  unfolding bucket_erase_def
proof (rule bucket_inv_update [OF assms(1)])
  note b = bucket_at [OF assms]
  show "uset_inv (uset_erase c (bs ! n_lits c))" by (rule us.inv_erase [OF b(1) TrueI])
  show "cube_ok n d \<and> n_lits d = n_lits c" if "d \<in> set (elems (uset_erase c (bs ! n_lits c)))" for d
    using that b(2) by (simp add: us.set_erase [OF b(1) TrueI])
qed

lemma mset_bucket_insert:
  assumes "bucket_inv n bs" and "cube_ok n c" and "\<not> bucket_find c bs"
  shows "mset (bucket_items (bucket_insert P c bs)) = add_mset c (mset (bucket_items bs))"
  using mset_bucket_update [OF bucket_inv_length [OF assms(1,2)], of "uset_insert P c (bs ! n_lits c)"]
    assms(3)
  by (simp add: bucket_insert_def bucket_find_def mset_uset_insert)

lemma mset_bucket_erase:
  assumes "bucket_inv n bs" and "cube_ok n c"
  shows "mset (bucket_items (bucket_erase c bs)) = mset (bucket_items bs) - {#c#}"
proof (cases "c \<in> set (elems (bs ! n_lits c))")
  case True
  then have "mset (elems (bs ! n_lits c)) = add_mset c (mset (remove1 c (elems (bs ! n_lits c))))"
    by simp
  with mset_bucket_update [OF bucket_inv_length [OF assms], of "uset_erase c (bs ! n_lits c)"]
  have "add_mset c (mset (bucket_items (bucket_erase c bs))) + mset (remove1 c (elems (bs ! n_lits c))) =
      mset (bucket_items bs) + mset (remove1 c (elems (bs ! n_lits c)))"
    by (simp only: bucket_erase_def elems_uset_erase union_mset_add_mset_left union_mset_add_mset_right)
  then have "add_mset c (mset (bucket_items (bucket_erase c bs))) = mset (bucket_items bs)"
    by (rule add_right_imp_eq)
  then show ?thesis by (metis add_mset_remove_trivial)
next
  case False
  then have "uset_erase c (bs ! n_lits c) = bs ! n_lits c"
    by (simp add: uset_erase_def remove1_idem)
  with False show ?thesis
    using bucket_at(3) [OF assms]
    by (simp add: bucket_erase_def bucket_find_def uset_find_iff diff_single_trivial)
qed

lemma bucket_insert_present: "bucket_find c bs \<Longrightarrow> bucket_insert P c bs = bs"
  by (simp add: bucket_find_def bucket_insert_def uset_insert_def)

interpretation bk: parity_set "replicate (Suc n) uset_empty" "bucket_insert P" bucket_erase bucket_find
    bucket_items "bucket_inv n" "cube_ok n" "\<lambda>v c. cube_eval c v" esop_eval
  for n :: nat and P :: "cube32 policy"
  by (unfold_locales; (rule bucket_inv_empty bucket_items_empty esop_eval_parity)?;
      simp only: bucket_inv_insert bucket_inv_erase distinct_bucket_items bucket_at(3)
        bucket_insert_present mset_bucket_insert mset_bucket_erase not_False_eq_True)

section \<open>The invariant of the manager\<close>

text \<open>
  No two of the cubes are at distance 1 (at distance 0 they are the same cube): a product
  that could be merged has been. A queue \<open>q\<close> holds pairs of cubes at distance \<open>q + 2\<close>,
  which the reshaping relies on.
\<close>

definition far_apart :: "cube32 list \<Rightarrow> bool" where
  "far_apart cs = list_all (\<lambda>c. list_all (\<lambda>d. c = d \<or> 2 \<le> distance c d) cs) cs"

definition pairs_ok :: "nat \<Rightarrow> nat \<Rightarrow> cube_pair list \<Rightarrow> bool" where
  "pairs_ok n q ps = list_all (\<lambda>(a, b). cube_ok n a \<and> cube_ok n b \<and> distance a b = q + 2) ps"

definition queues_ok :: "nat \<Rightarrow> cube_pair list list \<Rightarrow> bool" where
  "queues_ok n qs \<longleftrightarrow> length qs = 2 \<and> pairs_ok n 0 (qs ! 0) \<and> pairs_ok n 1 (qs ! 1)"

definition exo_inv :: "nat \<Rightarrow> exorcism_mngr \<Rightarrow> bool" where
  "exo_inv n m \<longleftrightarrow> n \<le> 32 \<and> m_n_vars m = n \<and> m_max_dist m = 3 \<and>
     bucket_inv n (m_cubes m) \<and> far_apart (all_cubes m) \<and> queues_ok n (m_pairs m) \<and>
     length (m_pairs_tmp m) = 2 \<and> length (m_pairs_bookmark m) = 4"

lemma far_apart_iff: "far_apart cs \<longleftrightarrow> (\<forall>c \<in> set cs. \<forall>d \<in> set cs. c = d \<or> 2 \<le> distance c d)"
  by (simp add: far_apart_def list_all_iff)

lemma far_apart_subset: "far_apart cs \<Longrightarrow> set ds \<subseteq> set cs \<Longrightarrow> far_apart ds"
  unfolding far_apart_iff by blast

lemma far_apart_insert:
  "far_apart cs \<Longrightarrow> set ds = insert c (set cs) \<Longrightarrow> (\<And>d. d \<in> set cs \<Longrightarrow> 2 \<le> distance c d) \<Longrightarrow> far_apart ds"
  unfolding far_apart_iff by (metis distance_sym insert_iff)

lemma pairs_ok_simps [simp]:
  "pairs_ok n q []"
  "pairs_ok n q (p # ps) \<longleftrightarrow> (cube_ok n (fst p) \<and> cube_ok n (snd p) \<and> distance (fst p) (snd p) = q + 2) \<and> pairs_ok n q ps"
  "pairs_ok n q (ps @ ps') \<longleftrightarrow> pairs_ok n q ps \<and> pairs_ok n q ps'"
  by (auto simp: pairs_ok_def split_beta)

lemma pairs_ok_take: "pairs_ok n q ps \<Longrightarrow> pairs_ok n q (take k ps)"
  by (auto simp: pairs_ok_def list_all_iff dest: in_set_takeD)

lemma queues_ok_nth: "queues_ok n qs \<Longrightarrow> q < 2 \<Longrightarrow> pairs_ok n q (qs ! q)"
  by (auto simp: queues_ok_def less_2_cases_iff)

lemma queues_ok_update:
  "queues_ok n qs \<Longrightarrow> pairs_ok n q ps \<Longrightarrow> queues_ok n (qs[q := ps])"
  by (cases "q = 0"; cases "q = 1") (auto simp: queues_ok_def)

lemma all_cubes_items: "all_cubes m = bucket_items (m_cubes m)"
  by (simp add: all_cubes_def bucket_items_def)

lemma bucket_sum_items: "bucket_sum bs = length (bucket_items bs)"
  by (simp add: bucket_sum_def bucket_items_def)

section \<open>The scan\<close>

lemma scan_range_eq:
  assumes "m_max_dist m = 3" and "n_lits c \<le> 32"
  shows "scan_range m c = [n_lits c - 3 ..< Suc (min (m_n_vars m) (n_lits c + 3))]"
proof -
  have "unat (of_nat (n_lits c) + 3 :: u32) = n_lits c + 3"
    using assms(2) by (simp add: unat_word_ariths unat_of_nat)
  moreover have "sint (of_nat (n_lits c) - 3 :: u32) = int (n_lits c) - 3"
  proof -
    have "(of_nat (n_lits c) - 3 :: u32) = of_int (int (n_lits c) - 3)" by simp
    moreover have "signed_take_bit 31 (int (n_lits c) - 3) = int (n_lits c) - 3"
      using assms(2) by (intro signed_take_bit_int_eq_self) auto
    ultimately show ?thesis by (simp only: signed_of_int) simp
  qed
  then have "nat (max (sint (of_nat (n_lits c) - 3 :: u32)) 0) = n_lits c - 3"
    by simp
  ultimately show ?thesis by (simp only: scan_range_def assms(1) Let_def)
qed

lemma scan_bucket_spec:
  assumes "cube_ok n c" and "\<And>d. d \<in> set its \<Longrightarrow> cube_ok n d" and "queues_ok n tmp"
  obtains v tmp' where "scan_bucket 3 c i its tmp = Some (v, tmp')" and "queues_ok n tmp'"
    and "v = Miss \<Longrightarrow> \<forall>d \<in> set its. 2 \<le> distance c d"
  using assms(2,3)
proof (induction its arbitrary: tmp thesis)
  case Nil
  then show ?case by simp
next
  case (Cons it its)
  show ?case
  proof (cases "distance c it \<le> 1")
    case True
    then have "distance c it = 0 \<or> distance c it = 1" by arith
    with Cons.prems(1) [of "Cancel i it" tmp] Cons.prems(1) [of "Merge i it" tmp] Cons.prems(3)
    show ?thesis by (auto simp: Let_def)
  next
    case False
    define tmp1 where "tmp1 = (if distance c it \<le> 3
      then tmp[distance c it - 2 := tmp ! (distance c it - 2) @ [(c, it)]] else tmp)"
    have len: "length tmp = 2" using Cons.prems(3) by (simp add: queues_ok_def)
    have step: "scan_bucket 3 c i (it # its) tmp = scan_bucket 3 c i its tmp1"
      using False len by (auto simp: Let_def tmp1_def vec_simps)
    have "pairs_ok n (distance c it - 2) (tmp ! (distance c it - 2) @ [(c, it)])"
      if "distance c it \<le> 3"
      using that False queues_ok_nth [OF Cons.prems(3), of "distance c it - 2"] assms(1) Cons.prems(2) [of it]
      by simp
    then have "queues_ok n tmp1"
      unfolding tmp1_def using Cons.prems(3) by (simp add: queues_ok_update)
    then obtain v tmp' where "scan_bucket 3 c i its tmp1 = Some (v, tmp')" "queues_ok n tmp'"
      "v = Miss \<Longrightarrow> \<forall>d \<in> set its. 2 \<le> distance c d"
      using Cons.IH [of tmp1] Cons.prems(2) by auto
    with step False show ?thesis by (intro Cons.prems(1) [of v tmp']) auto
  qed
qed

lemma scan_buckets_spec:
  assumes "cube_ok n c" and "bucket_inv n bs" and "\<And>i. i \<in> set is \<Longrightarrow> i \<le> n" and "queues_ok n tmp"
  obtains v tmp' where "scan_buckets 3 c bs is tmp = Some (v, tmp')" and "queues_ok n tmp'"
    and "v = Miss \<Longrightarrow> \<forall>i \<in> set is. \<forall>d \<in> set (elems (bs ! i)). 2 \<le> distance c d"
  using assms(3,4)
proof (induction "is" arbitrary: tmp thesis)
  case Nil
  then show ?case by simp
next
  case (Cons i "is")
  have i: "i \<le> n" using Cons.prems(2) by simp
  obtain v1 tmp1 where sb: "scan_bucket 3 c i (elems (bs ! i)) tmp = Some (v1, tmp1)" "queues_ok n tmp1"
      "v1 = Miss \<Longrightarrow> \<forall>d \<in> set (elems (bs ! i)). 2 \<le> distance c d"
    using scan_bucket_spec [OF assms(1) bucket_invD(3) [OF assms(2) i] Cons.prems(3)] by metis
  have at: "vec_at bs i = Some (bs ! i)"
    using i by (simp add: vec_simps bucket_invD(1) [OF assms(2)])
  show ?case
  proof (cases "v1 = Miss")
    case True
    obtain v tmp' where "scan_buckets 3 c bs is tmp1 = Some (v, tmp')" "queues_ok n tmp'"
        "v = Miss \<Longrightarrow> \<forall>i \<in> set is. \<forall>d \<in> set (elems (bs ! i)). 2 \<le> distance c d"
      using Cons.IH [OF _ _ sb(2)] Cons.prems(2) by (metis list.set_intros(2))
    with sb True at show ?thesis by (intro Cons.prems(1) [of v tmp']) auto
  next
    case False
    with sb at show ?thesis by (intro Cons.prems(1) [of v1 tmp1]) (auto split: verdict.splits)
  qed
qed

lemma append_pairs_spec:
  assumes "queues_ok n tmp" and "queues_ok n pairs"
  shows "m_max_dist m = 3 \<Longrightarrow> append_pairs (pair_dists m) tmp pairs =
      Some [pairs ! 0 @ tmp ! 0, pairs ! 1 @ tmp ! 1]"
    and "queues_ok n [pairs ! 0 @ tmp ! 0, pairs ! 1 @ tmp ! 1]"
proof -
  obtain t0 t1 where t: "tmp = [t0, t1]"
    using assms(1) by (auto simp: queues_ok_def length_Suc_conv numeral_2_eq_2)
  obtain p0 p1 where p: "pairs = [p0, p1]"
    using assms(2) by (auto simp: queues_ok_def length_Suc_conv numeral_2_eq_2)
  show "m_max_dist m = 3 \<Longrightarrow> append_pairs (pair_dists m) tmp pairs =
      Some [pairs ! 0 @ tmp ! 0, pairs ! 1 @ tmp ! 1]"
    by (simp add: pair_dists_def t p vec_simps upt_rec)
  show "queues_ok n [pairs ! 0 @ tmp ! 0, pairs ! 1 @ tmp ! 1]"
    using assms by (simp add: t p queues_ok_def)
qed

lemma clear_tmp_spec:
  assumes "length tmp = 2"
  shows "clear_tmp tmp = Some [[], []]" and "queues_ok n [[], []]"
proof -
  obtain t0 t1 where t: "tmp = [t0, t1]"
    using assms by (auto simp: length_Suc_conv numeral_2_eq_2)
  show "clear_tmp tmp = Some [[], []]" by (simp add: t clear_tmp_def vec_simps)
  show "queues_ok n [[], []]" by (simp add: queues_ok_def)
qed

text \<open>
  A scan that misses has looked at enough: every cube of the manager, not only those in
  the buckets of the range, is at distance 2 or more.
\<close>

lemma scan_miss_far:
  assumes "exo_inv n m" and "cube_ok n c"
    and "\<forall>i \<in> set (scan_range m c). \<forall>d \<in> set (elems (m_cubes m ! i)). 2 \<le> distance c d"
    and "d \<in> set (all_cubes m)"
  shows "2 \<le> distance c d"
proof -
  have inv: "bucket_inv n (m_cubes m)" and n: "n \<le> 32" "m_n_vars m = n" "m_max_dist m = 3"
    using assms(1) by (simp_all add: exo_inv_def)
  have d: "n_lits d \<le> n" "d \<in> set (elems (m_cubes m ! n_lits d))"
    using assms(4) by (simp_all add: all_cubes_items bucket_items_at [OF inv])
  have range: "scan_range m c = [n_lits c - 3 ..< Suc (min n (n_lits c + 3))]"
    using n n_lits_le [OF assms(2)] by (simp add: scan_range_eq)
  have "n_lits c \<le> n_lits d + distance c d" "n_lits d \<le> n_lits c + distance c d"
    using n_lits_distance [of c d] n_lits_distance [of d c] by (simp_all add: distance_sym)
  then have "n_lits d \<in> set (scan_range m c) \<or> 3 < distance c d"
    using d(1) by (auto simp: range less_Suc_eq_le simp del: upt_Suc)
  then show ?thesis using assms(3) d(2) by auto
qed

section \<open>Adding a cube\<close>

text \<open>
  What \<^verbatim>\<open>add_cube(c, add)\<close> leaves behind: the invariant, the bookmarks and the old
  contents of the queues; and, if the cube was added or a gain \<open>r\<close> is reported, cubes
  that the held ones and \<open>c\<close> can be rewritten to, one more less the gain, else the cubes
  as they were.
\<close>

definition exo_func :: "exorcism_mngr \<Rightarrow> (nat \<Rightarrow> bool) \<Rightarrow> bool" where
  "exo_func m v = esop_eval v (all_cubes m)"

definition n_all :: "exorcism_mngr \<Rightarrow> nat" where
  "n_all m = length (all_cubes m)"

definition keeps_queues :: "exorcism_mngr \<Rightarrow> exorcism_mngr \<Rightarrow> bool" where
  "keeps_queues m m' \<longleftrightarrow> m_pairs_bookmark m' = m_pairs_bookmark m \<and>
     (\<forall>q < 2. take (length (m_pairs m ! q)) (m_pairs m' ! q) = m_pairs m ! q)"

definition held :: "exorcism_mngr \<Rightarrow> cube32 multiset" where
  "held m = mset (all_cubes m)"

definition added :: "nat \<Rightarrow> cube32 \<Rightarrow> exorcism_mngr \<Rightarrow> exorcism_mngr \<Rightarrow> nat \<Rightarrow> bool" where
  "added n c m m' r \<longleftrightarrow> esop_steps n (add_mset c (held m)) (held m') \<and> n_all m' + r = Suc (n_all m)"

lemma parity_held: "parity v (held m) = exo_func m v"
  by (simp add: held_def exo_func_def)

lemma steps_func: "esop_steps n (held m) (held m') \<Longrightarrow> exo_func m' v = exo_func m v"
  unfolding parity_held [symmetric] by (rule esop_steps_parity)

lemma added_func: "added n c m m' r \<Longrightarrow> exo_func m' v = (exo_func m v \<noteq> cube_eval c v)"
  using esop_steps_parity [of n "add_mset c (held m)" "held m'" v] by (auto simp: added_def parity_held)

lemma size_held: "size (held m) = n_all m"
  by (simp add: held_def n_all_def)

lemma held_cong: "m_cubes m' = m_cubes m \<Longrightarrow> held m' = held m \<and> n_all m' = n_all m \<and> all_cubes m' = all_cubes m"
  by (simp add: held_def n_all_def all_cubes_def)

lemma exo_inv_cubes:
  assumes "exo_inv n m"
  shows "bucket_inv n (m_cubes m)" and "far_apart (all_cubes m)" and "queues_ok n (m_pairs m)"
    and "length (m_pairs_tmp m) = 2" and "m_max_dist m = 3" and "m_n_vars m = n" and "n \<le> 32"
  using assms by (simp_all add: exo_inv_def)

lemma exo_inv_upd:
  assumes "exo_inv n m" and "bucket_inv n bs" and "far_apart (bucket_items bs)"
    and "queues_ok n qs" and "length tmp = 2"
  shows "exo_inv n (m\<lparr>m_cubes := bs, m_pairs := qs, m_pairs_tmp := tmp\<rparr>)"
  using assms by (simp add: exo_inv_def all_cubes_items)

text \<open>Taking out a cube that is there.\<close>

lemma erase_at:
  assumes inv: "exo_inv n m" and i: "i < length (m_cubes m)" and it: "it \<in> set (elems (m_cubes m ! i))"
  defines "bs \<equiv> bucket_erase it (m_cubes m)"
  shows "cube_ok n it" and "vec_modify i (uset_erase it) (m_cubes m) = Some bs"
    and "bucket_inv n bs" and "far_apart (bucket_items bs)"
    and "held m = add_mset it (mset (bucket_items bs))"
    and "set (bucket_items bs) = set (all_cubes m) - {it}"
proof -
  note b = exo_inv_cubes(1) [OF inv]
  have i': "i \<le> n" using i by (simp add: bucket_invD(1) [OF b])
  show ok: "cube_ok n it" by (rule bucket_invD(3) [OF b i' it])
  have lits: "n_lits it = i" by (rule bucket_invD(4) [OF b i' it])
  show "vec_modify i (uset_erase it) (m_cubes m) = Some bs"
    using i by (simp add: bs_def bucket_erase_def lits vec_simps)
  have found: "bucket_find it (m_cubes m)"
    using it by (simp add: bucket_find_def lits uset_find_iff)
  show "bucket_inv n bs" unfolding bs_def by (rule bk.inv_erase [OF b ok])
  show set: "set (bucket_items bs) = set (all_cubes m) - {it}"
    unfolding bs_def all_cubes_items by (rule bk.set_erase [OF b ok])
  show "far_apart (bucket_items bs)"
    by (rule far_apart_subset [OF exo_inv_cubes(2) [OF inv]]) (simp add: set)
  have "it \<in># held m"
    using found by (simp add: held_def all_cubes_items bk.find_iff [OF b ok])
  then show "held m = add_mset it (mset (bucket_items bs))"
    unfolding bs_def mset_bucket_erase [OF b ok] by (simp add: held_def all_cubes_items)
qed

text \<open>Putting in a cube that is at distance 2 or more from each cube there.\<close>

lemma insert_at:
  fixes P :: "cube32 policy"
  assumes b: "bucket_inv n bs" and far: "far_apart (bucket_items bs)" and ok: "cube_ok n c"
    and dist: "\<And>d. d \<in> set (bucket_items bs) \<Longrightarrow> 2 \<le> distance c d"
  defines "bs' \<equiv> bucket_insert P c bs"
  shows "vec_modify (n_lits c) (uset_insert P c) bs = Some bs'"
    and "bucket_inv n bs'" and "far_apart (bucket_items bs')"
    and "mset (bucket_items bs') = add_mset c (mset (bucket_items bs))"
    and "set (bucket_items bs') = insert c (set (bucket_items bs))"
proof -
  have "c \<notin> set (bucket_items bs)"
    using dist [of c] distance_0_iff [of c c] cube_ok_canonical [OF ok] by auto
  then have nf: "\<not> bucket_find c bs" by (simp add: bk.find_iff [OF b ok])
  show "vec_modify (n_lits c) (uset_insert P c) bs = Some bs'"
    using bucket_inv_length [OF b ok] by (simp add: bs'_def bucket_insert_def vec_simps)
  show "bucket_inv n bs'" unfolding bs'_def by (rule bk.inv_insert [OF b ok])
  show set: "set (bucket_items bs') = insert c (set (bucket_items bs))"
    unfolding bs'_def by (rule bk.set_insert [OF b ok])
  show "far_apart (bucket_items bs')"
    by (rule far_apart_insert [OF far set dist])
  show "mset (bucket_items bs') = add_mset c (mset (bucket_items bs))"
    unfolding bs'_def by (rule mset_bucket_insert [OF b ok nf])
qed

lemma keeps_queues_refl: "keeps_queues m (m\<lparr>m_cubes := bs, m_pairs_tmp := tmp\<rparr>)"
  by (simp add: keeps_queues_def)

lemma keeps_queues_append:
  assumes "queues_ok n (m_pairs m)"
  shows "keeps_queues m (m\<lparr>m_cubes := bs, m_pairs := [m_pairs m ! 0 @ ps, m_pairs m ! 1 @ qs], m_pairs_tmp := tmp\<rparr>)"
  by (auto simp: keeps_queues_def less_2_cases_iff)

definition add_post :: "nat \<Rightarrow> cube32 \<Rightarrow> bool \<Rightarrow> exorcism_mngr \<Rightarrow> exorcism_mngr \<Rightarrow> nat \<Rightarrow> bool" where
  "add_post n c add m m' r \<longleftrightarrow> exo_inv n m' \<and> keeps_queues m m' \<and>
     (if add \<or> r > 0 then added n c m m' r else m_cubes m' = m_cubes m)"

lemma add_postD:
  assumes "add_post n c add m m' r"
  shows "exo_inv n m'" and "keeps_queues m m'"
    and "add \<or> r > 0 \<Longrightarrow> added n c m m' r" and "\<not> (add \<or> r > 0) \<Longrightarrow> m_cubes m' = m_cubes m"
  using assms by (simp_all add: add_post_def)

text \<open>The scan of the manager, and what the three verdicts lead to.\<close>

definition scans :: "exorcism_mngr \<Rightarrow> cube32 \<Rightarrow> verdict \<Rightarrow> cube_pair list list \<Rightarrow> bool" where
  "scans m c v tmp \<longleftrightarrow> clear_tmp (m_pairs_tmp m) = Some [[], []] \<and>
     scan_buckets (m_max_dist m) c (m_cubes m) (scan_range m c) [[], []] = Some (v, tmp)"

lemma scan_spec:
  assumes inv: "exo_inv n m" and ok: "cube_ok n c"
  obtains v tmp where "scans m c v tmp" and "queues_ok n tmp"
    and "v = Miss \<Longrightarrow> \<forall>d \<in> set (all_cubes m). 2 \<le> distance c d"
    and "verdict_found c (\<lambda>i it. i < length (m_cubes m) \<and> it \<in> set (elems (m_cubes m ! i))) v"
proof -
  note parts = exo_inv_cubes [OF inv]
  have range: "i \<le> n" if "i \<in> set (scan_range m c)" for i
    using that parts n_lits_le [OF ok] by (auto simp: scan_range_eq simp del: upt_Suc)
  obtain v tmp where scan: "scan_buckets 3 c (m_cubes m) (scan_range m c) [[], []] = Some (v, tmp)" "queues_ok n tmp"
    and miss: "v = Miss \<Longrightarrow> \<forall>i \<in> set (scan_range m c). \<forall>d \<in> set (elems (m_cubes m ! i)). 2 \<le> distance c d"
    using scan_buckets_spec [OF ok parts(1) range clear_tmp_spec(2) [OF parts(4)]] by metis
  show thesis
  proof (rule that [of v tmp])
    show "scans m c v tmp" using scan(1) clear_tmp_spec(1) [OF parts(4)] by (simp add: scans_def parts(5))
    show "\<forall>d \<in> set (all_cubes m). 2 \<le> distance c d" if "v = Miss"
      using scan_miss_far [OF inv ok miss [OF that]] by blast
  qed (rule scan(2) scan_buckets_found [OF scan(1)])+
qed

lemma add_miss:
  assumes inv: "exo_inv n m" and ok: "cube_ok n c" and sc: "scans m c Miss tmp" and qt: "queues_ok n tmp"
    and far: "\<forall>d \<in> set (all_cubes m). 2 \<le> distance c d"
  shows "\<exists>m'. exo_add_cube P c add m = Some (m', 0) \<and> add_post n c add m m' 0"
proof -
  note parts = exo_inv_cubes [OF inv]
  define qs where "qs = [m_pairs m ! 0 @ tmp ! 0, m_pairs m ! 1 @ tmp ! 1]"
  have ap: "append_pairs (pair_dists m) tmp (m_pairs m) = Some qs" and qq: "queues_ok n qs"
    unfolding qs_def by (rule append_pairs_spec [OF qt parts(3)] parts(5))+
  have lt: "length tmp = 2" using qt by (simp add: queues_ok_def)
  note ins = insert_at [OF parts(1) parts(2) [unfolded all_cubes_items] ok bspec [OF far, unfolded all_cubes_items]]
  define bs where "bs = (if add then bucket_insert P c (m_cubes m) else m_cubes m)"
  define m' where "m' = m\<lparr>m_cubes := bs, m_pairs := qs, m_pairs_tmp := tmp\<rparr>"
  have "exo_add_cube P c add m = Some (m', 0)"
    using sc ins(1) by (simp add: exo_add_cube.simps [of P c add m] scans_def ap m'_def bs_def)
  moreover have "exo_inv n m'"
    unfolding m'_def using ins(2,3) parts(1,2)
    by (intro exo_inv_upd [OF inv _ _ qq lt]) (simp_all add: bs_def all_cubes_items)
  moreover have "keeps_queues m m'"
    unfolding m'_def qs_def by (rule keeps_queues_append [OF parts(3)])
  moreover have "added n c m m' 0" if add
  proof -
    have "held m' = add_mset c (held m)"
      using that ins(4) by (simp add: m'_def bs_def held_def all_cubes_items)
    then show ?thesis by (simp add: added_def size_held [symmetric])
  qed
  ultimately show ?thesis by (auto simp: add_post_def m'_def bs_def)
qed

lemma add_cancel:
  assumes inv: "exo_inv n m" and ok: "cube_ok n c" and sc: "scans m c (Cancel i it) tmp" and qt: "queues_ok n tmp"
    and i: "i < length (m_cubes m)" "it \<in> set (elems (m_cubes m ! i))" and dist: "distance c it = 0"
  shows "\<exists>m'. exo_add_cube P c add m = Some (m', 2) \<and> add_post n c add m m' 2"
proof -
  note er = erase_at [OF inv i]
  have c: "it = c"
    using dist distance_0_iff [OF cube_ok_canonical [OF ok] cube_ok_canonical [OF er(1)]] by simp
  have lt: "length tmp = 2" using qt by (simp add: queues_ok_def)
  define m' where "m' = m\<lparr>m_cubes := bucket_erase it (m_cubes m), m_pairs_tmp := tmp[0 := []]\<rparr>"
  have "exo_add_cube P c add m = Some (m', 2)"
    using sc er(2) lt by (simp add: exo_add_cube.simps [of P c add m] scans_def m'_def vec_simps)
  moreover have "exo_inv n m'"
    using exo_inv_upd [OF inv er(3,4) exo_inv_cubes(3) [OF inv], of "tmp[0 := []]"] lt by (simp add: m'_def)
  moreover have "held m = add_mset c (held m')"
    using er(5) by (simp add: m'_def held_def all_cubes_items c)
  then have "added n c m m' 2"
    using esop_step.cancel [OF ok, of "held m'"] by (auto simp: added_def size_held [symmetric])
  ultimately show ?thesis by (auto simp: add_post_def m'_def intro: keeps_queues_refl)
qed

lemma add_merge:
  assumes inv: "exo_inv n m" and ok: "cube_ok n c" and sc: "scans m c (Merge i it) tmp" and qt: "queues_ok n tmp"
    and i: "i < length (m_cubes m)" "it \<in> set (elems (m_cubes m ! i))" and dist: "distance c it = 1"
  defines "m1 \<equiv> m\<lparr>m_cubes := bucket_erase it (m_cubes m), m_pairs_tmp := tmp\<rparr>"
  shows "vec_modify i (uset_erase it) (m_cubes m) = Some (m_cubes m1)"
    and "exo_inv n m1" and "cube_ok n (merge c it)"
    and "exo_add_cube P (merge c it) True m1 = Some (m', r) \<Longrightarrow> add_post n (merge c it) True m1 m' r \<Longrightarrow>
      exo_add_cube P c add m = Some (m', r + 1) \<and> add_post n c add m m' (r + 1)"
proof -
  note er = erase_at [OF inv i]
  have lt: "length tmp = 2" using qt by (simp add: queues_ok_def)
  show "vec_modify i (uset_erase it) (m_cubes m) = Some (m_cubes m1)" using er(2) by (simp add: m1_def)
  show "exo_inv n m1" using exo_inv_upd [OF inv er(3,4) exo_inv_cubes(3) [OF inv] lt] by (simp add: m1_def)
  show "cube_ok n (merge c it)" using ok er(1) by (rule cube_ok_merge)
  assume rec: "exo_add_cube P (merge c it) True m1 = Some (m', r)" and post: "add_post n (merge c it) True m1 m' r"
  have "exo_add_cube P c add m = Some (m', r + 1)"
    using sc rec er(2) by (simp add: exo_add_cube.simps [of P c add m] scans_def m1_def)
  moreover have "keeps_queues m m'"
    using add_postD(2) [OF post] by (simp add: keeps_queues_def m1_def)
  moreover have held: "held m = add_mset it (held m1)"
    using er(5) by (simp add: m1_def held_def all_cubes_items)
  have "esop_steps n (add_mset c (held m)) (held m')"
    using esop_step.merge [OF ok er(1) dist, of "held m1"] add_postD(3) [OF post]
    unfolding held added_def by (meson converse_rtranclp_into_rtranclp)
  then have "added n c m m' (r + 1)"
    using add_postD(3) [OF post] held by (auto simp: added_def size_held [symmetric])
  ultimately show "exo_add_cube P c add m = Some (m', r + 1) \<and> add_post n c add m m' (r + 1)"
    using add_postD(1) [OF post] by (simp add: add_post_def)
qed

theorem exo_add_cube_spec:
  assumes "exo_inv n m" and "cube_ok n c"
  shows "\<exists>m' r. exo_add_cube P c add m = Some (m', r) \<and> add_post n c add m m' r"
  using assms
proof (induction P c add m rule: exo_add_cube.induct)
  case (1 P c add m)
  note inv = "1.prems"(1) and ok = "1.prems"(2)
  obtain v tmp where sc: "scans m c v tmp" and qt: "queues_ok n tmp"
    and miss: "v = Miss \<Longrightarrow> \<forall>d \<in> set (all_cubes m). 2 \<le> distance c d"
    and found: "verdict_found c (\<lambda>i it. i < length (m_cubes m) \<and> it \<in> set (elems (m_cubes m ! i))) v"
    by (rule scan_spec [OF inv ok]) (rule that)
  show ?case
  proof (cases v)
    case Miss
    with add_miss [OF inv ok _ qt miss, of P add] sc show ?thesis by blast
  next
    case (Cancel i it)
    with add_cancel [OF inv ok _ qt, of i it P add] sc found show ?thesis by auto
  next
    case (Merge i it)
    then have "i < length (m_cubes m)" "it \<in> set (elems (m_cubes m ! i))" "distance c it = 1"
      using found by simp_all
    note mg = add_merge [OF inv ok sc [unfolded Merge] qt this]
    have "\<exists>m' r. exo_add_cube P (merge c it) True (m\<lparr>m_cubes := bucket_erase it (m_cubes m), m_pairs_tmp := tmp\<rparr>) =
        Some (m', r) \<and> add_post n (merge c it) True (m\<lparr>m_cubes := bucket_erase it (m_cubes m), m_pairs_tmp := tmp\<rparr>) m' r"
      using "1.IH" [OF conjunct1 [OF sc [unfolded scans_def]] conjunct2 [OF sc [unfolded scans_def]] refl Merge mg(1)]
        mg(2,3) by simp
    with mg(4) [of P _ _ add] show ?thesis by blast
  qed
qed

end
