(* ===== verification/Exorcism_Correct.thy ===== *)
theory Exorcism_Correct
  imports Exorcism_Store
begin

text \<open>
  The passes of the minimiser. A pass never leaves a vector's range, keeps the invariant,
  only rewrites the cubes by the steps of \<open>Esop_Rewriting\<close> and never ends with more of them
  than it began with; a round of \<^verbatim>\<open>run\<close> that reports a gain has removed a cube, so
  \<^verbatim>\<open>run\<close> ends.
\<close>

section \<open>Bookmarks\<close>

definition booked :: "exorcism_mngr \<Rightarrow> bool" where
  "booked m \<longleftrightarrow> m_pairs_bookmark m ! 0 = length (m_pairs m ! 0) \<and>
     m_pairs_bookmark m ! 1 = length (m_pairs m ! 1)"

lemma keeps_queues_trans:
  "keeps_queues m1 m2 \<Longrightarrow> keeps_queues m2 m3 \<Longrightarrow> keeps_queues m1 m3"
proof -
  assume k: "keeps_queues m1 m2" "keeps_queues m2 m3"
  have "take (length (m_pairs m1 ! q)) (m_pairs m3 ! q) = m_pairs m1 ! q" if "q < 2" for q
  proof -
    have "length (m_pairs m1 ! q) \<le> length (m_pairs m2 ! q)"
      using k(1) that unfolding keeps_queues_def by (metis length_take min.cobounded1)
    then have "take (length (m_pairs m1 ! q)) (m_pairs m3 ! q) =
        take (length (m_pairs m1 ! q)) (take (length (m_pairs m2 ! q)) (m_pairs m3 ! q))"
      by (simp add: take_take min_absorb1)
    also have "\<dots> = take (length (m_pairs m1 ! q)) (m_pairs m2 ! q)"
      using k(2) that unfolding keeps_queues_def by metis
    also have "\<dots> = m_pairs m1 ! q" using k(1) that unfolding keeps_queues_def by metis
    finally show ?thesis .
  qed
  then show ?thesis using k by (simp add: keeps_queues_def)
qed

lemma list_of_2: "length xs = 2 \<Longrightarrow> xs = [xs ! 0, xs ! 1]"
  by (auto simp: length_Suc_conv numeral_2_eq_2)

lemma pairs_bookmark_spec:
  assumes "exo_inv n m"
  obtains m' where "pairs_bookmark m = Some m'" and "exo_inv n m'" and "booked m'"
    and "m_cubes m' = m_cubes m" and "m_pairs m' = m_pairs m"
proof -
  have len: "length (m_pairs m) = 2" "length (m_pairs_bookmark m) = 4"
    using assms by (auto simp: exo_inv_def queues_ok_def)
  let ?b = "(m_pairs_bookmark m)[0 := length (m_pairs m ! 0), 1 := length (m_pairs m ! 1)]"
  show thesis
  proof (rule that [of "m\<lparr>m_pairs_bookmark := ?b\<rparr>"])
    show "pairs_bookmark m = Some (m\<lparr>m_pairs_bookmark := ?b\<rparr>)"
      using len by (simp add: pairs_bookmark_def vec_simps)
    show "exo_inv n (m\<lparr>m_pairs_bookmark := ?b\<rparr>)"
      using assms by (simp add: exo_inv_def all_cubes_def)
    show "booked (m\<lparr>m_pairs_bookmark := ?b\<rparr>)"
      using len by (simp add: booked_def)
  qed simp_all
qed

text \<open>Rolling back after additions: exactly the queues of the bookmark.\<close>

lemma pairs_rollback_spec:
  assumes "exo_inv n m" and "exo_inv n m'" and "booked m" and "keeps_queues m m'"
  shows "pairs_rollback m' = Some (m'\<lparr>m_pairs := m_pairs m\<rparr>)"
    and "exo_inv n (m'\<lparr>m_pairs := m_pairs m\<rparr>)"
    and "keeps_queues m (m'\<lparr>m_pairs := m_pairs m\<rparr>)"
proof -
  have len: "length (m_pairs m) = 2" "length (m_pairs m') = 2" "length (m_pairs_bookmark m') = 4"
    using assms(1,2) by (auto simp: exo_inv_def queues_ok_def)
  have shrink: "vec_resize default_pair (m_pairs_bookmark m' ! q) (m_pairs m' ! q) = m_pairs m ! q"
    if "q < 2" for q
  proof -
    have b: "m_pairs_bookmark m' ! q = length (m_pairs m ! q)"
      using assms(3,4) that by (auto simp: booked_def keeps_queues_def less_2_cases_iff)
    have t: "take (length (m_pairs m ! q)) (m_pairs m' ! q) = m_pairs m ! q"
      using assms(4) that by (simp add: keeps_queues_def)
    then have "length (m_pairs m ! q) \<le> length (m_pairs m' ! q)"
      by (metis length_take min.cobounded1)
    with t b show ?thesis by (simp add: vec_simps)
  qed
  have "(m_pairs m')[0 := m_pairs m ! 0, 1 := m_pairs m ! 1] = m_pairs m"
    using len by (auto simp: list_eq_iff_nth_eq nth_list_update less_2_cases_iff)
  then show "pairs_rollback m' = Some (m'\<lparr>m_pairs := m_pairs m\<rparr>)"
    using len shrink [of 0] shrink [of 1] by (simp add: pairs_rollback_def vec_simps)
  show "exo_inv n (m'\<lparr>m_pairs := m_pairs m\<rparr>)"
    using assms(1,2) by (simp add: exo_inv_def all_cubes_def)
  show "keeps_queues m (m'\<lparr>m_pairs := m_pairs m\<rparr>)"
    using assms(4) by (simp add: keeps_queues_def)
qed

section \<open>Taking a pair out and putting it back\<close>

lemma erase_found_spec:
  assumes "exo_inv n m" and "cube_ok n c" and "bucket_find c (m_cubes m)"
  shows "erase_found (n_lits c) c (m_cubes m) = Some (bucket_erase c (m_cubes m))"
  using bucket_inv_length [OF exo_inv_cubes(1) [OF assms(1)] assms(2)] assms(3)
  by (simp add: erase_found_def bucket_find_def bucket_erase_def vec_simps)

text \<open>The state with cubes \<open>a\<close> and \<open>b\<close> taken out of \<open>m\<close>.\<close>

definition without_pair :: "nat \<Rightarrow> cube_pair \<Rightarrow> exorcism_mngr \<Rightarrow> exorcism_mngr \<Rightarrow> bool" where
  "without_pair n pr m m1 \<longleftrightarrow> exo_inv n m1 \<and> cube_ok n (fst pr) \<and> cube_ok n (snd pr) \<and>
     held m = add_mset (fst pr) (add_mset (snd pr) (held m1))"

lemma without_pair_cong:
  "without_pair n pr m m1 \<Longrightarrow> exo_inv n m2 \<Longrightarrow> m_cubes m2 = m_cubes m1 \<Longrightarrow> without_pair n pr m m2"
  using held_cong [of m2 m1] by (simp add: without_pair_def)

lemma without_pair_count: "without_pair n pr m m1 \<Longrightarrow> n_all m = n_all m1 + 2"
  by (simp add: without_pair_def size_held [symmetric])

text \<open>Both cubes of a pair that are there are taken out one after the other.\<close>

lemma erase_pair_spec:
  assumes inv: "exo_inv n m" and ab: "cube_ok n a" "cube_ok n b" "a \<noteq> b"
    and there: "bucket_find a (m_cubes m)" "bucket_find b (m_cubes m)"
  obtains bs bs' where "erase_found (n_lits a) a (m_cubes m) = Some bs"
    and "erase_found (n_lits b) b bs = Some bs'" and "without_pair n (a, b) m (m\<lparr>m_cubes := bs'\<rparr>)"
proof -
  note parts = exo_inv_cubes [OF inv]
  have la: "n_lits a < length (m_cubes m)" by (rule bucket_inv_length [OF parts(1) ab(1)])
  have ina: "b \<in> set (all_cubes m)"
    using there(2) ab(2) by (simp add: all_cubes_items bk.find_iff [OF parts(1)])
  have "a \<in> set (elems (m_cubes m ! n_lits a))"
    using there(1) by (simp add: bucket_find_def uset_find_iff)
  note era = erase_at [OF inv la this]
  define ma where "ma = m\<lparr>m_cubes := bucket_erase a (m_cubes m)\<rparr>"
  have ma: "exo_inv n ma"
    using inv era(3,4) by (simp add: ma_def exo_inv_def all_cubes_items)
  have "b \<in> set (all_cubes ma)"
    using ina ab(3) era(6) by (simp add: ma_def all_cubes_items)
  then have fb: "bucket_find b (m_cubes ma)"
    using ab(2) by (simp add: all_cubes_items bk.find_iff [OF exo_inv_cubes(1) [OF ma]])
  have lb: "n_lits b < length (m_cubes ma)"
    using bucket_inv_length [OF exo_inv_cubes(1) [OF ma] ab(2)] .
  have "b \<in> set (elems (m_cubes ma ! n_lits b))"
    using fb by (simp add: bucket_find_def uset_find_iff)
  note erb = erase_at [OF ma lb this]
  let ?mb = "m\<lparr>m_cubes := bucket_erase b (m_cubes ma)\<rparr>"
  have "exo_inv n ?mb"
    using ma erb(3,4) by (simp add: ma_def exo_inv_def all_cubes_items)
  then have "without_pair n (a, b) m ?mb"
    unfolding without_pair_def fst_conv snd_conv
    using ab era(5) erb(5) by (simp add: ma_def held_def all_cubes_items)
  then show thesis
    using erase_found_spec [OF inv ab(1) there(1)] erase_found_spec [OF ma ab(2) fb]
    by (intro that) (simp_all add: ma_def)
qed

lemma take_pair_spec:
  assumes inv: "exo_inv n m" and q: "q < 2" and front: "m_pairs m ! q = pr # rest"
  obtains m1 taken where "take_pair q m = Some (m1, taken)" and "exo_inv n m1"
    and "m_pairs m1 = (m_pairs m)[q := rest]"
    and "taken = None \<Longrightarrow> m_cubes m1 = m_cubes m"
    and "\<And>p. taken = Some p \<Longrightarrow> p = pr \<and> distance (fst pr) (snd pr) = q + 2 \<and>
      booked m1 \<and> without_pair n pr m m1"
proof -
  obtain a b where pr: "pr = (a, b)" by (cases pr)
  note parts = exo_inv_cubes [OF inv]
  have qlen: "length (m_pairs m) = 2" using parts(3) by (simp add: queues_ok_def)
  have ab: "cube_ok n a" "cube_ok n b" "distance a b = q + 2" and rest: "pairs_ok n q rest"
    using queues_ok_nth [OF parts(3) q] by (simp_all add: front pr)
  define m0 where "m0 = m\<lparr>m_pairs := (m_pairs m)[q := rest]\<rparr>"
  have m0: "exo_inv n m0" "m_cubes m0 = m_cubes m"
    using inv queues_ok_update [OF parts(3) rest] by (simp_all add: m0_def exo_inv_def all_cubes_def)
  have ats: "n_lits a < length (m_cubes m)" "n_lits b < length (m_cubes m)"
    using bucket_inv_length [OF parts(1)] ab by auto
  note unfold = take_pair_def vec_simps q qlen front pr ats m0_def [symmetric] bucket_find_def [symmetric]
  show thesis
  proof (cases "bucket_find a (m_cubes m) \<and> bucket_find b (m_cubes m)")
    case False
    then have "take_pair q m = Some (m0, None)"
      by (auto simp: unfold)
    with m0 show thesis by (intro that [of m0 None]) (simp_all add: m0_def)
  next
    case True
    have neq: "a \<noteq> b" using ab distance_0_iff [of a b] by (auto dest: cube_ok_canonical)
    obtain bs bs' where e: "erase_found (n_lits a) a (m_cubes m) = Some bs"
        "erase_found (n_lits b) b bs = Some bs'" "without_pair n (a, b) m0 (m0\<lparr>m_cubes := bs'\<rparr>)"
      using erase_pair_spec [OF m0(1) ab(1,2) neq] True unfolding m0(2) by blast
    have wo: "without_pair n pr m (m0\<lparr>m_cubes := bs'\<rparr>)" and i: "exo_inv n (m0\<lparr>m_cubes := bs'\<rparr>)"
      using e(3) held_cong [OF m0(2)] by (simp_all add: without_pair_def pr)
    obtain m1 where m1: "pairs_bookmark (m0\<lparr>m_cubes := bs'\<rparr>) = Some m1" "exo_inv n m1" "booked m1"
        "m_cubes m1 = bs'" "m_pairs m1 = m_pairs m0"
      using pairs_bookmark_spec [OF i] by auto
    have "take_pair q m = Some (m1, Some pr)"
      using True e(1,2) m1(1) by (simp add: unfold m0(2))
    then show thesis
      using m1 ab(3) without_pair_cong [OF wo m1(2)]
      by (intro that [of m1 "Some pr"]) (auto simp: pr m0_def)
  qed
qed

text \<open>What one step of a pass may do to the manager.\<close>

definition reshaped :: "nat \<Rightarrow> exorcism_mngr \<Rightarrow> exorcism_mngr \<Rightarrow> bool" where
  "reshaped n m m' \<longleftrightarrow> exo_inv n m' \<and> esop_steps n (held m) (held m') \<and> n_all m' \<le> n_all m"

lemma reshaped_trans: "reshaped n m1 m2 \<Longrightarrow> reshaped n m2 m3 \<Longrightarrow> reshaped n m1 m3"
  by (auto simp: reshaped_def intro: esop_steps_trans)

lemma reshaped_refl: "exo_inv n m' \<Longrightarrow> m_cubes m' = m_cubes m \<Longrightarrow> reshaped n m m'"
  using held_cong [of m' m] by (simp add: reshaped_def)

lemma reshaped_func: "reshaped n m m' \<Longrightarrow> exo_func m' v = exo_func m v"
  unfolding reshaped_def by (elim conjE) (rule steps_func)

lemma restore_pair_spec:
  assumes inv: "exo_inv n m" and wo: "without_pair n pr m m1"
  obtains m' where "restore_pair P pr m1 = Some m'" and "reshaped n m m'"
    and "m_pairs m' = m_pairs m1" and "m_pairs_bookmark m' = m_pairs_bookmark m1"
proof -
  obtain a b where pr: "pr = (a, b)" by (cases pr)
  have w: "exo_inv n m1" "cube_ok n a" "cube_ok n b"
    and held: "held m = add_mset a (add_mset b (held m1))"
    using wo by (simp_all add: without_pair_def pr)
  note p1 = exo_inv_cubes [OF w(1)]
  have eq: "mset (a # b # bucket_items (m_cubes m1)) = mset (all_cubes m)"
    using held by (simp add: held_def all_cubes_items)
  have far: "2 \<le> distance c d" if "c \<in> {a, b}" "d \<in> insert a (set (bucket_items (m_cubes m1)))" "c \<noteq> d" for c d
    using exo_inv_cubes(2) [OF inv] mset_eq_setD [OF eq] that unfolding far_apart_iff by auto
  have new: "a \<noteq> b" "a \<notin> set (bucket_items (m_cubes m1))" "b \<notin> set (bucket_items (m_cubes m1))"
    using mset_eq_imp_distinct_iff [OF eq] distinct_bucket_items [OF exo_inv_cubes(1) [OF inv]]
    by (auto simp: all_cubes_items)
  have da: "2 \<le> distance a d" if "d \<in> set (bucket_items (m_cubes m1))" for d
    using that new by (intro far) auto
  note insa = insert_at [where P = P, OF p1(1) p1(2) [unfolded all_cubes_items] w(2) da]
  let ?bs = "bucket_insert P a (m_cubes m1)"
  have db: "2 \<le> distance b d" if "d \<in> set (bucket_items ?bs)" for d
    using that new by (intro far) (auto simp: insa(5))
  note insb = insert_at [where P = P, OF insa(2,3) w(3) db]
  define m' where "m' = m1\<lparr>m_cubes := bucket_insert P b ?bs\<rparr>"
  have "restore_pair P pr m1 = Some m'"
    using insa(1) insb(1) by (simp add: restore_pair_def pr m'_def)
  moreover have "exo_inv n m'"
    using w(1) insb(2,3) by (simp add: m'_def exo_inv_def all_cubes_items)
  moreover have "held m' = held m"
    using insa(4) insb(4) by (simp add: held m'_def) (simp add: held_def all_cubes_items add_mset_commute)
  ultimately show thesis
    by (intro that [of m']) (simp_all add: reshaped_def m'_def size_held [symmetric])
qed

section \<open>Distance 2\<close>

text \<open>Two additions one after the other.\<close>

lemma added_twice:
  assumes "added n a m m1 r1" and "added n b m1 m2 r2"
  shows "esop_steps n (add_mset a (add_mset b (held m))) (held m2)" and "n_all m2 + r1 + r2 = n_all m + 2"
proof -
  have "esop_steps n (add_mset b (add_mset a (held m))) (add_mset b (held m1))"
    using assms(1) by (auto simp: added_def intro: esop_steps_add)
  also have "esop_steps n \<dots> (held m2)" using assms(2) by (simp add: added_def)
  finally show "esop_steps n (add_mset a (add_mset b (held m))) (held m2)" by (simp add: add_mset_commute)
  show "n_all m2 + r1 + r2 = n_all m + 2" using assms by (simp add: added_def)
qed

lemma try_two_spec:
  assumes inv: "exo_inv n m" and a: "cube_ok n a" and b: "cube_ok n b"
  obtains m' d where "try_two P a b m = Some (m', d)" and "exo_inv n m'" and "keeps_queues m m'"
    and "d \<Longrightarrow> n_all m' \<le> Suc (n_all m)"
    and "d \<Longrightarrow> esop_steps n (add_mset a (add_mset b (held m))) (held m')"
    and "\<not> d \<Longrightarrow> m_cubes m' = m_cubes m"
proof -
  obtain m1 r1 where e1: "exo_add_cube P a False m = Some (m1, r1)" and p1: "add_post n a False m m1 r1"
    using exo_add_cube_spec [OF inv a] by blast
  note d1 = add_postD [OF p1, simplified]
  show thesis
  proof (cases "r1 = 0")
    case False
    obtain m2 r2 where e2: "exo_add_cube P b True m1 = Some (m2, r2)" and p2: "add_post n b True m1 m2 r2"
      using exo_add_cube_spec [OF d1(1) b] by blast
    note d2 = add_postD [OF p2, simplified]
    note two = added_twice [OF d1(3) d2(3)]
    show thesis
    proof (rule that [of m2 True])
      show "try_two P a b m = Some (m2, True)" using False e1 e2 by (simp add: try_two_def)
      show "keeps_queues m m2" by (rule keeps_queues_trans [OF d1(2) d2(2)])
    qed (use False two d2(1) in auto)
  next
    case True
    have c1: "m_cubes m1 = m_cubes m" using d1(4) True by simp
    obtain m2 r2 where e2: "exo_add_cube P b False m1 = Some (m2, r2)" and p2: "add_post n b False m1 m2 r2"
      using exo_add_cube_spec [OF d1(1) b] by blast
    note d2 = add_postD [OF p2, simplified]
    note k2 = keeps_queues_trans [OF d1(2) d2(2)]
    show thesis
    proof (cases "r2 = 0")
      case False
      obtain m3 r3 where e3: "exo_add_cube P a True m2 = Some (m3, r3)" and p3: "add_post n a True m2 m3 r3"
        using exo_add_cube_spec [OF d2(1) a] by blast
      note d3 = add_postD [OF p3, simplified]
      note two = added_twice [OF d2(3) d3(3)]
      show thesis
      proof (rule that [of m3 True])
        show "try_two P a b m = Some (m3, True)"
          using True False e1 e2 e3 by (simp add: try_two_def)
        show "keeps_queues m m3" by (rule keeps_queues_trans [OF k2 d3(2)])
      qed (use False two d3(1) held_cong [OF c1] in \<open>auto simp: add_mset_commute\<close>)
    next
      case False': True
      have "try_two P a b m = Some (m2, False)"
        using True False' e1 e2 by (simp add: try_two_def)
      then show thesis using that [of m2 False] d2(1,4) k2 c1 False' by simp
    qed
  qed
qed

text \<open>
  A group of the table tried on a pair that is out: either the reshaped cubes are in, with
  the function of the whole restored, or the cubes are as before.
\<close>

lemma try_group2_spec:
  assumes inv: "exo_inv n m" and wo: "without_pair n pr m m1" and b1: "booked m1"
    and dist: "distance (fst pr) (snd pr) = 2" and k: "k \<in> {0, 4}"
  obtains ns n0 n1 m2 d where "exorlink (fst pr) (snd pr) 2 (drop k cube_groups2) = Some ns"
    and "vec_at ns 0 = Some n0" and "vec_at ns 1 = Some n1"
    and "try_two P n0 n1 m1 = Some (m2, d)" and "exo_inv n m2" and "keeps_queues m1 m2"
    and "if d then reshaped n m m2 \<and> n_all m2 < n_all m else without_pair n pr m m2"
proof -
  have w: "exo_inv n m1" "cube_ok n (fst pr)" "cube_ok n (snd pr)"
    using wo by (simp_all add: without_pair_def)
  obtain ns where ns: "exorlink (fst pr) (snd pr) 2 (drop k cube_groups2) = Some (ns @ replicate (4 - 2) cube32_default)"
      "length ns = 2" and path: "cube_path n (fst pr) ns (snd pr) \<or> cube_path n (snd pr) ns (fst pr)"
    using exorlink_path [OF w(2,3) dist _ cube_groups2_ok [OF k]] by auto
  obtain n0 n1 where n01: "ns = [n0, n1]" using list_of_2 [OF ns(2)] by blast
  have ok: "cube_ok n n0" "cube_ok n n1" using path cube_path_ok [of n _ ns] by (auto simp: n01 simp del: cube_path_simps)
  obtain m2 d where t: "try_two P n0 n1 m1 = Some (m2, d)" "exo_inv n m2" "keeps_queues m1 m2"
      "d \<Longrightarrow> n_all m2 \<le> Suc (n_all m1)"
      "d \<Longrightarrow> esop_steps n (add_mset n0 (add_mset n1 (held m1))) (held m2)"
      "\<not> d \<Longrightarrow> m_cubes m2 = m_cubes m1"
    using try_two_spec [OF w(1) ok, of P] by metis
  have "reshaped n m m2 \<and> n_all m2 < n_all m" if d
  proof -
    have "esop_steps n (held m) (mset ns + held m1)"
      using esop_steps_reshape [OF path, of "held m1"] wo dist ns(2) by (simp add: without_pair_def)
    also have "esop_steps n \<dots> (held m2)" using t(5) [OF that] by (simp add: n01)
    finally show ?thesis
      using t(2) t(4) [OF that] without_pair_count [OF wo] by (simp add: reshaped_def)
  qed
  moreover have "without_pair n pr m m2" if "\<not> d"
    by (rule without_pair_cong [OF wo t(2) t(6) [OF that]])
  ultimately show thesis
    using ns(1) t(1-3) n01 by (intro that [of _ n0 n1 m2 d]) (auto simp: vec_at_def)
qed

text \<open>One step of the pass over the pairs at distance 2.\<close>

lemma keeps_queues_length:
  "keeps_queues m m' \<Longrightarrow> q < 2 \<Longrightarrow> length (m_pairs m ! q) \<le> length (m_pairs m' ! q)"
  unfolding keeps_queues_def by (metis length_take min.cobounded1)

lemma booked_rollback:
  "booked m \<Longrightarrow> keeps_queues m m' \<Longrightarrow> booked (m'\<lparr>m_pairs := m_pairs m\<rparr>)"
  by (simp add: booked_def keeps_queues_def)

lemma reshaped_pairs:
  "reshaped n m m' \<Longrightarrow> queues_ok n qs \<Longrightarrow> reshaped n m (m'\<lparr>m_pairs := qs\<rparr>)"
  by (simp add: reshaped_def exo_inv_def held_def n_all_def all_cubes_def)

text \<open>
  What \<open>k\<close> steps of a pass do to its variables: the manager is rewritten, at most \<open>k\<close> attempts and
  at most as many reshapes are counted, and each reshape has saved a cube.
\<close>

definition tallied :: "nat \<Rightarrow> nat \<Rightarrow> pass_state \<Rightarrow> pass_state \<Rightarrow> bool" where
  "tallied n k s s' \<longleftrightarrow> reshaped n (fst s) (fst s') \<and> (\<exists>i \<le> k. \<exists>j \<le> i.
     snd s' = (fst (snd s) + of_nat i, snd (snd s) + of_nat j) \<and> n_all (fst s') + j \<le> n_all (fst s))"

lemma talliedI:
  assumes "reshaped n m m'"
  shows "tallied n 1 (m, a, r) (m', a, r)" and "tallied n 1 (m, a, r) (m', a + 1, r)"
    and "n_all m' < n_all m \<Longrightarrow> tallied n 1 (m, a, r) (m', a + 1, r + 1)"
proof -
  have le: "n_all m' \<le> n_all m" using assms by (simp add: reshaped_def)
  show "tallied n 1 (m, a, r) (m', a, r)"
    unfolding tallied_def by (intro conjI exI [of _ 0]) (use assms le in simp_all)
  show "tallied n 1 (m, a, r) (m', a + 1, r)"
    unfolding tallied_def by (intro conjI exI [of _ 1] exI [of _ 0]) (use assms le in simp_all)
  show "tallied n 1 (m, a, r) (m', a + 1, r + 1)" if "n_all m' < n_all m"
    unfolding tallied_def by (intro conjI exI [of _ 1]) (use assms that in simp_all)
qed

lemma tallied_trans:
  assumes "tallied n k s1 s2" and "tallied n l s2 s3"
  shows "tallied n (k + l) s1 s3"
proof -
  obtain i j where 1: "i \<le> k" "j \<le> i" "snd s2 = (fst (snd s1) + of_nat i, snd (snd s1) + of_nat j)"
      "n_all (fst s2) + j \<le> n_all (fst s1)"
    using assms(1) by (auto simp: tallied_def)
  obtain i' j' where 2: "i' \<le> l" "j' \<le> i'" "snd s3 = (fst (snd s2) + of_nat i', snd (snd s2) + of_nat j')"
      "n_all (fst s3) + j' \<le> n_all (fst s2)"
    using assms(2) by (auto simp: tallied_def)
  have "reshaped n (fst s1) (fst s3)"
    using assms reshaped_trans by (auto simp: tallied_def)
  with 1 2 show ?thesis
    unfolding tallied_def by (intro conjI exI [of _ "i + i'"] exI [of _ "j + j'"]) simp_all
qed

text \<open>After the first group has failed: the queues are rolled back and the second one is tried.\<close>

lemma second_group2_spec:
  assumes inv: "exo_inv n m" and wo: "without_pair n pr m m2" and dist: "distance (fst pr) (snd pr) = 2"
    and m1: "exo_inv n m1" "booked m1" "keeps_queues m1 m2"
  obtains m3 ns n0 n1 m4 d where "pairs_rollback m2 = Some m3"
    and "exorlink (fst pr) (snd pr) 2 (drop 4 cube_groups2) = Some ns" and "vec_at ns 0 = Some n0"
    and "vec_at ns 1 = Some n1" and "try_two P n0 n1 m3 = Some (m4, d)" and "keeps_queues m1 m4"
    and "if d then reshaped n m m4 \<and> n_all m4 < n_all m else without_pair n pr m m4"
proof -
  have i2: "exo_inv n m2" using wo by (simp add: without_pair_def)
  define m3 where "m3 = m2\<lparr>m_pairs := m_pairs m1\<rparr>"
  note rb = pairs_rollback_spec [OF m1(1) i2 m1(2,3), folded m3_def]
  have m3: "without_pair n pr m m3" "booked m3"
    using without_pair_cong [OF wo rb(2)] booked_rollback [OF m1(2,3)] by (simp_all add: m3_def)
  obtain ns n0 n1 m4 d where g: "exorlink (fst pr) (snd pr) 2 (drop 4 cube_groups2) = Some ns"
      "vec_at ns 0 = Some n0" "vec_at ns 1 = Some n1" "try_two P n0 n1 m3 = Some (m4, d)"
      "exo_inv n m4" "keeps_queues m3 m4"
      "if d then reshaped n m m4 \<and> n_all m4 < n_all m else without_pair n pr m m4"
    using try_group2_spec [OF inv m3 dist insertI2 [OF singletonI], of P] .
  from that [OF rb(1) g(1-4) keeps_queues_trans [OF rb(3) g(6)] g(7)] show thesis .
qed

text \<open>After both groups have failed: the pair comes back, into the store and to the end of the queue.\<close>

lemma give_up_pair:
  assumes inv: "exo_inv n m" and wo: "without_pair n pr m m4" and dist: "distance (fst pr) (snd pr) = 2"
    and m1: "exo_inv n m1" "booked m1" "keeps_queues m1 m4"
  obtains m5 m6 ps where "restore_pair P pr m4 = Some m5" and "pairs_rollback m5 = Some m6"
    and "vec_modify 0 (\<lambda>pairs. pairs @ [pr]) (m_pairs m6) = Some ps"
    and "reshaped n m (m6\<lparr>m_pairs := ps\<rparr>)" and "ps ! 0 = m_pairs m1 ! 0 @ [pr]"
proof -
  obtain m5 where m5: "restore_pair P pr m4 = Some m5" "reshaped n m m5"
      "m_pairs m5 = m_pairs m4" "m_pairs_bookmark m5 = m_pairs_bookmark m4"
    using restore_pair_spec [OF inv wo, of P] .
  have k5: "keeps_queues m1 m5" and i5: "exo_inv n m5"
    using m1(3) m5(2-4) by (simp_all add: keeps_queues_def reshaped_def)
  note rb = pairs_rollback_spec [OF m1(1) i5 m1(2) k5]
  let ?ps = "(m_pairs m1)[0 := m_pairs m1 ! 0 @ [pr]]"
  have qs: "queues_ok n ?ps"
    using queues_ok_nth [OF exo_inv_cubes(3) [OF m1(1)], of 0] dist wo
    by (intro queues_ok_update exo_inv_cubes(3) [OF m1(1)]) (simp add: without_pair_def)
  have len: "length (m_pairs m1) = 2"
    using exo_inv_cubes(3) [OF m1(1)] by (simp add: queues_ok_def)
  show thesis
    by (rule that [OF m5(1) rb(1), of ?ps])
      (use reshaped_pairs [OF m5(2) qs] len in \<open>simp_all add: vec_simps\<close>)
qed

lemma exorlink2_retry_spec:
  assumes inv: "exo_inv n m" and wo: "without_pair n pr m m2" and dist: "distance (fst pr) (snd pr) = 2"
    and m1: "exo_inv n m1" "booked m1" "keeps_queues m1 m2"
  obtains s' where "exorlink2_retry P pr (m2, a + 1, r + 1) = Some s'"
    and "tallied n 1 (m, a, r) s'" and "length (m_pairs m1 ! 0) \<le> length (m_pairs (fst s') ! 0)"
proof -
  obtain m3 ns n0 n1 m4 d where e: "pairs_rollback m2 = Some m3"
      "exorlink (fst pr) (snd pr) 2 (drop 4 cube_groups2) = Some ns"
      "vec_at ns 0 = Some n0" "vec_at ns 1 = Some n1" "try_two P n0 n1 m3 = Some (m4, d)"
    and s: "keeps_queues m1 m4" "if d then reshaped n m m4 \<and> n_all m4 < n_all m else without_pair n pr m m4"
    using second_group2_spec [OF inv wo dist m1, of P] .
  show thesis
  proof (cases d)
    case True
    with e s keeps_queues_length [OF s(1), of 0] talliedI(3) show thesis
      by (intro that [of "(m4, a + 1, r + 1)"]) (simp_all add: exorlink2_retry_def)
  next
    case False
    then have wo4: "without_pair n pr m m4" using s(2) by simp
    obtain m5 m6 ps where g: "restore_pair P pr m4 = Some m5" "pairs_rollback m5 = Some m6"
        "vec_modify 0 (\<lambda>pairs. pairs @ [pr]) (m_pairs m6) = Some ps"
        "reshaped n m (m6\<lparr>m_pairs := ps\<rparr>)" "ps ! 0 = m_pairs m1 ! 0 @ [pr]"
      using give_up_pair [OF inv wo4 dist m1(1,2) s(1), of P] .
    with e False talliedI(2) show thesis
      by (intro that [of "(m6\<lparr>m_pairs := ps\<rparr>, a + 1, r)"]) (simp_all add: exorlink2_retry_def)
  qed
qed

lemma exorlink2_step_spec:
  assumes inv: "exo_inv n m" and front: "m_pairs m ! 0 = pr # rest"
  obtains s' where "exorlink2_step P (m, a, r) = Some s'" and "tallied n 1 (m, a, r) s'"
    and "length rest \<le> length (m_pairs (fst s') ! 0)"
proof -
  obtain m1 taken where tk: "take_pair 0 m = Some (m1, taken)" "exo_inv n m1"
      "m_pairs m1 = (m_pairs m)[0 := rest]" "taken = None \<Longrightarrow> m_cubes m1 = m_cubes m"
    and out: "\<And>p. taken = Some p \<Longrightarrow> p = pr \<and> distance (fst pr) (snd pr) = 0 + 2 \<and>
      booked m1 \<and> without_pair n pr m m1"
    using take_pair_spec [OF inv _ front] by auto
  have q1: "m_pairs m1 ! 0 = rest"
    using tk(3) exo_inv_cubes(3) [OF inv] by (auto simp: queues_ok_def)
  show thesis
  proof (cases taken)
    case None
    have "reshaped n m m1" by (rule reshaped_refl [OF tk(2) tk(4) [OF None]])
    with None tk(1) q1 talliedI(1) show thesis
      by (intro that [of "(m1, a, r)"]) (simp_all add: exorlink2_step_def)
  next
    case (Some p)
    have p: "p = pr" "distance (fst pr) (snd pr) = 2" "booked m1" "without_pair n pr m m1"
      using out [OF Some] by simp_all
    obtain ns n0 n1 m2 d where e1: "exorlink (fst pr) (snd pr) 2 (drop 0 cube_groups2) = Some ns"
        "vec_at ns 0 = Some n0" "vec_at ns 1 = Some n1" "try_two P n0 n1 m1 = Some (m2, d)"
      and s1: "exo_inv n m2" "keeps_queues m1 m2"
        "if d then reshaped n m m2 \<and> n_all m2 < n_all m else without_pair n pr m m2"
      using try_group2_spec [OF inv p(4,3,2) insertI1, of P] .
    show thesis
    proof (cases d)
      case True
      have "exorlink2_step P (m, a, r) = Some (m2, a + 1, r + 1)"
        using e1 True tk(1) by (simp add: exorlink2_step_def Some p(1))
      with s1(3) True keeps_queues_length [OF s1(2), of 0] q1 talliedI(3) show thesis
        by (intro that [of "(m2, a + 1, r + 1)"]) simp_all
    next
      case False
      then have wo: "without_pair n pr m m2" using s1(3) by simp
      obtain s' where s': "exorlink2_retry P pr (m2, a + 1, r + 1) = Some s'"
          "tallied n 1 (m, a, r) s'" "length (m_pairs m1 ! 0) \<le> length (m_pairs (fst s') ! 0)"
        using exorlink2_retry_spec [OF inv wo p(2) tk(2) p(3) s1(2), of P a r] .
      have "exorlink2_step P (m, a, r) = Some s'"
        using e1 s'(1) False tk(1) by (simp add: exorlink2_step_def Some p(1))
      with s' q1 show thesis by (intro that) simp_all
    qed
  qed
qed

section \<open>Distance 3\<close>

lemma add_others_spec:
  assumes "exo_inv n m" and "\<And>k. k \<in> set ks \<Longrightarrow> k < length ns \<and> cube_ok n (ns ! k)"
  obtains m' where "add_others P ns j ks m = Some m'" and "exo_inv n m'" and "keeps_queues m m'"
    and "n_all m' \<le> n_all m + length (filter (\<lambda>k. j \<noteq> k) ks)"
    and "esop_steps n (mset (map (nth ns) (filter (\<lambda>k. j \<noteq> k) ks)) + held m) (held m')"
  using assms
proof (induction ks arbitrary: m thesis)
  case Nil
  then show ?case by (simp add: keeps_queues_def)
next
  case (Cons k ks)
  show ?case
  proof (cases "j = k")
    case True
    have tl: "k' < length ns \<and> cube_ok n (ns ! k')" if "k' \<in> set ks" for k'
      using Cons.prems(3) that by simp
    show ?thesis
      by (rule Cons.IH [OF Cons.prems(1) Cons.prems(2) tl]) (simp_all add: True)
  next
    case False
    have k: "k < length ns" "cube_ok n (ns ! k)" using Cons.prems(3) by simp_all
    obtain m1 r where e1: "exo_add_cube P (ns ! k) True m = Some (m1, r)" and p1: "add_post n (ns ! k) True m m1 r"
      using exo_add_cube_spec [OF Cons.prems(2) k(2)] by blast
    note d1 = add_postD [OF p1, simplified]
    let ?rest = "filter (\<lambda>k. j \<noteq> k) ks"
    obtain m2 where m2: "add_others P ns j ks m1 = Some m2" "exo_inv n m2" "keeps_queues m1 m2"
        "n_all m2 \<le> n_all m1 + length ?rest" "esop_steps n (mset (map (nth ns) ?rest) + held m1) (held m2)"
      using Cons.IH [OF _ d1(1)] Cons.prems(3) by (metis list.set_intros(2))
    have "esop_steps n (add_mset (ns ! k) (held m) + mset (map (nth ns) ?rest)) (held m1 + mset (map (nth ns) ?rest))"
      using d1(3) by (intro esop_steps_context) (simp add: added_def)
    also have "esop_steps n \<dots> (held m2)" using m2(5) by (simp add: add.commute)
    finally have "esop_steps n (mset (map (nth ns) (filter (\<lambda>k. j \<noteq> k) (k # ks))) + held m) (held m2)"
      using False by (simp add: add.commute)
    then show ?thesis
      using False k e1 m2 d1(3) keeps_queues_trans [OF d1(2) m2(3)]
      by (intro Cons.prems(1) [of m2]) (auto simp: vec_simps added_def)
  qed
qed

text \<open>The cube that brings a gain first, then the other two.\<close>

lemma try_three_gain:
  assumes "add_post n (ns ! j) False m m1 r" and "r > 0" and "j < 3"
    and "\<And>k. k < 3 \<Longrightarrow> k < length ns \<and> cube_ok n (ns ! k)"
  obtains m2 where "add_others P ns j [0..<3] m1 = Some m2" and "exo_inv n m2" and "keeps_queues m m2"
    and "n_all m2 \<le> n_all m + 2" and "esop_steps n (mset (take 3 ns) + held m) (held m2)"
proof -
  note d1 = add_postD [OF assms(1), simplified]
  have ad: "added n (ns ! j) m m1 r" using d1(3) assms(2) by simp
  let ?rest = "map (nth ns) (filter (\<lambda>k. j \<noteq> k) [0..<3])"
  obtain m2 where m2: "add_others P ns j [0..<3] m1 = Some m2" "exo_inv n m2" "keeps_queues m1 m2"
      "n_all m2 \<le> n_all m1 + length (filter (\<lambda>k. j \<noteq> k) [0..<3])" "esop_steps n (mset ?rest + held m1) (held m2)"
    using add_others_spec [OF d1(1), of "[0..<3]" ns P j] assms(4) by auto
  have three: "[0..<3] = [0, 1, 2::nat]" by (simp add: upt_rec)
  have j: "j = 0 \<or> j = 1 \<or> j = 2" using assms(3) by arith
  have "take 3 ns = map (nth ns) [0..<3]"
    using assms(4) [of 2] by (intro nth_equalityI) auto
  then have all: "mset (take 3 ns) = add_mset (ns ! j) (mset ?rest)"
    using j by (auto simp: three)
  have "esop_steps n (add_mset (ns ! j) (held m) + mset ?rest) (held m1 + mset ?rest)"
    using ad by (intro esop_steps_context) (simp add: added_def)
  also have "esop_steps n \<dots> (held m2)" using m2(5) by (simp add: add.commute)
  finally have "esop_steps n (mset (take 3 ns) + held m) (held m2)" by (simp add: all add.commute)
  moreover have "n_all m2 \<le> n_all m + 2"
    using m2(4) ad assms(2) j by (auto simp: three added_def)
  ultimately show thesis
    using m2(1,2) keeps_queues_trans [OF d1(2) m2(3)] by (intro that [of m2])
qed

lemma try_three_spec:
  assumes "exo_inv n m" and "booked m" and ns: "\<And>k. k < 3 \<Longrightarrow> k < length ns \<and> cube_ok n (ns ! k)"
    and "set js \<subseteq> {..<3}"
  obtains m' d where "try_three P ns js m = Some (m', d)" and "exo_inv n m'" and "keeps_queues m m'"
    and "d \<Longrightarrow> n_all m' \<le> n_all m + 2"
    and "d \<Longrightarrow> esop_steps n (mset (take 3 ns) + held m) (held m')"
    and "\<not> d \<Longrightarrow> m_cubes m' = m_cubes m \<and> booked m'"
  using assms(1,2,4)
proof (induction js arbitrary: m thesis)
  case Nil
  show ?case by (rule Nil.prems(1) [of m False]) (use Nil.prems in \<open>simp_all add: keeps_queues_def\<close>)
next
  case (Cons j js)
  have j: "j < 3" "j < length ns" "cube_ok n (ns ! j)" using Cons.prems(4) ns [of j] by auto
  obtain m1 r where e1: "exo_add_cube P (ns ! j) False m = Some (m1, r)" and p1: "add_post n (ns ! j) False m m1 r"
    using exo_add_cube_spec [OF Cons.prems(2) j(3)] by blast
  note d1 = add_postD [OF p1, simplified]
  show ?case
  proof (cases "r = 0")
    case False
    then have "r > 0" by simp
    from try_three_gain [OF p1 this j(1) ns] obtain m2 where
        m2: "add_others P ns j [0..<3] m1 = Some m2" "exo_inv n m2" "keeps_queues m m2"
        "n_all m2 \<le> n_all m + 2" "esop_steps n (mset (take 3 ns) + held m) (held m2)"
      by metis
    have "try_three P ns (j # js) m = Some (m2, True)"
      using e1 m2(1) False j(2) by (simp add: vec_simps)
    with m2 show ?thesis by (intro Cons.prems(1) [of m2 True]) simp_all
  next
    case True
    define m2 where "m2 = m1\<lparr>m_pairs := m_pairs m\<rparr>"
    note rb = pairs_rollback_spec [OF Cons.prems(2) d1(1) Cons.prems(3) d1(2), folded m2_def]
    have m2: "booked m2" "m_cubes m2 = m_cubes m"
      using booked_rollback [OF Cons.prems(3) d1(2)] d1(4) True by (simp_all add: m2_def)
    obtain m' d where r: "try_three P ns js m2 = Some (m', d)" "exo_inv n m'" "keeps_queues m2 m'"
      "d \<Longrightarrow> n_all m' \<le> n_all m2 + 2"
      "d \<Longrightarrow> esop_steps n (mset (take 3 ns) + held m2) (held m')"
      "\<not> d \<Longrightarrow> m_cubes m' = m_cubes m2 \<and> booked m'"
      using Cons.IH [OF _ rb(2) m2(1)] Cons.prems(4) by (metis insert_subset list.simps(15))
    show ?thesis
    proof (rule Cons.prems(1) [of m' d])
      show "try_three P ns (j # js) m = Some (m', d)"
        using e1 True j(2) rb(1) r(1) by (simp add: vec_simps)
      show "keeps_queues m m'" by (rule keeps_queues_trans [OF rb(3) r(3)])
    qed (use r held_cong [OF m2(2)] m2(2) in auto)
  qed
qed

lemma try_groups3_spec:
  assumes inv: "exo_inv n m0" and dist: "distance (fst pr) (snd pr) = 3"
    and gs: "set gs \<subseteq> {0, 9, 18, 27, 36, 45}"
    and "without_pair n pr m0 m" and "booked m"
  obtains m' d where "try_groups3 P pr gs m = Some (m', d)" and "keeps_queues m m'"
    and "if d then reshaped n m0 m' else without_pair n pr m0 m' \<and> booked m'"
  using gs assms(4,5)
proof (induction gs arbitrary: m thesis)
  case Nil
  show ?case by (rule Nil.prems(1) [of m False]) (use Nil.prems in \<open>simp_all add: keeps_queues_def\<close>)
next
  case (Cons g gs)
  have w: "exo_inv n m" "cube_ok n (fst pr)" "cube_ok n (snd pr)"
    using Cons.prems(3) by (simp_all add: without_pair_def)
  have g: "g \<in> {0, 9, 18, 27, 36, 45}" using Cons.prems(2) by simp
  obtain ns where ns: "exorlink (fst pr) (snd pr) 3 (drop g cube_groups3) = Some (ns @ replicate (4 - 3) cube32_default)"
      "length ns = 3" and path: "cube_path n (fst pr) ns (snd pr) \<or> cube_path n (snd pr) ns (fst pr)"
    using exorlink_path [OF w(2,3) dist _ cube_groups3_ok [OF g]] by auto
  let ?ns = "ns @ [cube32_default]"
  have "list_all (cube_ok n) ns" using path cube_path_ok by blast
  then have ok: "k < length ?ns \<and> cube_ok n (?ns ! k)" if "k < 3" for k
    using that ns(2) by (simp add: nth_append list_all_length)
  obtain m1 d where t: "try_three P ?ns [0..<3] m = Some (m1, d)" "exo_inv n m1" "keeps_queues m m1"
      "d \<Longrightarrow> n_all m1 \<le> n_all m + 2" "d \<Longrightarrow> esop_steps n (mset ns + held m) (held m1)"
      "\<not> d \<Longrightarrow> m_cubes m1 = m_cubes m \<and> booked m1"
    using try_three_spec [OF w(1) Cons.prems(4) ok, of "[0..<3]" P] ns(2) by (auto simp: atLeast0LessThan)
  show ?case
  proof (cases d)
    case True
    have "esop_steps n (held m0) (mset ns + held m)"
      using esop_steps_reshape [OF path, of "held m"] Cons.prems(3) dist ns(2) by (simp add: without_pair_def)
    also have "esop_steps n \<dots> (held m1)" by (rule t(5) [OF True])
    finally have "reshaped n m0 m1"
      using t(2) t(4) [OF True] without_pair_count [OF Cons.prems(3)] by (simp add: reshaped_def)
    with True ns(1) t(1,3) show ?thesis by (intro Cons.prems(1) [of m1 True]) simp_all
  next
    case False
    have w1: "without_pair n pr m0 m1" and b1: "booked m1"
      using without_pair_cong [OF Cons.prems(3) t(2)] t(6) [OF False] by simp_all
    obtain m' d' where r: "try_groups3 P pr gs m1 = Some (m', d')" "keeps_queues m1 m'"
        "if d' then reshaped n m0 m' else without_pair n pr m0 m' \<and> booked m'"
      using Cons.IH [OF _ _ w1 b1] Cons.prems(2) by (metis insert_subset list.simps(15))
    show ?thesis
      by (rule Cons.prems(1) [of m' d'])
        (use False ns(1) t(1) r keeps_queues_trans [OF t(3) r(2)] in simp_all)
  qed
qed

lemma exorlink3_step_spec:
  assumes inv: "exo_inv n m" and front: "m_pairs m ! 1 = pr # rest"
  obtains m' b where "exorlink3_step P (m, a, r) = Some (m', b, r)" and "tallied n 1 (m, a, r) (m', b, r)"
    and "length rest \<le> length (m_pairs m' ! 1)"
proof -
  obtain m1 taken where tk: "take_pair 1 m = Some (m1, taken)" "exo_inv n m1"
      "m_pairs m1 = (m_pairs m)[1 := rest]" "taken = None \<Longrightarrow> m_cubes m1 = m_cubes m"
    and out: "\<And>p. taken = Some p \<Longrightarrow> p = pr \<and> distance (fst pr) (snd pr) = 1 + 2 \<and>
      booked m1 \<and> without_pair n pr m m1"
    using take_pair_spec [OF inv _ front] by auto
  have q1: "m_pairs m1 ! 1 = rest"
    using tk(3) exo_inv_cubes(3) [OF inv] by (auto simp: queues_ok_def)
  show thesis
  proof (cases taken)
    case None
    have "reshaped n m m1" by (rule reshaped_refl [OF tk(2) tk(4) [OF None]])
    with None tk(1) q1 talliedI(1) show thesis by (intro that [of m1 a]) (simp_all add: exorlink3_step_def)
  next
    case (Some p)
    have p: "p = pr" "distance (fst pr) (snd pr) = 3" "booked m1" "without_pair n pr m m1"
      using out [OF Some] by simp_all
    obtain m2 d where t: "try_groups3 P pr [0, 9, 18, 27, 36, 45] m1 = Some (m2, d)" "keeps_queues m1 m2"
        "if d then reshaped n m m2 else without_pair n pr m m2 \<and> booked m2"
      using try_groups3_spec [OF inv p(2) _ p(4,3), of "[0, 9, 18, 27, 36, 45]" P] by auto
    note len = keeps_queues_length [OF t(2), of 1]
    show thesis
    proof (cases d)
      case True
      with t len tk(1) q1 talliedI(2) show thesis
        by (intro that [of m2 "a + 1"]) (simp_all add: exorlink3_step_def Some p(1) del: try_groups3.simps)
    next
      case False
      then have out2: "without_pair n pr m m2" using t(3) by simp
      obtain m3 where "restore_pair P pr m2 = Some m3" "reshaped n m m3"
          "m_pairs m3 = m_pairs m2" "m_pairs_bookmark m3 = m_pairs_bookmark m2"
        using restore_pair_spec [OF inv out2, of P] .
      with False t(1) len tk(1) q1 talliedI(2) show thesis
        by (intro that [of m3 "a + 1"]) (simp_all add: exorlink3_step_def Some p(1) del: try_groups3.simps)
    qed
  qed
qed

section \<open>The passes\<close>

text \<open>
  What a step does to a queue it goes through: whenever the queue is not empty the step
  runs, and it takes at most one pair away from it.
\<close>

definition pass_step :: "nat \<Rightarrow> nat \<Rightarrow> (pass_state \<Rightarrow> pass_state option) \<Rightarrow> bool" where
  "pass_step n q step \<longleftrightarrow> (\<forall>s. exo_inv n (fst s) \<longrightarrow> m_pairs (fst s) ! q \<noteq> [] \<longrightarrow>
     (\<exists>s'. step s = Some s' \<and> tallied n 1 s s' \<and>
        length (m_pairs (fst s) ! q) \<le> Suc (length (m_pairs (fst s') ! q))))"

lemma pass_step_exorlink2: "pass_step n 0 (exorlink2_step P)"
  unfolding pass_step_def
proof (intro allI impI)
  fix s :: pass_state assume "exo_inv n (fst s)" and "m_pairs (fst s) ! 0 \<noteq> []"
  moreover then obtain pr rest where "m_pairs (fst s) ! 0 = pr # rest" by (meson neq_Nil_conv)
  moreover obtain m a r where "s = (m, a, r)" by (cases s)
  ultimately show "\<exists>s'. exorlink2_step P s = Some s' \<and> tallied n 1 s s' \<and>
      length (m_pairs (fst s) ! 0) \<le> Suc (length (m_pairs (fst s') ! 0))"
    using exorlink2_step_spec [of n m pr rest P a r] by (metis fst_conv length_Cons Suc_le_mono)
qed

lemma pass_step_exorlink3: "pass_step n 1 (exorlink3_step P)"
  unfolding pass_step_def
proof (intro allI impI)
  fix s :: pass_state assume "exo_inv n (fst s)" and "m_pairs (fst s) ! 1 \<noteq> []"
  moreover then obtain pr rest where "m_pairs (fst s) ! 1 = pr # rest" by (meson neq_Nil_conv)
  moreover obtain m a r where "s = (m, a, r)" by (cases s)
  ultimately show "\<exists>s'. exorlink3_step P s = Some s' \<and> tallied n 1 s s' \<and>
      length (m_pairs (fst s) ! 1) \<le> Suc (length (m_pairs (fst s') ! 1))"
    using exorlink3_step_spec [of n m pr rest P a r] by (metis fst_conv length_Cons Suc_le_mono)
qed

lemma repeat_step_spec:
  assumes "pass_step n q step" and "exo_inv n (fst s)" and "k \<le> length (m_pairs (fst s) ! q)"
  shows "\<exists>s'. repeat_step k step s = Some s' \<and> tallied n k s s'"
  using assms(2,3)
proof (induction k arbitrary: s)
  case 0
  then show ?case by (simp add: tallied_def reshaped_def)
next
  case (Suc k)
  then have "m_pairs (fst s) ! q \<noteq> []" by auto
  then obtain s1 where s1: "step s = Some s1" "tallied n 1 s s1"
      "length (m_pairs (fst s) ! q) \<le> Suc (length (m_pairs (fst s1) ! q))"
    using assms(1) Suc.prems(1) unfolding pass_step_def by blast
  have "exo_inv n (fst s1)" "k \<le> length (m_pairs (fst s1) ! q)"
    using s1 Suc.prems(2) by (simp_all add: tallied_def reshaped_def)
  from Suc.IH [OF this] s1(1) tallied_trans [OF s1(2)] show ?case by auto
qed

text \<open>\<^verbatim>\<open>exorlink3\<close> leaves the number of reshapes alone.\<close>

lemma repeat_exorlink3_reshapes:
  "repeat_step k (exorlink3_step P) s = Some s' \<Longrightarrow> snd (snd s') = snd (snd s)"
proof (induction k arbitrary: s)
  case (Suc k)
  then obtain s1 where s1: "exorlink3_step P s = Some s1" "repeat_step k (exorlink3_step P) s1 = Some s'"
    by (auto simp: bind_eq_Some_conv)
  have "snd (snd s1) = snd (snd s)"
    using s1(1) by (cases s) (auto simp: exorlink3_step_def Let_def bind_eq_Some_conv split: option.splits)
  with Suc.IH [OF s1(2)] show ?case by simp
qed simp

lemma n_cubes_eq: "n_cubes m = of_nat (n_all m)"
proof -
  have "foldl (\<lambda>n buckt. n + of_nat (uset_size buckt)) k bs = k + (of_nat (length (concat (map elems bs))) :: u32)" for k bs
    by (induction bs arbitrary: k) (simp_all add: uset_size_def)
  from this [of 0 "m_cubes m"] show ?thesis by (simp only: n_cubes_def n_all_def all_cubes_def add_0)
qed

lemma gain_eq: "b \<le> a \<Longrightarrow> (of_nat a - of_nat b :: u32) = of_nat (a - b)"
  by (simp add: of_nat_diff)

text \<open>The line that a pass prints in the verbose mode.\<close>

definition pass_report :: "string \<Rightarrow> nat \<Rightarrow> exorcism_mngr \<Rightarrow> exorcism_mngr \<Rightarrow> nat \<Rightarrow> nat \<Rightarrow> string" where
  "pass_report name que m m' attempts reshapes =
     pass_line name que (of_nat attempts) (of_nat reshapes) (of_nat (n_all m')) (of_nat (n_all m - n_all m'))"

lemma exorlink2_spec:
  assumes "exo_inv n m"
  obtains m' i j where "\<And>w. exorlink2 P w m = Some (m', of_nat (n_all m - n_all m'),
        if w then pass_report ''ExorLink-2'' (length (m_pairs m ! 0)) m m' i j else '''')"
    and "reshaped n m m'" and "i \<le> length (m_pairs m ! 0)" and "j \<le> i" and "n_all m' + j \<le> n_all m"
proof -
  have at: "vec_at (m_pairs m) 0 = Some (m_pairs m ! 0)"
    using exo_inv_cubes(3) [OF assms] by (simp add: queues_ok_def vec_simps)
  let ?k = "length (m_pairs m ! 0)"
  obtain s' where s': "repeat_step ?k (exorlink2_step P) (m, 0, 0) = Some s'" "tallied n ?k (m, 0, 0) s'"
    using repeat_step_spec [OF pass_step_exorlink2, of n "(m, 0, 0)" ?k P] assms by auto
  then obtain m' i j where t: "s' = (m', of_nat i, of_nat j)" "i \<le> ?k" "j \<le> i" "n_all m' + j \<le> n_all m" "reshaped n m m'"
    by (cases s') (auto simp: tallied_def)
  show thesis
    by (rule that [OF _ t(5,2-4)])
      (use at s'(1) t(1,5) in \<open>simp add: exorlink2_def pass_report_def n_cubes_eq gain_eq reshaped_def del: of_nat_diff\<close>)
qed

lemma exorlink3_spec:
  assumes "exo_inv n m"
  obtains m' i where "\<And>w. exorlink3 P w m = Some (m', of_nat (n_all m - n_all m'),
        if w then pass_report ''ExorLink-3'' (length (m_pairs m ! 1)) m m' i 0 else '''')"
    and "reshaped n m m'" and "i \<le> length (m_pairs m ! 1)"
proof -
  have at: "vec_at (m_pairs m) 1 = Some (m_pairs m ! 1)"
    using exo_inv_cubes(3) [OF assms] by (simp add: queues_ok_def vec_simps)
  let ?k = "length (m_pairs m ! 1)"
  obtain s' where s': "repeat_step ?k (exorlink3_step P) (m, 0, 0) = Some s'" "tallied n ?k (m, 0, 0) s'"
    using repeat_step_spec [OF pass_step_exorlink3, of n "(m, 0, 0)" ?k P] assms by auto
  then obtain m' i where t: "s' = (m', of_nat i, 0)" "i \<le> ?k" "reshaped n m m'"
    using repeat_exorlink3_reshapes [OF s'(1)] by (cases s') (auto simp: tallied_def)
  show thesis
    by (rule that [OF _ t(3,2)])
      (use at s'(1) t(1,3) in \<open>simp add: exorlink3_def pass_report_def n_cubes_eq gain_eq reshaped_def del: of_nat_diff\<close>)
qed

lemma passes_spec:
  assumes "exo_inv n m"
  shows "\<exists>m'. (\<forall>w. \<exists>out. passes P w k gain m = Some (m', gain + of_nat (n_all m - n_all m'), out)) \<and> reshaped n m m'"
  using assms
proof (induction k arbitrary: gain m)
  case 0
  then show ?case by (simp add: reshaped_def)
next
  case (Suc k)
  obtain m1 where m1: "\<And>w. \<exists>out. exorlink2 P w m = Some (m1, of_nat (n_all m - n_all m1), out)" "reshaped n m m1"
    by (rule exorlink2_spec [OF Suc.prems, of P]) blast
  then have i1: "exo_inv n m1" by (simp add: reshaped_def)
  obtain m2 where m2: "\<And>w. \<exists>out. exorlink3 P w m1 = Some (m2, of_nat (n_all m1 - n_all m2), out)" "reshaped n m1 m2"
    by (rule exorlink3_spec [OF i1, of P]) blast
  then have i2: "exo_inv n m2" by (simp add: reshaped_def)
  let ?g = "gain + of_nat (n_all m - n_all m1) + of_nat (n_all m1 - n_all m2) :: u32"
  obtain m3 where m3: "\<And>w. \<exists>out. passes P w k ?g m2 = Some (m3, ?g + of_nat (n_all m2 - n_all m3), out)" "reshaped n m2 m3"
    using Suc.IH [OF i2, of ?g] by blast
  have le: "n_all m1 \<le> n_all m" "n_all m2 \<le> n_all m1" "n_all m3 \<le> n_all m2"
    using m1(2) m2(2) m3(2) by (simp_all add: reshaped_def)
  have "n_all m - n_all m3 = (n_all m - n_all m1) + (n_all m1 - n_all m2) + (n_all m2 - n_all m3)"
    using le by arith
  then have g: "?g + of_nat (n_all m2 - n_all m3) = gain + of_nat (n_all m - n_all m3)"
    by (simp only: of_nat_add add.assoc)
  have "\<exists>out. passes P w (Suc k) gain m = Some (m3, gain + of_nat (n_all m - n_all m3), out)" for w
  proof -
    obtain l1 l2 l3 where "exorlink2 P w m = Some (m1, of_nat (n_all m - n_all m1), l1)"
        "exorlink3 P w m1 = Some (m2, of_nat (n_all m1 - n_all m2), l2)"
        "passes P w k ?g m2 = Some (m3, ?g + of_nat (n_all m2 - n_all m3), l3)"
      using m1(1) [of w] m2(1) [of w] m3(1) [of w] by blast
    then show ?thesis unfolding g by (simp del: of_nat_diff)
  qed
  with reshaped_trans [OF m1(2) reshaped_trans [OF m2(2) m3(2)]] show ?case by blast
qed

text \<open>
  \<^verbatim>\<open>run\<close> ends: each round either removes a cube or counts towards the limit of three. There are
  at most three rounds for each cube removed, and three more.
\<close>

definition runs_to :: "nat \<Rightarrow> cube32 policy \<Rightarrow> nat \<Rightarrow> exorcism_mngr \<Rightarrow> exorcism_mngr \<Rightarrow> bool" where
  "runs_to n P wi m m' \<longleftrightarrow> reshaped n m m' \<and> (\<forall>w it. \<exists>it' out. run_loop P w wi it m = Some (m', it', out) \<and>
     it \<le> it' \<and> it' + 3 * n_all m' + wi \<le> it + 3 * n_all m + 3)"

lemma runs_to_round:
  assumes r: "\<And>w. \<exists>out. passes P w 6 0 m = Some (m1, of_nat (n_all m - n_all m1), out)" "reshaped n m m1"
    and wi': "wi' = (if sint (of_nat (n_all m - n_all m1) :: u32) > 0 then 0 else wi + 1)" and "wi \<le> 2"
    and rest: "wi' \<le> 2 \<Longrightarrow> runs_to n P wi' m1 m'" "\<not> wi' \<le> 2 \<Longrightarrow> m' = m1"
  shows "runs_to n P wi m m'"
proof -
  have le: "n_all m1 \<le> n_all m" using r(2) by (simp add: reshaped_def)
  have less: "n_all m1 < n_all m \<or> wi' = wi + 1"
    using le wi' by (cases "n_all m1 = n_all m") auto
  have "reshaped n m m'" using rest reshaped_trans [OF r(2)] r(2) by (cases "wi' \<le> 2") (auto simp: runs_to_def)
  moreover have "\<exists>it' out. run_loop P w wi it m = Some (m', it', out) \<and>
      it \<le> it' \<and> it' + 3 * n_all m' + wi \<le> it + 3 * n_all m + 3" for w it
  proof -
    let ?it = "if w then it + 1 else it"
    let ?head = "if w then iteration_line it else []"
    obtain out where out: "passes P w 6 0 m = Some (m1, of_nat (n_all m - n_all m1), out)" using r(1) by blast
    have unfold: "run_loop P w wi it m = (if wi' \<le> 2
        then Option.bind (run_loop P w wi' ?it m1) (\<lambda>(m2, it2, out'). Some (m2, it2, ?head @ out @ out'))
        else Some (m1, ?it, ?head @ out))"
      by (subst run_loop.simps) (simp only: out wi' Let_def Option.bind.bind_lunit prod.case)
    show ?thesis
    proof (cases "wi' \<le> 2")
      case True
      from rest(1) [OF this] obtain it' out' where rec: "run_loop P w wi' ?it m1 = Some (m', it', out')"
          "?it \<le> it'" "it' + 3 * n_all m' + wi' \<le> ?it + 3 * n_all m1 + 3"
        unfolding runs_to_def by blast
      have it: "it \<le> ?it" "?it \<le> it + 1" by simp_all
      have "it' + 3 * n_all m' + wi \<le> it + 3 * n_all m + 3"
        using less
      proof
        assume "n_all m1 < n_all m"
        with rec(3) it(2) \<open>wi \<le> 2\<close> show ?thesis by linarith
      next
        assume "wi' = wi + 1"
        with rec(3) it(2) le show ?thesis by linarith
      qed
      moreover have "it \<le> it'" using rec(2) it(1) by linarith
      ultimately show ?thesis using True unfold rec(1) by simp
    next
      case False
      then have "wi = 2" "m' = m1" using less le \<open>wi \<le> 2\<close> rest(2) wi' by (auto split: if_splits)
      with False le unfold show ?thesis by simp
    qed
  qed
  ultimately show ?thesis unfolding runs_to_def by blast
qed

lemma run_loop_spec:
  assumes "exo_inv n m" and "wi \<le> 2"
  shows "\<exists>m'. runs_to n P wi m m'"
  using assms
proof (induction "4 * n_all m + (3 - wi)" arbitrary: m wi rule: less_induct)
  case less
  obtain m1 where m1: "\<And>w. \<exists>out. passes P w 6 0 m = Some (m1, of_nat (n_all m - n_all m1), out)" "reshaped n m m1"
    using passes_spec [OF less.prems(1), of P 6 0] by auto
  define wi' where "wi' = (if sint (of_nat (n_all m - n_all m1) :: u32) > 0 then 0 else wi + 1)"
  note round = runs_to_round [OF m1 wi'_def less.prems(2)]
  have le: "n_all m1 \<le> n_all m" and i1: "exo_inv n m1" using m1(2) by (simp_all add: reshaped_def)
  show ?case
  proof (cases "wi' \<le> 2")
    case True
    have "n_all m1 < n_all m \<or> wi' = wi + 1"
      using le by (cases "n_all m1 = n_all m") (auto simp: wi'_def)
    then have "4 * n_all m1 + (3 - wi') < 4 * n_all m + (3 - wi)"
      using le less.prems(2) True by auto
    from less.hyps [OF this i1 True] round True show ?thesis by blast
  next
    case False
    with round [of m1] show ?thesis by blast
  qed
qed

lemma exo_add_all_spec:
  assumes "exo_inv n m" and "list_all (cube_ok n) cs"
  shows "\<exists>m'. exo_add_all P cs m = Some m' \<and> exo_inv n m' \<and>
    esop_steps n (mset cs + held m) (held m') \<and> n_all m' \<le> n_all m + length cs"
  using assms
proof (induction cs arbitrary: m)
  case (Cons c cs)
  obtain m1 r where e1: "exo_add_cube P c True m = Some (m1, r)" and p1: "add_post n c True m m1 r"
    using exo_add_cube_spec [OF Cons.prems(1), of c P True] Cons.prems(2) by auto
  note d1 = add_postD [OF p1, simplified]
  obtain m2 where m2: "exo_add_all P cs m1 = Some m2" "exo_inv n m2"
      "esop_steps n (mset cs + held m1) (held m2)" "n_all m2 \<le> n_all m1 + length cs"
    using Cons.IH [OF d1(1)] Cons.prems(2) by auto
  have "esop_steps n (add_mset c (held m) + mset cs) (held m1 + mset cs)"
    using d1(3) by (intro esop_steps_context) (simp add: added_def)
  also have "esop_steps n \<dots> (held m2)" using m2(3) by (simp add: add.commute)
  finally show ?case using e1 m2 d1(3) by (auto simp: added_def add.commute)
qed simp

lemma exo_empty_inv: "n \<le> 32 \<Longrightarrow> exo_inv n (exo_empty n)"
  using bucket_inv_empty [of n]
  by (simp add: exo_inv_def exo_empty_def all_cubes_items bucket_items_empty queues_ok_def
      far_apart_def del: replicate_Suc)

lemma exo_init_spec:
  assumes "n \<le> 32" and "list_all (cube_ok n) cs"
  shows "\<exists>m. exo_init P cs n = Some m \<and> exo_inv n m \<and> esop_steps n (mset cs) (held m) \<and> n_all m \<le> length cs"
  using exo_add_all_spec [OF exo_empty_inv [OF assms(1)] assms(2), of P]
  by (simp add: exo_init_def held_def n_all_def exo_empty_def all_cubes_items bucket_items_empty
      del: replicate_Suc)

text \<open>One output: the cubes the manager returns against the cubes it was given.\<close>

definition minimised :: "nat \<Rightarrow> cube32 list \<Rightarrow> cube32 list \<Rightarrow> bool" where
  "minimised n cs ds \<longleftrightarrow> esop_steps n (mset cs) (mset ds) \<and> length ds \<le> length cs \<and>
     list_all (cube_ok n) ds \<and> distinct ds \<and> far_apart ds"

lemma minimised_eval: "minimised n cs ds \<Longrightarrow> esop_eval v ds = esop_eval v cs"
  unfolding minimised_def by (elim conjE) (rule esop_steps_eval)

lemma minimised_iff:
  "minimised n cs ds \<longleftrightarrow> esop_steps n (mset cs) (mset ds) \<and> (\<forall>v. esop_eval v ds = esop_eval v cs) \<and>
     length ds \<le> length cs \<and> list_all (cube_ok n) ds \<and> distinct ds \<and> far_apart ds"
  using minimised_eval by (auto simp: minimised_def)

lemma exo_run_spec:
  assumes "exo_inv n m"
  shows "\<exists>ds. (\<forall>w. \<exists>out. exo_run P w m = Some (ds, out)) \<and> minimised n (all_cubes m) ds"
proof -
  obtain m' where m': "runs_to n P 0 m m'"
    using run_loop_spec [OF assms, of 0 P] by auto
  then have "exo_inv n m'" by (simp add: runs_to_def reshaped_def)
  note parts = exo_inv_cubes [OF this]
  have "minimised n (all_cubes m) (all_cubes m')"
    using m' parts(2) bucket_items_ok [OF parts(1)] distinct_bucket_items [OF parts(1)]
    by (simp add: minimised_def runs_to_def reshaped_def held_def n_all_def all_cubes_items list_all_iff)
  moreover have "\<exists>out. exo_run P w m = Some (all_cubes m', out)" for w
  proof -
    obtain it' out where "run_loop P w 0 0 m = Some (m', it', out)" using m' unfolding runs_to_def by blast
    then show ?thesis by (simp add: exo_run_def)
  qed
  ultimately show ?thesis by blast
qed

lemma exorcise_outputs_spec:
  assumes "n \<le> 32" and "list_all (list_all (cube_ok n)) css"
  shows "\<exists>dss. (\<forall>w. \<exists>out. exorcise_outputs P w n css = Some (dss, out)) \<and> list_all2 (minimised n) css dss"
  using assms(2)
proof (induction css)
  case (Cons cs css)
  obtain m where m: "exo_init P cs n = Some m" "exo_inv n m" "esop_steps n (mset cs) (held m)"
      "n_all m \<le> length cs"
    using exo_init_spec [OF assms(1), of cs P] Cons.prems by auto
  obtain ds where ds: "\<And>w. \<exists>out. exo_run P w m = Some (ds, out)" "minimised n (all_cubes m) ds"
    using exo_run_spec [OF m(2), of P] by blast
  obtain dss where dss: "\<And>w. \<exists>out. exorcise_outputs P w n css = Some (dss, out)" "list_all2 (minimised n) css dss"
    using Cons by auto
  have "minimised n cs ds"
    using ds(2) m(3,4) by (auto simp: minimised_def held_def n_all_def intro: esop_steps_trans)
  moreover have "\<exists>out. exorcise_outputs P w n (cs # css) = Some (ds # dss, out)" for w
    using ds(1) [of w] dss(1) [of w] m(1) by auto
  ultimately show ?case using dss(2) by blast
qed simp

lemma exorcise_spec:
  assumes "two_lvl_ok f"
  shows "\<exists>g. (\<forall>w. \<exists>out. exorcise P w f = Some (g, out)) \<and> kind g = kind f \<and> n_inputs g = n_inputs f \<and>
    list_all2 (minimised (n_inputs f)) (cubes f) (cubes g)"
proof -
  obtain dss where dss: "\<And>w. \<exists>out. exorcise_outputs P w (n_inputs f) (cubes f) = Some (dss, out)"
      "list_all2 (minimised (n_inputs f)) (cubes f) dss"
    using exorcise_outputs_spec [of "n_inputs f" "cubes f" P] assms by (auto simp: two_lvl_ok_def)
  have "\<exists>out. exorcise P w f = Some (\<lparr>kind = kind f, n_inputs = n_inputs f, cubes = dss\<rparr>, out)" for w
    using dss(1) [of w] by (auto simp: exorcise_def)
  with dss(2) show ?thesis
    by (intro exI [of _ "\<lparr>kind = kind f, n_inputs = n_inputs f, cubes = dss\<rparr>"]) simp
qed

text \<open>The same as a contract on whole forms.\<close>

lemma exorcise_keeps:
  assumes "two_lvl_ok f"
  shows "\<exists>g. (\<forall>w. \<exists>out. exorcise P w f = Some (g, out)) \<and> kind g = kind f \<and> n_inputs g = n_inputs f \<and> two_lvl_ok g \<and>
    length (cubes g) = length (cubes f) \<and>
    (\<forall>k < length (cubes f). \<forall>v. esop_eval v (cubes g ! k) = esop_eval v (cubes f ! k)) \<and>
    (\<forall>k < length (cubes f). length (cubes g ! k) \<le> length (cubes f ! k)) \<and> esop_sem g = esop_sem f"
proof -
  obtain g where g: "\<forall>w. \<exists>out. exorcise P w f = Some (g, out)" "kind g = kind f" "n_inputs g = n_inputs f"
      "list_all2 (minimised (n_inputs f)) (cubes f) (cubes g)"
    using exorcise_spec [OF assms, of P] by blast
  have "list_all (list_all (cube_ok (n_inputs f))) (cubes g)"
    using g(4) by (simp add: list_all2_conv_all_nth list_all_length [of "list_all _"] minimised_iff)
  moreover have "esop_sem g = esop_sem f"
    by (rule nth_equalityI) (use g(4) in \<open>simp_all add: esop_sem_def list_all2_conv_all_nth minimised_iff\<close>)
  ultimately show ?thesis using g assms
    by (intro exI [of _ g]) (simp add: two_lvl_ok_def list_all2_conv_all_nth minimised_iff)
qed

section \<open>The pairs an addition collects\<close>

lemma scan_bucket_pairs:
  assumes "scan_bucket 3 c i its tmp = Some (Miss, tmp')" and "length tmp = 2"
  shows "length tmp' = 2 \<and>
    (\<forall>q < 2. tmp' ! q = tmp ! q @ map (Pair c) (filter (\<lambda>d. distance c d = q + 2) its))"
  using assms
proof (induction its arbitrary: tmp)
  case (Cons it its)
  define tmp1 where "tmp1 = (if distance c it \<le> 3
    then tmp[distance c it - 2 := tmp ! (distance c it - 2) @ [(c, it)]] else tmp)"
  have far: "2 \<le> distance c it"
  proof (rule ccontr)
    assume "\<not> 2 \<le> distance c it"
    then have "distance c it = 0 \<or> distance c it = 1" by arith
    then show False using Cons.prems(1) by (auto simp: Let_def)
  qed
  have "scan_bucket 3 c i its tmp1 = Some (Miss, tmp')"
    using Cons.prems far by (auto simp: Let_def tmp1_def vec_simps split: if_splits)
  from Cons.IH [OF this] Cons.prems(2) have IH: "length tmp' = 2"
    "\<And>q. q < 2 \<Longrightarrow> tmp' ! q = tmp1 ! q @ map (Pair c) (filter (\<lambda>d. distance c d = q + 2) its)"
    by (simp_all add: tmp1_def)
  moreover have "tmp1 ! q = tmp ! q @ (if distance c it = q + 2 then [(c, it)] else [])" if "q < 2" for q
    using that far Cons.prems(2) by (auto simp: tmp1_def nth_list_update)
  ultimately show ?case by simp
qed simp

lemma scan_buckets_pairs:
  assumes "scan_buckets 3 c bs is tmp = Some (Miss, tmp')" and "length tmp = 2"
  shows "length tmp' = 2 \<and> (\<forall>q < 2. tmp' ! q = tmp ! q @
    map (Pair c) (filter (\<lambda>d. distance c d = q + 2) (concat (map (\<lambda>i. elems (bs ! i)) is))))"
  using assms
proof (induction "is" arbitrary: tmp)
  case (Cons i "is")
  obtain v1 tmp1 where sb: "scan_bucket 3 c i (elems (bs ! i)) tmp = Some (v1, tmp1)"
    and rest: "(case v1 of Miss \<Rightarrow> scan_buckets 3 c bs is tmp1 | _ \<Rightarrow> Some (v1, tmp1)) = Some (Miss, tmp')"
    using Cons.prems(1) by (auto simp: bind_eq_Some_conv vec_at_iff)
  then have v1: "v1 = Miss" and s1: "scan_buckets 3 c bs is tmp1 = Some (Miss, tmp')"
    by (cases v1; simp)+
  from scan_bucket_pairs [OF sb [unfolded v1] Cons.prems(2)] Cons.IH [OF s1]
  show ?case by simp
qed simp

lemma exo_add_cube_miss:
  assumes "exo_add_cube P c add m = Some (m', 0)"
  obtains tmp0 tmp bs where "clear_tmp (m_pairs_tmp m) = Some tmp0"
    and "scan_buckets (m_max_dist m) c (m_cubes m) (scan_range m c) tmp0 = Some (Miss, tmp)"
    and "append_pairs (pair_dists m) tmp (m_pairs m) = Some (m_pairs m')"
proof -
  obtain tmp0 v tmp where t: "clear_tmp (m_pairs_tmp m) = Some tmp0"
      "scan_buckets (m_max_dist m) c (m_cubes m) (scan_range m c) tmp0 = Some (v, tmp)"
    using assms by (subst (asm) exo_add_cube.simps) (auto simp: bind_eq_Some_conv)
  have "v = Miss" and "append_pairs (pair_dists m) tmp (m_pairs m) = Some (m_pairs m')"
    using assms by (subst (asm) exo_add_cube.simps, cases v; auto simp: t bind_eq_Some_conv)+
  with t that show thesis by blast
qed

text \<open>The buckets that are scanned hold, once each, the cubes whose number of literals is near.\<close>

lemma scanned_cubes:
  assumes inv: "exo_inv n m" and ok: "cube_ok n c"
  defines "near \<equiv> concat (map (\<lambda>i. elems (m_cubes m ! i)) (scan_range m c))"
  shows "distinct near"
    and "set near = {d \<in> set (all_cubes m). n_lits c \<le> n_lits d + 3 \<and> n_lits d \<le> n_lits c + 3}"
proof -
  note parts = exo_inv_cubes [OF inv]
  have range: "scan_range m c = [n_lits c - 3 ..< Suc (min n (n_lits c + 3))]"
    using parts n_lits_le [OF ok] by (simp add: scan_range_eq)
  then have le: "i \<le> n" if "i \<in> set (scan_range m c)" for i
    using that by (auto simp del: upt_Suc)
  show "distinct near"
    unfolding near_def
  proof (rule distinct_concat_keyed [where key = n_lits])
    fix i assume "i \<in> set (scan_range m c)"
    then have i: "i \<le> n" by (rule le)
    show "distinct (elems (m_cubes m ! i))"
      using bucket_invD(2) [OF parts(1) i] by (simp add: uset_inv_def)
    show "n_lits d = i" if "d \<in> set (elems (m_cubes m ! i))" for d
      by (rule bucket_invD(4) [OF parts(1) i that])
  qed (simp add: range del: upt_Suc)
  have key: "n_lits d = i" if "i \<in> set (scan_range m c)" "d \<in> set (elems (m_cubes m ! i))" for i d
    by (rule bucket_invD(4) [OF parts(1) le [OF that(1)] that(2)])
  have "d \<in> set near \<longleftrightarrow> n_lits d \<in> set (scan_range m c) \<and> d \<in> set (elems (m_cubes m ! n_lits d))" for d
  proof
    assume "d \<in> set near"
    then obtain i where "i \<in> set (scan_range m c)" "d \<in> set (elems (m_cubes m ! i))" by (auto simp: near_def)
    with key [of i d] show "n_lits d \<in> set (scan_range m c) \<and> d \<in> set (elems (m_cubes m ! n_lits d))" by simp
  qed (auto simp: near_def)
  moreover have "n_lits d \<in> set (scan_range m c) \<longleftrightarrow> n_lits d \<le> n \<and> n_lits c \<le> n_lits d + 3 \<and> n_lits d \<le> n_lits c + 3" for d
    unfolding range by (auto simp: less_Suc_eq_le simp del: upt_Suc)
  ultimately show "set near = {d \<in> set (all_cubes m). n_lits c \<le> n_lits d + 3 \<and> n_lits d \<le> n_lits c + 3}"
    unfolding all_cubes_items set_eq_iff mem_Collect_eq bucket_items_at [OF parts(1)] by blast
qed

lemma exo_add_cube_pairs:
  assumes inv: "exo_inv n m" and ok: "cube_ok n c" and add: "exo_add_cube P c add m = Some (m', 0)"
    and q: "q < 2"
  obtains ds where "m_pairs m' ! q = m_pairs m ! q @ map (Pair c) ds" and "distinct ds"
    and "set ds = {d \<in> set (all_cubes m). distance c d = q + 2}"
proof -
  note parts = exo_inv_cubes [OF inv]
  obtain tmp0 tmp where t: "clear_tmp (m_pairs_tmp m) = Some tmp0"
    and sc: "scan_buckets (m_max_dist m) c (m_cubes m) (scan_range m c) tmp0 = Some (Miss, tmp)"
    and ap: "append_pairs (pair_dists m) tmp (m_pairs m) = Some (m_pairs m')"
    using exo_add_cube_miss [OF add] by blast
  have tmp0: "tmp0 = [[], []]" using t clear_tmp_spec [OF parts(4)] by simp
  let ?near = "concat (map (\<lambda>i. elems (m_cubes m ! i)) (scan_range m c))"
  let ?ds = "filter (\<lambda>d. distance c d = q + 2) ?near"
  have tq: "length tmp = 2" "\<And>q. q < 2 \<Longrightarrow> tmp ! q = map (Pair c) (filter (\<lambda>d. distance c d = q + 2) ?near)"
    using scan_buckets_pairs [OF sc [unfolded parts(5) tmp0]] by (auto simp: less_2_cases_iff)
  have pl: "length (m_pairs m) = 2" using parts(3) by (simp add: queues_ok_def)
  obtain t0 t1 p0 p1 where tp: "tmp = [t0, t1]" "m_pairs m = [p0, p1]"
    using list_of_2 [OF tq(1)] list_of_2 [OF pl] by blast
  have "m_pairs m' = [p0 @ t0, p1 @ t1]"
    using ap parts(5) by (simp add: pair_dists_def tp vec_simps upt_rec)
  then have "m_pairs m' ! q = m_pairs m ! q @ tmp ! q"
    using q by (auto simp: tp less_2_cases_iff)
  then have pairs: "m_pairs m' ! q = m_pairs m ! q @ map (Pair c) ?ds"
    by (simp add: tq(2) [OF q])
  have "n_lits c \<le> n_lits d + 3 \<and> n_lits d \<le> n_lits c + 3" if "distance c d = q + 2" for d
    using n_lits_distance [of c d] n_lits_distance [of d c] that q by (simp add: distance_sym)
  then have "set ?ds = {d \<in> set (all_cubes m). distance c d = q + 2}"
    unfolding set_filter scanned_cubes(2) [OF inv ok] by blast
  with pairs distinct_filter [OF scanned_cubes(1) [OF inv ok]] that show thesis by blast
qed

end
