(* ===== verification/Collapse_Tool.thy ===== *)
theory Collapse_Tool
  imports Tool_Support Bdd_Support Aig_To_Bdd Esop_To_Aig Exorcism_Correct
begin

text \<open>
  \<^verbatim>\<open>tools/collapse/main.cpp\<close>: the graph is cofactored by its first inputs, each cofactor is
  collapsed by one of the two methods, the literals of the cofactored inputs are added to
  the cubes and the results are put together, if asked for with the minimiser in between.
  The result is written to PLA files and, with \<^verbatim>\<open>-c\<close>, turned into a graph for ABC's
  equivalence checker.

  The record \<open>packages\<close> holds the calls of ABC and CUDD. Parsing the command line is CLI11's, the
  argument \<open>parse\<close>: it gets the options with their defaults and gives those of the command line and
  the remaining arguments, or the status that \<^verbatim>\<open>app.exit\<close> returns. The outer \<open>None\<close> is undefined
  behaviour or a run that does not end. A run is its exit status, its output as a list of events
  (theory \<open>Output\<close>), the files written, and the graph given to the checker. What the calls of ABC
  print that do more than print (the reader, the checker) is left out.
\<close>

section \<open>The operations\<close>

record ('d, 'g) packages =
  p_read :: "string \<Rightarrow> aig option"
  p_cofactor :: "aig \<Rightarrow> nat \<Rightarrow> bool \<Rightarrow> aig"
  p_cudd :: "'d cudd"
  p_bdd :: "'d bdd_api"
  p_gia :: "'g gia_api"
  p_miter :: "aig \<Rightarrow> 'g \<Rightarrow> bool"
  p_cec :: "aig \<Rightarrow> 'g \<Rightarrow> int"

record collapse_opts =
  o_method :: string
  o_cofactors :: nat
  o_check :: bool
  o_data :: bool
  o_exorcise :: bool
  o_reorder :: bool
  o_verbose :: bool
  o_werbose :: bool

definition default_opts :: collapse_opts where
  "default_opts = \<lparr>o_method = ''bdd'', o_cofactors = 0, o_check = False, o_data = False,
     o_exorcise = False, o_reorder = False, o_verbose = False, o_werbose = False\<rparr>"

datatype cli_outcome = Parse_Error int | Parsed collapse_opts "string list"

text \<open>The handler of signals: whether the data are flushed, the messages and the exit status.\<close>

definition SIGINT :: int where
  "SIGINT = 2"

definition exit_SIGINT :: "int \<Rightarrow> bool \<Rightarrow> bool \<times> string list \<times> int" where
  "exit_SIGINT sig_num has_data =
     (if sig_num = SIGINT then (has_data, [''[C] Interrupted''], EXIT_SUCCESS) else (False, [], EXIT_SUCCESS))"

definition extrac_fname :: "string \<Rightarrow> string" where
  "extrac_fname filepath =
     (case rfind (CHR ''/'') filepath of Some pos \<Rightarrow> drop (pos + 1) filepath | None \<Rightarrow> filepath)"

definition is_fname_ok :: "string \<Rightarrow> bool \<times> string list" where
  "is_fname_ok filename =
     (case rfind (CHR ''.'') filename of
        Some dot \<Rightarrow>
          if drop (dot + 1) filename = ''aig'' then (True, [])
          else (False, [''[E] Unsupported file format: '' @ drop (dot + 1) filename])
      | None \<Rightarrow> (False, [''[E] Unrecognized file format.'']))"

definition cf_aigs :: "(aig \<Rightarrow> nat \<Rightarrow> bool \<Rightarrow> aig) \<Rightarrow> nat \<Rightarrow> aig \<Rightarrow> aig list" where
  "cf_aigs cof n_cofactor aig = map (\<lambda>i. cofactor_vars cof i [0..<n_cofactor] aig) [0..<2 ^ n_cofactor]"

definition collapse_one :: "cube32 policy \<Rightarrow> ('d, 'g) packages \<Rightarrow> collapse_opts \<Rightarrow> aig
    \<Rightarrow> ('d event list \<times> (extract_exit + two_lvl32)) option" where
  "collapse_one P K opts a =
     (if o_method opts = ''bdd''
      then do { (bdd, evs) \<leftarrow> aig_to_bdd (p_bdd K) (o_reorder opts) (o_verbose opts) a;
                (evs', r) \<leftarrow> bdd_extract P (p_cudd K) bdd;
                Some (evs @ evs', r) }
      else aig_extract P (o_verbose opts) (o_data opts) a)"

definition add_cofactor_lits :: "nat \<Rightarrow> nat \<Rightarrow> cube32 \<Rightarrow> cube32" where
  "add_cofactor_lits n_cofactor i cube = fold (\<lambda>j. add_lit j (if bit i j then 1 else 0)) [0..<n_cofactor] cube"

definition aig_line :: "nat \<Rightarrow> nat \<Rightarrow> string" where
  "aig_line n_cofactor i = ''[I] ['' @ show_nat i @ '' / '' @ show_nat (2 ^ n_cofactor - 1) @ ''] AIG''"

fun collapse_all :: "cube32 policy \<Rightarrow> ('d, 'g) packages \<Rightarrow> collapse_opts \<Rightarrow> nat \<Rightarrow> aig list
    \<Rightarrow> ('d event list \<times> (extract_exit + two_lvl32 list)) option" where
  "collapse_all P K opts i [] = Some ([], Inr [])"
| "collapse_all P K opts i (a # as) =
     do { (evs, r) \<leftarrow> collapse_one P K opts a;
          let evs = Console (aig_line (o_cofactors opts) i) # evs;
          (case r of
             Inl e \<Rightarrow> Some (evs, Inl e)
           | Inr f \<Rightarrow>
               do { (evs', fs) \<leftarrow> collapse_all P K opts (Suc i) as;
                    Some (evs @ evs',
                          map_sum id (Cons (f\<lparr>cubes := map (map (add_cofactor_lits (o_cofactors opts) i)) (cubes f)\<rparr>)) fs) }) }"

text \<open>The lists of \<open>ret\<close> are appended to those of the result; \<open>None\<close> if there are too few.\<close>

fun copy_cubes :: "cube32 list list \<Rightarrow> cube32 list list \<Rightarrow> cube32 list list option" where
  "copy_cubes rs [] = Some []"
| "copy_cubes [] (c # cs) = None"
| "copy_cubes (r # rs) (c # cs) = do { cs' \<leftarrow> copy_cubes rs cs; Some ((c @ r) # cs') }"

fun stitch :: "cube32 policy \<Rightarrow> bool \<Rightarrow> bool \<Rightarrow> two_lvl32 list \<Rightarrow> two_lvl32 \<Rightarrow> (two_lvl32 \<times> string) option" where
  "stitch P exo werbose [] result = Some (result, '''')"
| "stitch P exo werbose (ret # rets) result =
     do { cs \<leftarrow> copy_cubes (cubes ret) (cubes result);
          (result', out) \<leftarrow> (if exo then exorcise P werbose (result\<lparr>cubes := cs\<rparr>)
                             else Some (result\<lparr>cubes := cs\<rparr>, ''''));
          (result'', out') \<leftarrow> stitch P exo werbose rets result';
          Some (result'', out @ out') }"

text \<open>
  \<open>k0\<close> and \<open>n0\<close> are what the members of \<open>result\<close> hold before they are assigned; its kind never is.
  A graph with too many inputs ends the program with \<^verbatim>\<open>exit(0)\<close>. The verdict of the equivalence
  checker is stored and not looked at.
\<close>

record ('d, 'g) collapse_run =
  c_status :: int
  c_output :: "'d event list"
  c_files :: "(string \<times> string) list"
  c_checked :: "'g option"

definition collapse_stop :: "int \<Rightarrow> 'd event list \<Rightarrow> ('d, 'g) collapse_run" where
  "collapse_stop st out = \<lparr>c_status = st, c_output = out, c_files = [], c_checked = None\<rparr>"

definition collapse_main :: "cube32 policy \<Rightarrow> ('d, 'g) packages \<Rightarrow> kind_t \<Rightarrow> nat \<Rightarrow>
    (collapse_opts \<Rightarrow> string list \<Rightarrow> cli_outcome) \<Rightarrow> string list \<Rightarrow> ('d, 'g) collapse_run option" where
  "collapse_main P K k0 n0 parse argv =
     (case parse default_opts argv of
        Parse_Error st \<Rightarrow> Some (collapse_stop st [])
      | Parsed opts [] \<Rightarrow> Some (collapse_stop EXIT_FAILURE [Console ''[E] No input file detected''])
      | Parsed opts (filepath # _) \<Rightarrow>
          let filename = extrac_fname filepath;
              (ok, err) = is_fname_ok filename
          in if \<not> ok then Some (collapse_stop EXIT_FAILURE (map Console err))
             else do {
               aig \<leftarrow> p_read K filepath;
               let out0 = (if o_verbose opts then [Graph_Stats aig] else []) @
                 (if o_data opts then [Open_Data (o_method opts @ ''_'' @ filename @ ''.csv'')] else []);
               (out1, r) \<leftarrow> collapse_all P K opts 0 (cf_aigs (p_cofactor K) (o_cofactors opts) aig);
               (case r of
                  Inl e \<Rightarrow> Some (collapse_stop EXIT_SUCCESS (out0 @ out1))
                | Inr cf_results \<Rightarrow> do {
                    (result, text) \<leftarrow> stitch P (o_exorcise opts) (o_werbose opts) cf_results
                      (set_n_outputs (length (co_nodes aig)) (set_n_inputs (ci_num aig) (two_lvl32_uninit k0 n0)));
                    let out = out0 @ out1 @ Print text #
                      (if o_verbose opts \<or> o_werbose opts then [Print (print_stats result)] else []);
                    let files = write_pla (o_method opts @ ''_'' @ filename) result;
                    if o_check opts
                    then do { result_aig \<leftarrow> esop_to_aig (p_gia K) result;
                              if \<not> p_miter K aig result_aig
                              then Some \<lparr>c_status = EXIT_FAILURE,
                                c_output = out @ [Console ''[E] Couldn't create miter''],
                                c_files = files, c_checked = None\<rparr>
                              else let Status = p_cec K aig result_aig
                                   in Some \<lparr>c_status = EXIT_SUCCESS, c_output = out,
                                     c_files = files, c_checked = Some result_aig\<rparr> }
                    else Some \<lparr>c_status = EXIT_SUCCESS, c_output = out, c_files = files, c_checked = None\<rparr> }) })"

section \<open>File names\<close>

lemma is_fname_ok_iff: "fst (is_fname_ok (extrac_fname path)) \<longleftrightarrow> suffix ''.aig'' path"
proof -
  have ok: "fst (is_fname_ok s) \<longleftrightarrow> suffix ''.aig'' s" for s
  proof (cases rule: rfind_cases [where c = "CHR ''.''" and s = s])
    case 1
    then show ?thesis by (auto simp: is_fname_ok_def suffix_def)
  next
    case (2 p e)
    then show ?thesis using last_part_iff [OF 2(1,2), of "''aig''"] by (simp add: is_fname_ok_def)
  qed
  show ?thesis
  proof (cases rule: rfind_cases [where c = "CHR ''/''" and s = path])
    case 1
    then show ?thesis by (simp add: ok extrac_fname_def)
  next
    case (2 p e)
    have "''.aig'' \<noteq> q @ CHR ''/'' # e" for q
    proof
      assume "''.aig'' = q @ CHR ''/'' # e"
      then have "CHR ''/'' \<in> set ''.aig''" by (metis in_set_conv_decomp)
      then show False by simp
    qed
    then have "suffix ''.aig'' (p @ CHR ''/'' # e) \<longleftrightarrow> suffix ''.aig'' e"
      unfolding suffix_append suffix_Cons by (metis append_Nil)
    with 2 show ?thesis by (simp add: ok extrac_fname_def)
  qed
qed

lemma is_fname_ok_True: "fst (is_fname_ok s) \<Longrightarrow> is_fname_ok s = (True, [])"
  by (auto simp: is_fname_ok_def split: option.splits if_splits)

section \<open>The literals of the cofactored inputs\<close>

text \<open>The functions of a graph's outputs.\<close>

definition aig_sem :: "aig \<Rightarrow> ((nat \<Rightarrow> bool) \<Rightarrow> bool) list" where
  "aig_sem g = map (aig_fun g) [0..<length (co_nodes g)]"

definition matches :: "nat \<Rightarrow> nat list \<Rightarrow> (nat \<Rightarrow> bool) \<Rightarrow> bool" where
  "matches i js v \<longleftrightarrow> list_all (\<lambda>j. v j = bit i j) js"

lemma add_lit_spec:
  assumes "cube_ok n c" and "j < n" and "n \<le> 32" and "no_lit j c"
  shows "cube_ok n (add_lit j (if b then 1 else 0) c) \<and>
    cube_eval (add_lit j (if b then 1 else 0) c) v = (cube_eval c v \<and> v j = b)"
proof -
  let ?d = "add_lit j (if b then 1 else 0) c"
  have can: "canonical c" by (rule cube_ok_canonical [OF assms(1)])
  have l: "lit_at ?d i = (if i = j then (if b then Pos else Neg) else lit_at c i)" for i
    using lit_at_add_lit [OF can, of j "if b then 1 else 0" i] assms(2-4) by (simp add: no_lit_lit_at)
  have "cube_ok n ?d"
    by (rule cube_okI [OF canonical_add_lit [OF can]]) (use assms(2) cube_ok_lit [OF assms(1)] in \<open>auto simp: l split: if_splits\<close>)
  moreover have "cube_eval ?d v = (cube_eval c v \<and> v j = b)"
  proof -
    have "lit_sat (lit_at c j) (v j)" using assms(4) by (simp add: no_lit_lit_at)
    then show ?thesis using assms(2,3) unfolding cube_eval_iff l by (auto split: if_splits)
  qed
  ultimately show ?thesis by blast
qed

lemma no_lit_add_lit: "no_lit j c \<Longrightarrow> i \<noteq> j \<Longrightarrow> no_lit j (add_lit i p c)"
  by (simp add: no_lit_def add_lit_def bit_simps)

lemma add_lits_spec:
  assumes "cube_ok n c" and "n \<le> 32" and "list_all (\<lambda>j. j < n \<and> no_lit j c) js" and "distinct js"
  shows "cube_ok n (fold (\<lambda>j. add_lit j (if bit i j then 1 else 0)) js c) \<and>
    cube_eval (fold (\<lambda>j. add_lit j (if bit i j then 1 else 0)) js c) v = (cube_eval c v \<and> matches i js v)"
  using assms
proof (induction js arbitrary: c)
  case (Cons j js)
  let ?d = "add_lit j (if bit i j then 1 else 0) c"
  have d: "cube_ok n ?d" "cube_eval ?d v = (cube_eval c v \<and> v j = bit i j)"
    using add_lit_spec [of n c j "bit i j" v] Cons.prems by simp_all
  have "list_all (\<lambda>j. j < n \<and> no_lit j ?d) js"
    using Cons.prems(3,4) by (auto simp: list_all_iff intro: no_lit_add_lit)
  with Cons.IH [OF d(1) assms(2)] Cons.prems(4) d(2) show ?case by (auto simp: matches_def)
qed (simp add: matches_def)

lemma add_cofactor_lits_esop:
  assumes "list_all (cube_ok n) cs" and "n \<le> 32" and "m \<le> n" and "\<And>j. j < m \<Longrightarrow> list_all (no_lit j) cs"
  shows "list_all (cube_ok n) (map (add_cofactor_lits m i) cs) \<and>
    esop_eval v (map (add_cofactor_lits m i) cs) = (esop_eval v cs \<and> matches i [0..<m] v)"
proof -
  have c: "cube_ok n (add_cofactor_lits m i c) \<and>
      cube_eval (add_cofactor_lits m i c) v = (cube_eval c v \<and> matches i [0..<m] v)" if "c \<in> set cs" for c
    unfolding add_cofactor_lits_def
    by (rule add_lits_spec [OF _ assms(2)]) (use that assms in \<open>auto simp: list_all_iff\<close>)
  then show ?thesis by (induction cs) auto
qed

text \<open>Every assignment matches exactly one of the cofactors.\<close>

lemma matches_unique:
  assumes "i < 2 ^ m" and "i' < 2 ^ m" and "matches i [0..<m] v" and "matches i' [0..<m] v"
  shows "i = i'"
proof (rule bit_eqI)
  fix j
  have "\<not> bit i j \<and> \<not> bit i' j" if "m \<le> j"
    using that assms(1,2) by (metis bit_take_bit_iff not_le take_bit_nat_eq_self)
  then show "bit i j = bit i' j"
    using assms(3,4) by (cases "j < m") (auto simp: matches_def list_all_iff)
qed

lemma matches_exists: "\<exists>i < 2 ^ m. matches i [0..<m] v"
proof -
  let ?i = "horner_sum of_bool 2 (map v [0..<m]) :: nat"
  have "?i < 2 ^ m" using horner_sum_of_bool_2_less [of "map v [0..<m]"] by simp
  moreover have "matches ?i [0..<m] v" by (simp add: matches_def list_all_iff bit_horner_sum_bit_iff)
  ultimately show ?thesis by blast
qed

lemma fix_vars_matches: "matches i [0..<m] v \<Longrightarrow> fix_vars i {..<m} v = v"
  by (auto simp: fix_vars_def matches_def list_all_iff fun_eq_iff)

section \<open>Putting the cofactors together\<close>

text \<open>What the collapse of a cofactor has to give: the graph's functions, free of the first \<open>m\<close> variables.\<close>

definition collapsed :: "nat \<Rightarrow> aig \<Rightarrow> two_lvl32 \<Rightarrow> bool" where
  "collapsed m a f \<longleftrightarrow> n_inputs f = ci_num a \<and> two_lvl_ok f \<and> esop_sem f = aig_sem a \<and>
     (\<forall>j < m. list_all (list_all (no_lit j)) (cubes f))"

definition part_ok :: "nat \<Rightarrow> nat \<Rightarrow> nat \<Rightarrow> aig \<Rightarrow> two_lvl32 \<Rightarrow> bool" where
  "part_ok n m i a f \<longleftrightarrow> list_all (list_all (cube_ok n)) (cubes f) \<and> length (cubes f) = length (co_nodes a) \<and>
     (\<forall>k < length (co_nodes a). \<forall>v. esop_eval v (cubes f ! k) = (aig_fun a k v \<and> matches i [0..<m] v))"

lemma sem_nth:
  assumes "esop_sem f = aig_sem g"
  shows "length (cubes f) = length (co_nodes g)"
    and "k < length (co_nodes g) \<Longrightarrow> esop_eval v (cubes f ! k) = aig_fun g k v"
proof -
  show len: "length (cubes f) = length (co_nodes g)"
    using arg_cong [OF assms, of length] by (simp add: esop_sem_def aig_sem_def)
  assume "k < length (co_nodes g)"
  then show "esop_eval v (cubes f ! k) = aig_fun g k v"
    using arg_cong [OF assms, of "\<lambda>fs. (fs ! k) v"] len by (simp add: esop_sem_def aig_sem_def)
qed

lemma sem_eqI:
  assumes "length (cubes f) = length (co_nodes g)"
    and "\<And>k v. k < length (co_nodes g) \<Longrightarrow> esop_eval v (cubes f ! k) = aig_fun g k v"
  shows "esop_sem f = aig_sem g"
  by (rule nth_equalityI) (simp_all add: esop_sem_def aig_sem_def assms fun_eq_iff)

lemma collapsed_part:
  assumes "collapsed m a f" and "m \<le> ci_num a"
  shows "part_ok (ci_num a) m i a (f\<lparr>cubes := map (map (add_cofactor_lits m i)) (cubes f)\<rparr>)"
proof -
  have n: "ci_num a \<le> 32" and ok: "list_all (list_all (cube_ok (ci_num a))) (cubes f)"
    and free: "\<And>j. j < m \<Longrightarrow> list_all (list_all (no_lit j)) (cubes f)"
    using assms(1) unfolding collapsed_def two_lvl_ok_def by metis+
  have sem: "esop_sem f = aig_sem a" using assms(1) by (simp add: collapsed_def)
  have "list_all (cube_ok (ci_num a)) (map (add_cofactor_lits m i) cs) \<and>
      esop_eval v (map (add_cofactor_lits m i) cs) = (esop_eval v cs \<and> matches i [0..<m] v)"
    if "cs \<in> set (cubes f)" for cs v
    by (rule add_cofactor_lits_esop [OF _ n assms(2)]) (use that ok free in \<open>auto simp: list_all_iff\<close>)
  then show ?thesis
    using sem_nth [OF sem] by (simp add: part_ok_def list_all_iff)
qed

text \<open>
  What a run without failures tells: its messages to the console, and without \<^verbatim>\<open>-d\<close> nothing to the
  data logger.
\<close>

definition run_log :: "collapse_opts \<Rightarrow> nat list \<Rightarrow> string list" where
  "run_log opts is =
     concat (map (\<lambda>i. aig_line (o_cofactors opts) i #
       (if o_method opts \<noteq> ''bdd'' \<and> o_verbose opts then [''[I] Collapsing using AIG''] else [])) is)"

definition tells :: "collapse_opts \<Rightarrow> string list \<Rightarrow> 'b event list \<Rightarrow> bool" where
  "tells opts log evs \<longleftrightarrow> console_lines evs = log \<and> (\<not> o_data opts \<longrightarrow> filter is_data evs = [])"

lemma tells_append: "tells opts log evs \<Longrightarrow> tells opts log' evs' \<Longrightarrow> tells opts (log @ log') (evs @ evs')"
  by (simp add: tells_def)

lemma tells_Console: "tells opts log evs \<Longrightarrow> tells opts (msg # log) (Console msg # evs)"
  by (simp add: tells_def)

text \<open>
  A graph can be collapsed: to the same form whatever is printed and logged. \<open>part_log\<close> is what the
  console is told of it.
\<close>

definition part_log :: "collapse_opts \<Rightarrow> string list" where
  "part_log opts = (if o_method opts \<noteq> ''bdd'' \<and> o_verbose opts then [''[I] Collapsing using AIG''] else [])"

definition collapses :: "cube32 policy \<Rightarrow> ('d, 'g) packages \<Rightarrow> string \<Rightarrow> nat \<Rightarrow> aig \<Rightarrow> two_lvl32 \<Rightarrow> bool" where
  "collapses P K meth m a f \<longleftrightarrow> collapsed m a f \<and>
     (\<forall>opts. o_method opts = meth \<longrightarrow> (\<exists>evs. collapse_one P K opts a = Some (evs, Inr f) \<and> tells opts (part_log opts) evs))"

lemma run_log_Cons: "run_log opts (i # is) = aig_line (o_cofactors opts) i # part_log opts @ run_log opts is"
  by (simp add: run_log_def part_log_def)

lemma collapse_all_spec:
  assumes "\<And>a. a \<in> set as \<Longrightarrow> \<exists>f. collapses P K meth m a f \<and> ci_num a = n"
    and "m \<le> n"
  shows "\<exists>fs. (\<forall>opts. o_method opts = meth \<and> o_cofactors opts = m \<longrightarrow> (\<exists>evs. collapse_all P K opts i as = Some (evs, Inr fs) \<and>
      tells opts (run_log opts [i..<i + length as]) evs)) \<and>
    length fs = length as \<and> (\<forall>k < length as. part_ok n m (i + k) (as ! k) (fs ! k))"
  using assms(1)
proof (induction as arbitrary: i)
  case (Cons a as)
  obtain f where f: "collapses P K meth m a f" "ci_num a = n"
    using Cons.prems [of a] by auto
  obtain fs where fs: "\<And>opts. o_method opts = meth \<Longrightarrow> o_cofactors opts = m \<Longrightarrow>
        \<exists>evs. collapse_all P K opts (Suc i) as = Some (evs, Inr fs) \<and> tells opts (run_log opts [Suc i..<Suc i + length as]) evs"
      "length fs = length as" "\<forall>k < length as. part_ok n m (Suc i + k) (as ! k) (fs ! k)"
    using Cons.IH [of "Suc i"] Cons.prems by auto
  let ?f = "f\<lparr>cubes := map (map (add_cofactor_lits m i)) (cubes f)\<rparr>"
  have "part_ok n m i a ?f" using collapsed_part [of m a f i] f assms(2) by (simp add: collapses_def)
  then have "\<forall>k < length (a # as). part_ok n m (i + k) ((a # as) ! k) ((?f # fs) ! k)"
    using fs(3) by (auto simp: less_Suc_eq_0_disj)
  moreover have upt: "[i..<i + length (a # as)] = i # [Suc i..<Suc i + length as]"
    by (simp add: upt_conv_Cons del: upt_Suc)
  have "\<exists>evs. collapse_all P K opts i (a # as) = Some (evs, Inr (?f # fs)) \<and> tells opts (run_log opts [i..<i + length (a # as)]) evs"
    if opts: "o_method opts = meth" "o_cofactors opts = m" for opts
  proof -
    obtain evs evs' where e: "collapse_one P K opts a = Some (evs, Inr f)" "tells opts (part_log opts) evs"
        "collapse_all P K opts (Suc i) as = Some (evs', Inr fs)" "tells opts (run_log opts [Suc i..<Suc i + length as]) evs'"
      using f(1) fs(1) [OF opts] opts(1) unfolding collapses_def by blast
    show ?thesis unfolding upt run_log_Cons
      using e(1,3) opts tells_Console [OF tells_append [OF e(2,4)]]
      by (intro exI [of _ "Console (aig_line m i) # evs @ evs'"]) simp
  qed
  ultimately show ?case using fs(2) by (intro exI [of _ "?f # fs"]) simp
qed (simp add: run_log_def tells_def)

lemma copy_cubes_spec:
  "length cs \<le> length rs \<Longrightarrow> copy_cubes rs cs = Some (map (\<lambda>k. cs ! k @ rs ! k) [0..<length cs])"
proof (induction rs cs rule: copy_cubes.induct)
  case (3 r rs c cs)
  have "[0..<length (c # cs)] = 0 # map Suc [0..<length cs]" by (simp add: upt_conv_Cons map_Suc_upt del: upt_Suc)
  with 3 show ?case by (simp add: o_def)
qed simp_all

lemma stitch_spec:
  assumes "\<And>ret. ret \<in> set rets \<Longrightarrow> length (cubes ret) = length (cubes r) \<and>
      list_all (list_all (cube_ok (n_inputs r))) (cubes ret)" and "two_lvl_ok r"
  shows "\<exists>r'. (\<forall>w. \<exists>out. stitch P exo w rets r = Some (r', out)) \<and> n_inputs r' = n_inputs r \<and> two_lvl_ok r' \<and>
    length (cubes r') = length (cubes r) \<and> (\<forall>k < length (cubes r). \<forall>v. esop_eval v (cubes r' ! k) =
      (esop_eval v (cubes r ! k) \<noteq> esop_eval v (concat (map (\<lambda>ret. cubes ret ! k) rets))))"
  using assms
proof (induction rets arbitrary: r)
  case (Cons ret rets)
  have len: "length (cubes ret) = length (cubes r)" and ok: "list_all (list_all (cube_ok (n_inputs r))) (cubes ret)"
    using Cons.prems(1) by auto
  define r1 where "r1 = r\<lparr>cubes := map (\<lambda>k. cubes r ! k @ cubes ret ! k) [0..<length (cubes r)]\<rparr>"
  have copy: "copy_cubes (cubes ret) (cubes r) = Some (cubes r1)"
    using copy_cubes_spec [of "cubes r" "cubes ret"] len by (simp add: r1_def)
  have "list_all (cube_ok (n_inputs r)) (cubes r ! k @ cubes ret ! k)" if "k < length (cubes r)" for k
    using that Cons.prems(2) ok len by (simp add: two_lvl_ok_def list_all_length [of "list_all _"])
  then have r1: "n_inputs r1 = n_inputs r" "length (cubes r1) = length (cubes r)" "two_lvl_ok r1"
    using Cons.prems(2) by (simp_all add: r1_def two_lvl_ok_def list_all_length [of "list_all _"])
  obtain r2 where r2: "\<forall>w. \<exists>out. (if exo then exorcise P w r1 else Some (r1, '''')) = Some (r2, out)" "n_inputs r2 = n_inputs r" "two_lvl_ok r2"
      "length (cubes r2) = length (cubes r)"
      "\<forall>k < length (cubes r). \<forall>v. esop_eval v (cubes r2 ! k) = esop_eval v (cubes r1 ! k)"
  proof (cases exo)
    case True
    obtain g where "\<forall>w. \<exists>out. exorcise P w r1 = Some (g, out)" "n_inputs g = n_inputs r1" "two_lvl_ok g" "length (cubes g) = length (cubes r1)"
        "\<forall>k < length (cubes r1). \<forall>v. esop_eval v (cubes g ! k) = esop_eval v (cubes r1 ! k)"
      using exorcise_keeps [OF r1(3)] by blast
    with True that [of g] r1(1,2) show thesis by simp
  qed (use that [of r1] r1 in simp)
  obtain r' where r': "\<forall>w. \<exists>out. stitch P exo w rets r2 = Some (r', out)" "n_inputs r' = n_inputs r2" "two_lvl_ok r'"
      "length (cubes r') = length (cubes r2)" "\<forall>k < length (cubes r2). \<forall>v. esop_eval v (cubes r' ! k) =
      (esop_eval v (cubes r2 ! k) \<noteq> esop_eval v (concat (map (\<lambda>ret. cubes ret ! k) rets)))"
    using Cons.IH [OF _ r2(3)] Cons.prems(1) r2(2,4) by auto
  have "\<exists>out. stitch P exo w (ret # rets) r = Some (r', out)" for w
  proof -
    obtain out out' where "(if exo then exorcise P w r1 else Some (r1, '''')) = Some (r2, out)"
        "stitch P exo w rets r2 = Some (r', out')"
      using r2(1) r'(1) by blast
    moreover have "r\<lparr>cubes := cubes r1\<rparr> = r1" by (simp add: r1_def)
    ultimately show ?thesis using copy by (cases exo) simp_all
  qed
  moreover have "esop_eval v (cubes r' ! k) = (esop_eval v (cubes r ! k) \<noteq>
      esop_eval v (concat (map (\<lambda>ret. cubes ret ! k) (ret # rets))))" if "k < length (cubes r)" for k v
    using that r'(5) r2(4,5) by (auto simp: r1_def esop_eval_append)
  ultimately show ?case using r'(2-4) r2(2,4) by metis
qed simp

text \<open>Of all parts, one contributes.\<close>

lemma esop_concat_none: "(\<And>xs. xs \<in> set xss \<Longrightarrow> \<not> esop_eval v xs) \<Longrightarrow> \<not> esop_eval v (concat xss)"
  by (induction xss) (auto simp: esop_eval_append)

lemma esop_concat_one:
  assumes "i < length xss" and "\<And>i'. i' < length xss \<Longrightarrow> i' \<noteq> i \<Longrightarrow> \<not> esop_eval v (xss ! i')"
  shows "esop_eval v (concat xss) = esop_eval v (xss ! i)"
  using assms
proof (induction xss arbitrary: i)
  case (Cons xs xss)
  show ?case
  proof (cases i)
    case 0
    then have "\<not> esop_eval v ys" if "ys \<in> set xss" for ys
      using that Cons.prems(2) [of "Suc _"] by (metis in_set_conv_nth length_Cons nat.distinct(1) not_less_eq nth_Cons_Suc)
    then show ?thesis using esop_concat_none [of xss v] 0 by (simp add: esop_eval_append)
  next
    case (Suc i1)
    then have "\<not> esop_eval v xs" using Cons.prems(2) [of 0] by simp
    moreover have "esop_eval v (concat xss) = esop_eval v (xss ! i1)"
      by (rule Cons.IH) (use Suc Cons.prems(1) Cons.prems(2) [of "Suc _"] in auto)
    ultimately show ?thesis using Suc by (simp add: esop_eval_append)
  qed
qed simp

section \<open>The two methods\<close>

lemma aig_collapsed:
  fixes K :: "('d, 'g) packages"
  assumes "aig_ok a" and "ci_num a < 32" and "m \<le> ci_num a" and "\<And>j. j < m \<Longrightarrow> ci_unused j a" and "meth \<noteq> ''bdd''"
  shows "\<exists>f. collapses P K meth m a f"
proof -
  obtain f rows where f: "\<forall>verbose data. \<exists>evs :: 'd event list. aig_run P verbose data a aig_extr_init = Some (f, evs) \<and>
        aig_log verbose data rows (cubes f) evs" "n_inputs f = ci_num a" "two_lvl_ok f"
      "list_all2 (\<lambda>fi e. \<forall>v w. aig_model a v w \<longrightarrow> esop_eval v e = fanin_val w fi) (co_nodes a) (cubes f)"
    using aig_run_spec [where 'b = 'd and P = P, OF assms(1,2)] by blast
  obtain evs0 :: "'d event list" where run: "aig_run P False False a aig_extr_init = Some (f, evs0)" using f(1) by blast
  have "esop_sem f = aig_sem a"
  proof (rule sem_eqI)
    show "length (cubes f) = length (co_nodes a)" using f(4) by (simp add: list_all2_conv_all_nth)
    show "esop_eval v (cubes f ! k) = aig_fun a k v" if "k < length (co_nodes a)" for k v
      using list_all2_nthD [OF f(4) that] aig_val_model [OF assms(1)] by (simp add: aig_fun_def)
  qed
  moreover have "list_all (list_all (no_lit j)) (cubes f)" if "j < m" for j
    by (rule aig_run_free [OF run]) (use that assms(3,4) in auto)
  ultimately have "collapsed m a f" using f(2,3) by (simp add: collapsed_def)
  moreover have "\<exists>evs. collapse_one P K opts a = Some (evs, Inr f) \<and> tells opts (part_log opts) evs"
    if opts: "o_method opts = meth" for opts
  proof -
    obtain evs :: "'d event list" where "aig_run P (o_verbose opts) (o_data opts) a aig_extr_init = Some (f, evs)"
        "aig_log (o_verbose opts) (o_data opts) rows (cubes f) evs"
      using f(1) by blast
    then show ?thesis
      using opts assms(2,5) by (auto simp: collapse_one_def aig_extract_def aig_log_def tells_def part_log_def)
  qed
  ultimately show ?thesis unfolding collapses_def by blast
qed

context bdd_builder
begin

lemma output_bdd_val:
  assumes "aig_ok g" and "output_bdd g (co_nodes g ! k) b"
  shows "case b of None \<Rightarrow> \<forall>v. \<not> aig_fun g k v | Some f \<Rightarrow> ok f \<and> (\<forall>v. val f v = aig_fun g k v)"
  using assms(2) aig_val_model [OF assms(1)]
  by (auto simp: output_bdd_def bdd_of_def aig_fun_def fanin_val_def aig_model_def split: option.splits)

lemma bdd_collapsed:
  assumes K: "p_cudd K = D" "p_bdd K = B" and D: "dd_size D = ci_num a" "ci_num a \<le> 32"
    and a: "aig_ok a" "constants_unused a" and m: "m \<le> ci_num a"
    and ind: "\<And>j k v b. j < m \<Longrightarrow> k < length (co_nodes a) \<Longrightarrow> aig_fun a k (v(j := b)) = aig_fun a k v"
  shows "\<exists>f. collapses P K ''bdd'' m a f"
proof -
  obtain bs where bs: "\<forall>reorder verbose. \<exists>evs. aig_to_bdd B reorder verbose a = Some (bs, evs) \<and> silent evs"
      "list_all2 (output_bdd a) (co_nodes a) bs"
    using aig_to_bdd_spec [OF a] D(1) by auto
  have len: "length bs = length (co_nodes a)" using bs(2) by (simp add: list_all2_conv_all_nth)
  have val: "case bs ! k of None \<Rightarrow> \<forall>v. \<not> aig_fun a k v | Some f \<Rightarrow> ok f \<and> (\<forall>v. val f v = aig_fun a k v)"
    if "k < length (co_nodes a)" for k
    by (rule output_bdd_val [OF a(1) list_all2_nthD [OF bs(2) that]])
  have "list_all (\<lambda>fo. case fo of None \<Rightarrow> True | Some f \<Rightarrow> ok f) bs"
    using val by (fastforce simp: list_all_length len split: option.splits)
  then obtain f where f: "bdd_extract P D bs = Some ([Print (''[i] Collapsing using BDD'' @ [newline]), Elapsed] :: 'd event list, Inr f)"
      "n_inputs f = dd_size D" "two_lvl_ok f"
      "list_all2 extracted bs (cubes f)"
    using bdd_extract_spec [of bs P] D by auto
  have "esop_sem f = aig_sem a"
  proof (rule sem_eqI)
    show "length (cubes f) = length (co_nodes a)" using f(4) len by (simp add: list_all2_conv_all_nth)
    show "esop_eval v (cubes f ! k) = aig_fun a k v" if "k < length (co_nodes a)" for k v
      using list_all2_nthD [OF f(4), of k] val [OF that] that len
      by (auto simp: extracted_def split: option.splits)
  qed
  moreover have "list_all (list_all (no_lit j)) (cubes f)" if j: "j < m" for j
  proof (rule bdd_extract_free [OF f(1)])
    show "list_all (\<lambda>fo. case fo of None \<Rightarrow> True | Some f \<Rightarrow> indep j f) bs"
      unfolding list_all_length using val ind [OF j] j m D(1) len
      by (fastforce simp: indep_def split: option.splits)
  qed (use j m D(1) in simp)
  ultimately have "collapsed m a f" using f(2,3) D(1) by (simp add: collapsed_def)
  moreover have "\<exists>evs. collapse_one P K opts a = Some (evs, Inr f) \<and> tells opts (part_log opts) evs"
    if opts: "o_method opts = ''bdd''" for opts
  proof -
    obtain evs where "aig_to_bdd B (o_reorder opts) (o_verbose opts) a = Some (bs, evs)" "silent evs"
      using bs(1) by blast
    then show ?thesis using opts f(1) K by (simp add: collapse_one_def tells_def part_log_def silent_def)
  qed
  ultimately show ?thesis unfolding collapses_def by blast
qed

end

section \<open>The whole tool\<close>

text \<open>The graphs the tool collapses.\<close>

context aig_cofactoring
begin

lemma cf_aigs_spec:
  assumes "aig_ok g" and "m \<le> ci_num g" and "i < 2 ^ m"
  shows "length (cf_aigs cof m g) = 2 ^ m" and "aig_ok (cf_aigs cof m g ! i)"
    and "ci_num (cf_aigs cof m g ! i) = ci_num g"
    and "length (co_nodes (cf_aigs cof m g ! i)) = length (co_nodes g)"
    and "j < m \<Longrightarrow> ci_unused j (cf_aigs cof m g ! i)"
    and "k < length (co_nodes g) \<Longrightarrow> aig_fun (cf_aigs cof m g ! i) k v = aig_fun g k (fix_vars i {..<m} v)"
  using cofactor_vars_spec [OF assms(1), of "[0..<m]" "{}" i] assms(2,3)
  by (auto simp: cf_aigs_def list_all_iff lessThan_atLeast0)

end

text \<open>
  An assignment matches the index of one cofactor only, so that all the parts together have the value of
  that one, which is the value of the graph.
\<close>

lemma parts_sum:
  assumes cof: "aig_cofactoring (p_cofactor K)" and g: "aig_ok g" and m: "m \<le> ci_num g" and k: "k < length (co_nodes g)"
    and fs: "length fs = 2 ^ m" "\<forall>i < 2 ^ m. part_ok (ci_num g) m i (cf_aigs (p_cofactor K) m g ! i) (fs ! i)"
  shows "esop_eval v (concat (map (\<lambda>ret. cubes ret ! k) fs)) = aig_fun g k v"
proof -
  note sp = aig_cofactoring.cf_aigs_spec [OF cof g m]
  obtain i where i: "i < 2 ^ m" "matches i [0..<m] v" using matches_exists by blast
  have at: "esop_eval v (map (\<lambda>ret. cubes ret ! k) fs ! i') = (aig_fun g k (fix_vars i' {..<m} v) \<and> matches i' [0..<m] v)"
    if "i' < 2 ^ m" for i'
  proof -
    have "part_ok (ci_num g) m i' (cf_aigs (p_cofactor K) m g ! i') (fs ! i')" using fs(2) that by blast
    then show ?thesis using fs(1) that k sp(4) [OF that] sp(6) [OF that k] unfolding part_ok_def by simp
  qed
  have "esop_eval v (concat (map (\<lambda>ret. cubes ret ! k) fs)) = esop_eval v (map (\<lambda>ret. cubes ret ! k) fs ! i)"
  proof (rule esop_concat_one)
    show "i < length (map (\<lambda>ret. cubes ret ! k) fs)" using i(1) fs(1) by simp
    fix i' assume "i' < length (map (\<lambda>ret. cubes ret ! k) fs)" "i' \<noteq> i"
    then have i': "i' < 2 ^ m" "\<not> matches i' [0..<m] v"
      using fs(1) matches_unique [OF i(1) _ i(2)] by auto
    then show "\<not> esop_eval v (map (\<lambda>ret. cubes ret ! k) fs ! i')" unfolding at [OF i'(1)] by blast
  qed
  also have "\<dots> = aig_fun g k v" using at [OF i(1)] i(2) by (simp add: fix_vars_matches)
  finally show ?thesis .
qed

lemma collapse_stitched:
  assumes cof: "aig_cofactoring (p_cofactor K)" and g: "aig_ok g" "ci_num g \<le> 32" and m: "m \<le> ci_num g"
    and one: "\<And>i. i < 2 ^ m \<Longrightarrow> \<exists>f. collapses P K meth m (cf_aigs (p_cofactor K) m g ! i) f"
    and r0: "n_inputs r0 = ci_num g" "cubes r0 = replicate (length (co_nodes g)) []"
  shows "\<exists>fs f. (\<forall>opts. o_method opts = meth \<and> o_cofactors opts = m \<longrightarrow>
      (\<exists>evs. collapse_all P K opts 0 (cf_aigs (p_cofactor K) m g) = Some (evs, Inr fs) \<and>
        tells opts (run_log opts [0..<2 ^ m]) evs)) \<and>
    (\<forall>w. \<exists>out. stitch P exo w fs r0 = Some (f, out)) \<and>
    two_lvl_ok f \<and> n_inputs f = ci_num g \<and> esop_sem f = aig_sem g"
proof -
  let ?as = "cf_aigs (p_cofactor K) m g"
  note sp = aig_cofactoring.cf_aigs_spec [OF cof g(1) m]
  have len: "length ?as = 2 ^ m" using sp(1) [of 0] by simp
  have "\<exists>f. collapses P K meth m a f \<and> ci_num a = ci_num g" if a: "a \<in> set ?as" for a
    using a one sp(3) len by (metis in_set_conv_nth)
  then obtain fs where fs: "\<forall>opts. o_method opts = meth \<and> o_cofactors opts = m \<longrightarrow>
        (\<exists>evs. collapse_all P K opts 0 ?as = Some (evs, Inr fs) \<and> tells opts (run_log opts [0..<2 ^ m]) evs)"
      "length fs = 2 ^ m" "\<forall>i < 2 ^ m. part_ok (ci_num g) m i (?as ! i) (fs ! i)"
    using collapse_all_spec [of ?as P K meth m "ci_num g" 0] m len by auto
  have part: "length (cubes ret) = length (cubes r0) \<and> list_all (list_all (cube_ok (n_inputs r0))) (cubes ret)"
    if ret: "ret \<in> set fs" for ret
  proof -
    obtain i where i: "i < 2 ^ m" "ret = fs ! i" using ret fs(2) by (auto simp: in_set_conv_nth)
    have "part_ok (ci_num g) m i (?as ! i) ret" using fs(3) i by blast
    then show ?thesis using sp(4) [OF i(1)] r0 unfolding part_ok_def by simp
  qed
  have "two_lvl_ok r0" using g(2) r0 by (simp add: two_lvl_ok_def list_all_length)
  from stitch_spec [OF part this] obtain f where f: "\<forall>w. \<exists>out. stitch P exo w fs r0 = Some (f, out)" "n_inputs f = n_inputs r0" "two_lvl_ok f"
      "length (cubes f) = length (cubes r0)" "\<forall>k < length (cubes r0). \<forall>v. esop_eval v (cubes f ! k) =
      (esop_eval v (cubes r0 ! k) \<noteq> esop_eval v (concat (map (\<lambda>ret. cubes ret ! k) fs)))" by blast
  have "esop_sem f = aig_sem g"
  proof (rule sem_eqI)
    show "length (cubes f) = length (co_nodes g)" using f(4) r0 by simp
    fix k v assume k: "k < length (co_nodes g)"
    show "esop_eval v (cubes f ! k) = aig_fun g k v"
      using parts_sum [OF cof g(1) m k fs(2,3)] f(5) k r0 by simp
  qed
  with fs(1) f r0 show ?thesis by auto
qed

text \<open>
  The run of the tool on a graph that it can read, when every cofactor can be collapsed and
  the checker accepts the graph it is given.
\<close>

text \<open>What such a run leaves behind, with the form \<open>f\<close> as its result.\<close>

definition carried_out :: "collapse_opts \<Rightarrow> string \<Rightarrow> aig \<Rightarrow> two_lvl32 \<Rightarrow> ('g \<Rightarrow> ((nat \<Rightarrow> bool) \<Rightarrow> bool) list)
    \<Rightarrow> ('d, 'g) collapse_run \<Rightarrow> bool" where
  "carried_out opts path g f outs run \<longleftrightarrow> c_status run = EXIT_SUCCESS \<and>
     console_lines (c_output run) = run_log opts [0..<2 ^ o_cofactors opts] \<and>
     (\<not> o_data opts \<longrightarrow> filter is_data (c_output run) = []) \<and>
     (o_verbose opts \<or> o_werbose opts \<longrightarrow> last (c_output run) = Print (print_stats f)) \<and>
     c_files run = write_pla (o_method opts @ ''_'' @ extrac_fname path) f \<and>
     (case c_checked run of None \<Rightarrow> \<not> o_check opts | Some r \<Rightarrow> o_check opts \<and> outs r = aig_sem g)"

lemma collapse_main_spec:
  assumes cof: "aig_cofactoring (p_cofactor K)" and gia: "gia_builder (p_gia K) wfg lits lit_val n_cis outs"
    and g: "aig_ok g" "ci_num g \<le> 32" "m \<le> ci_num g"
    and one: "\<And>i. i < 2 ^ m \<Longrightarrow> \<exists>f. collapses P K meth m (cf_aigs (p_cofactor K) m g ! i) f"
    and miter: "\<forall>r. n_cis r = ci_num g \<and> length (outs r) = length (co_nodes g) \<longrightarrow> p_miter K g r"
  shows "\<exists>f. two_lvl_ok f \<and> n_inputs f = ci_num g \<and> esop_sem f = aig_sem g \<and>
    (\<forall>parse argv opts path rest. parse default_opts argv = Parsed opts (path # rest) \<and>
       p_read K path = Some g \<and> suffix ''.aig'' path \<and>
       o_method opts = meth \<and> o_cofactors opts = m \<and> o_exorcise opts = exo \<longrightarrow>
       (\<exists>run. collapse_main P K k0 n0 parse argv = Some run \<and> carried_out opts path g f outs run))"
proof -
  let ?r0 = "set_n_outputs (length (co_nodes g)) (set_n_inputs (ci_num g) (two_lvl32_uninit k0 n0))"
  have "n_inputs ?r0 = ci_num g" "cubes ?r0 = replicate (length (co_nodes g)) []"
    by (simp_all add: set_n_outputs_def set_n_inputs_def two_lvl32_uninit_def vec_resize_def)
  from collapse_stitched [OF cof g one this] obtain fs f where
    f: "\<And>opts. o_method opts = meth \<Longrightarrow> o_cofactors opts = m \<Longrightarrow>
        \<exists>evs. collapse_all P K opts 0 (cf_aigs (p_cofactor K) m g) = Some (evs, Inr fs) \<and>
          tells opts (run_log opts [0..<2 ^ m]) evs"
      "\<And>w. \<exists>out. stitch P exo w fs ?r0 = Some (f, out)"
      "two_lvl_ok f" "n_inputs f = ci_num g" "esop_sem f = aig_sem g"
    by blast
  obtain r where r: "esop_to_aig (p_gia K) f = Some r" "outs r = esop_sem f" "n_cis r = n_inputs f"
    using gia_builder.esop_to_aig_spec [OF gia f(3)] by (auto simp: esop_sem_def)
  have "length (outs r) = length (co_nodes g)" using r(2) f(5) by (simp add: aig_sem_def)
  then have mit: "p_miter K g r" using miter r(3) f(4) by simp
  have "\<exists>run. collapse_main P K k0 n0 parse argv = Some run \<and> carried_out opts path g f outs run"
    if cli: "parse default_opts argv = Parsed opts (path # rest)" and path: "p_read K path = Some g" "suffix ''.aig'' path"
      and opts: "o_method opts = meth" "o_cofactors opts = m" "o_exorcise opts = exo"
    for parse argv opts path rest
  proof -
    obtain evs where evs: "collapse_all P K opts 0 (cf_aigs (p_cofactor K) m g) = Some (evs, Inr fs)"
        "tells opts (run_log opts [0..<2 ^ m]) evs"
      using f(1) [OF opts(1,2)] by blast
    obtain out where out: "stitch P exo (o_werbose opts) fs ?r0 = Some (f, out)" using f(2) by blast
    have ok: "is_fname_ok (extrac_fname path) = (True, [])"
      using path(2) by (intro is_fname_ok_True) (simp add: is_fname_ok_iff)
    let ?run = "\<lparr>c_status = EXIT_SUCCESS,
      c_output = (if o_verbose opts then [Graph_Stats g] else []) @
        (if o_data opts then [Open_Data (o_method opts @ ''_'' @ extrac_fname path @ ''.csv'')] else []) @
        evs @ Print out # (if o_verbose opts \<or> o_werbose opts then [Print (print_stats f)] else []),
      c_files = write_pla (o_method opts @ ''_'' @ extrac_fname path) f,
      c_checked = if o_check opts then Some r else None\<rparr>"
    have "collapse_main P K k0 n0 parse argv = Some ?run"
      by (simp add: collapse_main_def cli ok path(1) opts evs(1) out r(1) mit Let_def)
    moreover have "carried_out opts path g f outs ?run"
      using evs(2) opts(2) r(2) f(5) by (simp add: carried_out_def tells_def)
    ultimately show ?thesis by blast
  qed
  with f(3-5) show ?thesis by blast
qed

lemma collapse_main_run:
  assumes "aig_cofactoring (p_cofactor K)" and "gia_builder (p_gia K) wfg lits lit_val n_cis outs"
    and "parse default_opts argv = Parsed opts (path # rest)" and "p_read K path = Some g" and "suffix ''.aig'' path"
    and "aig_ok g" and "ci_num g \<le> 32" and "o_cofactors opts \<le> ci_num g"
    and "\<And>i. i < 2 ^ o_cofactors opts \<Longrightarrow>
      \<exists>f. collapses P K meth (o_cofactors opts) (cf_aigs (p_cofactor K) (o_cofactors opts) g ! i) f"
    and "o_method opts = meth"
    and "\<forall>r. n_cis r = ci_num g \<and> length (outs r) = length (co_nodes g) \<longrightarrow> p_miter K g r"
  shows "\<exists>f run. collapse_main P K k0 n0 parse argv = Some run \<and> c_status run = EXIT_SUCCESS \<and>
    console_lines (c_output run) = run_log opts [0..<2 ^ o_cofactors opts] \<and>
    (\<not> o_data opts \<longrightarrow> filter is_data (c_output run) = []) \<and>
    (o_verbose opts \<or> o_werbose opts \<longrightarrow> last (c_output run) = Print (print_stats f)) \<and>
    c_files run = write_pla (o_method opts @ ''_'' @ extrac_fname path) f \<and>
    two_lvl_ok f \<and> n_inputs f = ci_num g \<and> esop_sem f = aig_sem g \<and>
    (case c_checked run of None \<Rightarrow> \<not> o_check opts | Some r \<Rightarrow> o_check opts \<and> outs r = aig_sem g)"
proof -
  obtain f where f: "two_lvl_ok f" "n_inputs f = ci_num g" "esop_sem f = aig_sem g"
    and run: "\<forall>parse argv opts' path rest. parse default_opts argv = Parsed opts' (path # rest) \<and>
       p_read K path = Some g \<and> suffix ''.aig'' path \<and>
       o_method opts' = meth \<and> o_cofactors opts' = o_cofactors opts \<and> o_exorcise opts' = o_exorcise opts \<longrightarrow>
       (\<exists>run. collapse_main P K k0 n0 parse argv = Some run \<and> carried_out opts' path g f outs run)"
    using collapse_main_spec [where ?k0.0 = k0 and ?n0.0 = n0 and exo = "o_exorcise opts", OF assms(1,2,6-9,11)] by blast
  from run [rule_format, of parse argv opts path rest] assms(3-5,10)
  obtain run where "collapse_main P K k0 n0 parse argv = Some run" "carried_out opts path g f outs run" by blast
  with f show ?thesis unfolding carried_out_def by blast
qed

lemma aig_cofactor_collapses:
  assumes "aig_cofactoring (p_cofactor K)" and "aig_ok g" and "ci_num g < 32" and "m \<le> ci_num g"
    and "meth \<noteq> ''bdd''" and "i < 2 ^ m"
  shows "\<exists>f. collapses P K meth m (cf_aigs (p_cofactor K) m g ! i) f"
  by (rule aig_collapsed) (use aig_cofactoring.cf_aigs_spec [OF assms(1,2,4,6)] assms(3-5) in simp_all)

lemma bdd_cofactor_collapses:
  assumes "aig_cofactoring (p_cofactor K)" and "bdd_builder (p_cudd K) level ok val (p_bdd K)"
    and "dd_size (p_cudd K) = ci_num g" and "aig_ok g" and "ci_num g \<le> 32" and "m \<le> ci_num g"
    and "list_all constants_unused (cf_aigs (p_cofactor K) m g)" and i: "i < 2 ^ m"
  shows "\<exists>f. collapses P K ''bdd'' m (cf_aigs (p_cofactor K) m g ! i) f"
proof -
  let ?as = "cf_aigs (p_cofactor K) m g"
  note sp = aig_cofactoring.cf_aigs_spec [OF assms(1,4,6) i]
  have "constants_unused (?as ! i)" using assms(7) sp(1) i by (simp add: list_all_length)
  moreover have "aig_fun (?as ! i) k (v(j := b)) = aig_fun (?as ! i) k v"
    if "j < m" "k < length (co_nodes (?as ! i))" for j k v b
    using that sp(4) sp(6) [of k] by (simp add: fix_vars_update)
  ultimately show ?thesis
    by (intro bdd_builder.bdd_collapsed [OF assms(2) refl refl]) (use sp assms(3,5,6) in simp_all)
qed

text \<open>
  What each method needs of the graph. The BDD method needs a package with the laws of \<open>bdd_builder\<close>
  over the graph's inputs, and cofactors that do not use the constant.
\<close>

definition method_ok :: "('d, 'g) packages \<Rightarrow> (nat \<Rightarrow> nat) \<Rightarrow> ('d \<Rightarrow> bool) \<Rightarrow> ('d \<Rightarrow> (nat \<Rightarrow> bool) \<Rightarrow> bool) \<Rightarrow>
    string \<Rightarrow> nat \<Rightarrow> aig \<Rightarrow> bool" where
  "method_ok K level ok val meth m g \<longleftrightarrow> m \<le> ci_num g \<and>
     (if meth = ''bdd''
      then ci_num g \<le> 32 \<and> bdd_builder (p_cudd K) level ok val (p_bdd K) \<and> dd_size (p_cudd K) = ci_num g \<and>
        list_all constants_unused (cf_aigs (p_cofactor K) m g)
      else ci_num g < 32)"

lemma method_ok_collapses:
  assumes "aig_cofactoring (p_cofactor K)" and "aig_ok g" and "method_ok K level ok val meth m g"
  shows "ci_num g \<le> 32" and "m \<le> ci_num g"
    and "i < 2 ^ m \<Longrightarrow> \<exists>f. collapses P K meth m (cf_aigs (p_cofactor K) m g ! i) f"
proof -
  show "ci_num g \<le> 32" "m \<le> ci_num g"
    using assms(3) by (auto simp: method_ok_def split: if_splits)
  show "\<exists>f. collapses P K meth m (cf_aigs (p_cofactor K) m g ! i) f" if "i < 2 ^ m"
    using assms(3) that bdd_cofactor_collapses [OF assms(1), of level ok val g m i P]
      aig_cofactor_collapses [OF assms(1,2), of m meth i P] assms(2)
    by (cases "meth = ''bdd''") (simp_all add: method_ok_def)
qed

text \<open>Two runs that differ in the options for messages, for logging and for the check only.\<close>

lemma collapse_main_pair:
  assumes "aig_cofactoring (p_cofactor K)" and "gia_builder (p_gia K) wfg lits lit_val n_cis outs"
    and "aig_ok g" and "method_ok K level ok val (o_method opts) (o_cofactors opts) g"
    and "\<forall>r. n_cis r = ci_num g \<and> length (outs r) = length (co_nodes g) \<longrightarrow> p_miter K g r"
    and "p_read K path = Some g" and "suffix ''.aig'' path"
    and "parse default_opts argv = Parsed opts (path # rest)" and "parse default_opts argv' = Parsed opts' (path # rest')"
    and "o_method opts' = o_method opts" and "o_cofactors opts' = o_cofactors opts" and "o_exorcise opts' = o_exorcise opts"
  shows "\<exists>f run run'. collapse_main P K k0 n0 parse argv = Some run \<and> collapse_main P K k0 n0 parse argv' = Some run' \<and>
    carried_out opts path g f outs run \<and> carried_out opts' path g f outs run'"
proof -
  note ok = method_ok_collapses [OF assms(1,3,4)]
  obtain f where run: "\<forall>parse argv opts' path rest. parse default_opts argv = Parsed opts' (path # rest) \<and>
       p_read K path = Some g \<and> suffix ''.aig'' path \<and>
       o_method opts' = o_method opts \<and> o_cofactors opts' = o_cofactors opts \<and> o_exorcise opts' = o_exorcise opts \<longrightarrow>
       (\<exists>run. collapse_main P K k0 n0 parse argv = Some run \<and> carried_out opts' path g f outs run)"
    using collapse_main_spec [where ?k0.0 = k0 and ?n0.0 = n0 and exo = "o_exorcise opts" and P = P,
      OF assms(1-3) ok assms(5)] by blast
  from run [rule_format, of parse argv opts path rest] run [rule_format, of parse argv' opts' path rest'] assms(6-12)
  show ?thesis by blast
qed

text \<open>
  How a run ends that is not carried out: a bad name is a failure, a graph with too many inputs is
  not, and neither is the verdict of the equivalence checker.
\<close>

lemma collapse_main_bad_name:
  assumes "parse default_opts argv = Parsed opts (path # rest)" and "\<not> suffix ''.aig'' path"
  shows "\<exists>msg. collapse_main P K k0 n0 parse argv = Some (collapse_stop EXIT_FAILURE [Console msg])"
proof -
  have "\<not> fst (is_fname_ok (extrac_fname path))" using assms(2) by (simp add: is_fname_ok_iff)
  then obtain msg where "is_fname_ok (extrac_fname path) = (False, [msg])"
    by (auto simp: is_fname_ok_def split: option.splits if_splits)
  then show ?thesis by (intro exI [of _ msg]) (simp add: collapse_main_def assms(1))
qed

lemma collapse_main_too_many:
  fixes K :: "('d, 'g) packages"
  assumes cof: "aig_cofactoring (p_cofactor K)" and cli: "parse default_opts argv = Parsed opts (path # rest)"
    and meth: "o_method opts \<noteq> ''bdd''"
    and g: "p_read K path = Some g" "suffix ''.aig'' path" "aig_ok g" "32 < ci_num g" "o_cofactors opts \<le> ci_num g"
  shows "\<exists>run. collapse_main P K k0 n0 parse argv = Some run \<and> c_status run = EXIT_SUCCESS \<and>
    c_files run = [] \<and> c_checked run = None \<and> console_lines (c_output run) =
      [aig_line (o_cofactors opts) 0, ''[I] Cannot handle more than 32 input variables'']"
proof -
  let ?as = "cf_aigs (p_cofactor K) (o_cofactors opts) g"
  let ?log = "[Console (aig_line (o_cofactors opts) 0), Console ''[I] Cannot handle more than 32 input variables''] :: 'd event list"
  note sp = aig_cofactoring.cf_aigs_spec [OF cof g(3,5)]
  obtain a as where as: "?as = a # as" using sp(1) [of 0] by (cases ?as) auto
  have "ci_num a = ci_num g" using sp(3) [of 0] as by simp
  then have all: "collapse_all P K opts 0 ?as = Some (?log, Inl Too_Many_Inputs)"
    using meth g(4) by (simp add: as collapse_one_def aig_extract_def)
  have ok: "is_fname_ok (extrac_fname path) = (True, [])"
    using g(2) by (intro is_fname_ok_True) (simp add: is_fname_ok_iff)
  show ?thesis by (simp add: collapse_main_def cli ok g(1) all collapse_stop_def)
qed

lemma p_cec_simps:
  "p_read (K\<lparr>p_cec := q\<rparr>) = p_read K" "p_cofactor (K\<lparr>p_cec := q\<rparr>) = p_cofactor K"
  "p_cudd (K\<lparr>p_cec := q\<rparr>) = p_cudd K" "p_bdd (K\<lparr>p_cec := q\<rparr>) = p_bdd K"
  "p_gia (K\<lparr>p_cec := q\<rparr>) = p_gia K" "p_miter (K\<lparr>p_cec := q\<rparr>) = p_miter K"
  by simp_all

lemma collapse_one_cec: "collapse_one P (K\<lparr>p_cec := q\<rparr>) = collapse_one P K"
  unfolding collapse_one_def fun_eq_iff p_cec_simps by (rule allI refl)+

lemma collapse_all_cec:
  "collapse_all P (K\<lparr>p_cec := q\<rparr>) opts i as = collapse_all P K opts i as"
proof (induction as arbitrary: i)
  case (Cons a as)
  show ?case unfolding collapse_all.simps collapse_one_cec Cons.IH by (rule refl)
qed simp

lemma collapse_main_cec: "collapse_main P (K\<lparr>p_cec := q\<rparr>) k0 n0 parse argv = collapse_main P K k0 n0 parse argv"
  unfolding collapse_main_def p_cec_simps collapse_all_cec Let_def by (rule refl)

end
