(* ===== verification/Robdd.thy ===== *)
theory Robdd
  imports Aig_To_Bdd
begin

text \<open>
  An instance of the contracts \<open>bdd_package\<close> and \<open>bdd_builder\<close>: reduced ordered binary decision diagrams as
  trees, without complement edges and in the order of the variables. CUDD itself is not part
  of the repository; the instance shows that the contracts can be met, for every number of
  variables, and is what the examples of the development run on.
\<close>

datatype robdd = Leaf bool | Node nat robdd robdd

fun robdd_eval :: "robdd \<Rightarrow> (nat \<Rightarrow> bool) \<Rightarrow> bool" where
  "robdd_eval (Leaf b) v = b"
| "robdd_eval (Node i e t) v = (if v i then robdd_eval t v else robdd_eval e v)"

definition robdd_mk :: "nat \<Rightarrow> robdd \<Rightarrow> robdd \<Rightarrow> robdd" where
  "robdd_mk i e t = (if e = t then e else Node i e t)"

fun robdd_apply :: "(bool \<Rightarrow> bool \<Rightarrow> bool) \<Rightarrow> robdd \<Rightarrow> robdd \<Rightarrow> robdd" where
  "robdd_apply h (Leaf a) (Leaf b) = Leaf (h a b)"
| "robdd_apply h (Leaf a) (Node j e' t') = robdd_mk j (robdd_apply h (Leaf a) e') (robdd_apply h (Leaf a) t')"
| "robdd_apply h (Node i e t) (Leaf b) = robdd_mk i (robdd_apply h e (Leaf b)) (robdd_apply h t (Leaf b))"
| "robdd_apply h (Node i e t) (Node j e' t') =
     (if i = j then robdd_mk i (robdd_apply h e e') (robdd_apply h t t')
      else if i < j then robdd_mk i (robdd_apply h e (Node j e' t')) (robdd_apply h t (Node j e' t'))
      else robdd_mk j (robdd_apply h (Node i e t) e') (robdd_apply h (Node i e t) t'))"

definition robdd_xor :: "robdd \<Rightarrow> robdd \<Rightarrow> robdd" where
  "robdd_xor = robdd_apply (\<noteq>)"

definition robdd_not :: "robdd \<Rightarrow> robdd" where
  "robdd_not = robdd_xor (Leaf True)"

text \<open>Ordered and reduced, over the variables from \<open>k\<close> up to below \<open>n\<close>.\<close>

fun robdd_ok :: "nat \<Rightarrow> nat \<Rightarrow> robdd \<Rightarrow> bool" where
  "robdd_ok n k (Leaf b) = True"
| "robdd_ok n k (Node i e t) = (k \<le> i \<and> i < n \<and> e \<noteq> t \<and> robdd_ok n (Suc i) e \<and> robdd_ok n (Suc i) t)"

fun robdd_top :: "nat \<Rightarrow> robdd \<Rightarrow> nat" where
  "robdd_top n (Leaf b) = n"
| "robdd_top n (Node i e t) = i"

definition robdd_package :: "nat \<Rightarrow> robdd cudd" where
  "robdd_package n =
     \<lparr>dd_size = n, dd_zero = Leaf False, dd_one = Leaf True,
      dd_index = (\<lambda>f. robdd_top 0 f),
      dd_E = (\<lambda>f. case f of Node i e t \<Rightarrow> e | _ \<Rightarrow> f),
      dd_T = (\<lambda>f. case f of Node i e t \<Rightarrow> t | _ \<Rightarrow> f),
      dd_is_complement = (\<lambda>_. False),
      dd_not_cond = (\<lambda>f c. if c then robdd_not f else f),
      dd_xor = robdd_xor\<rparr>"

definition robdd_api :: "robdd bdd_api" where
  "robdd_api =
     \<lparr>bdd_var = (\<lambda>i. Node i (Leaf False) (Leaf True)), bdd_not = robdd_not, bdd_and = robdd_apply (\<and>)\<rparr>"

lemma robdd_ok_mono: "robdd_ok n k f \<Longrightarrow> k' \<le> k \<Longrightarrow> robdd_ok n k' f"
  by (cases f) auto

lemma robdd_mk_ok:
  "k \<le> i \<Longrightarrow> i < n \<Longrightarrow> robdd_ok n (Suc i) e \<Longrightarrow> robdd_ok n (Suc i) t \<Longrightarrow> robdd_ok n k (robdd_mk i e t)"
  using robdd_ok_mono [of n "Suc i" e k] by (auto simp: robdd_mk_def)

lemma robdd_mk_eval: "robdd_eval (robdd_mk i e t) v = (if v i then robdd_eval t v else robdd_eval e v)"
  by (auto simp: robdd_mk_def)

lemma robdd_apply_eval: "robdd_eval (robdd_apply h f g) v = h (robdd_eval f v) (robdd_eval g v)"
  by (induction h f g rule: robdd_apply.induct) (auto simp: robdd_mk_eval)

lemma robdd_apply_ok: "robdd_ok n k f \<Longrightarrow> robdd_ok n k g \<Longrightarrow> robdd_ok n k (robdd_apply h f g)"
proof (induction h f g arbitrary: k rule: robdd_apply.induct)
  case (4 h i e t j e' t')
  have f: "k \<le> i" "i < n" "e \<noteq> t" "robdd_ok n (Suc i) e" "robdd_ok n (Suc i) t"
    and g: "k \<le> j" "j < n" "e' \<noteq> t'" "robdd_ok n (Suc j) e'" "robdd_ok n (Suc j) t'"
    using "4.prems" by simp_all
  consider "i = j" | "i < j" | "j < i" by linarith
  then show ?case
  proof cases
    case 1
    then show ?thesis using "4.IH"(1,2) f g by (simp add: robdd_mk_ok)
  next
    case 2
    then show ?thesis using "4.IH"(3,4) f g by (simp add: robdd_mk_ok)
  next
    case 3
    then show ?thesis using "4.IH"(5,6) f g by (simp add: robdd_mk_ok)
  qed
qed (auto simp: robdd_mk_ok)

lemma robdd_ok_top: "robdd_ok n k f \<Longrightarrow> k \<le> n \<Longrightarrow> robdd_ok n (robdd_top n f) f \<and> k \<le> robdd_top n f"
  by (cases f) auto

lemma robdd_top_ge: "robdd_ok n k f \<Longrightarrow> k \<le> n \<Longrightarrow> k \<le> robdd_top n f"
  by (cases f) auto

lemma robdd_level: "dd_level (robdd_package n) id f = robdd_top n f"
  by (cases f) (auto simp: dd_level_def robdd_package_def)

lemma robdd_top_xor:
  assumes "robdd_ok n 0 f" and "robdd_ok n 0 g"
  shows "min (robdd_top n f) (robdd_top n g) \<le> robdd_top n (robdd_xor f g)"
proof -
  let ?k = "min (robdd_top n f) (robdd_top n g)"
  have "robdd_ok n ?k f" "robdd_ok n ?k g"
    using robdd_ok_top [OF assms(1)] robdd_ok_top [OF assms(2)] by (auto intro: robdd_ok_mono)
  moreover have "?k \<le> n" using assms by (cases f) auto
  ultimately show ?thesis unfolding robdd_xor_def using robdd_apply_ok robdd_top_ge by blast
qed

text \<open>Diagrams with the same function are the same.\<close>

lemma robdd_eval_above: "robdd_ok n k f \<Longrightarrow> i < k \<Longrightarrow> robdd_eval f (v(i := b)) = robdd_eval f v"
  by (induction f arbitrary: k) auto

lemma robdd_children_eq:
  assumes "robdd_ok n k (Node i e t)" and "\<And>v. robdd_eval (Node i e t) v = h v"
    and "\<And>v b. h (v(i := b)) = h v"
  shows "robdd_eval e v = h v" and "robdd_eval t v = h v"
proof -
  have ok: "robdd_ok n (Suc i) e" "robdd_ok n (Suc i) t" using assms(1) by simp_all
  show "robdd_eval e v = h v"
    using assms(2) [of "v(i := False)"] assms(3) robdd_eval_above [OF ok(1), of i v] by simp
  show "robdd_eval t v = h v"
    using assms(2) [of "v(i := True)"] assms(3) robdd_eval_above [OF ok(2), of i v] by simp
qed

lemma robdd_same_var:
  assumes "robdd_ok n k (Node i e t)" and "robdd_ok n k' (Node i e' t')"
    and "\<And>v. robdd_eval (Node i e t) v = robdd_eval (Node i e' t') v"
  shows "robdd_eval e v = robdd_eval e' v" and "robdd_eval t v = robdd_eval t' v"
proof -
  have ok: "robdd_ok n (Suc i) e" "robdd_ok n (Suc i) t" "robdd_ok n (Suc i) e'" "robdd_ok n (Suc i) t'"
    using assms(1,2) by simp_all
  note ab = ok [THEN robdd_eval_above, OF lessI]
  show "robdd_eval e v = robdd_eval e' v" using assms(3) [of "v(i := False)"] by (simp add: ab)
  show "robdd_eval t v = robdd_eval t' v" using assms(3) [of "v(i := True)"] by (simp add: ab)
qed

lemma robdd_other_var:
  assumes "robdd_ok n k (Node i e t)" and "robdd_ok n (Suc i) g"
    and "\<And>v. robdd_eval (Node i e t) v = robdd_eval g v"
  shows "robdd_eval e v = robdd_eval g v" and "robdd_eval t v = robdd_eval g v"
  by (rule robdd_children_eq [OF assms(1,3)], rule robdd_eval_above [OF assms(2) lessI])+

lemma robdd_unique:
  assumes "robdd_ok n k f" and "robdd_ok n k g" and "\<And>v. robdd_eval f v = robdd_eval g v"
  shows "f = g"
  using assms
proof (induction "\<lambda>(_ :: bool) (_ :: bool). True" f g arbitrary: k rule: robdd_apply.induct)
  case (1 a b)
  then show ?case by simp
next
  case (2 a j e' t')
  have "robdd_eval e' v = a" "robdd_eval t' v = a" for v
    using robdd_other_var [OF "2.prems"(2), of "Leaf a"] "2.prems"(3) by auto
  then have "Leaf a = e'" "Leaf a = t'"
    using "2.hyps"(1) [of "Suc j"] "2.hyps"(2) [of "Suc j"] "2.prems"(2) by auto
  with "2.prems"(2) show ?case by simp
next
  case (3 i e t b)
  have "robdd_eval e v = b" "robdd_eval t v = b" for v
    using robdd_other_var [OF "3.prems"(1), of "Leaf b"] "3.prems"(3) by auto
  then have "e = Leaf b" "t = Leaf b"
    using "3.hyps"(1) [of "Suc i"] "3.hyps"(2) [of "Suc i"] "3.prems"(1) by auto
  with "3.prems"(1) show ?case by simp
next
  case (4 i e t j e' t')
  let ?f = "Node i e t" and ?g = "Node j e' t'"
  have f: "e \<noteq> t" "robdd_ok n (Suc i) e" "robdd_ok n (Suc i) t" "i < n"
    and g: "e' \<noteq> t'" "robdd_ok n (Suc j) e'" "robdd_ok n (Suc j) t'" "j < n"
    using "4.prems"(1,2) by simp_all
  consider "i = j" | "i < j" | "j < i" by linarith
  then show ?case
  proof cases
    case 1
    then have "e = e'" "t = t'"
      using "4.hyps"(1) [OF 1 f(2)] "4.hyps"(2) [OF 1 f(3)] g(2,3)
        robdd_same_var [OF "4.prems"(1) "4.prems"(2,3) [folded 1]] by blast+
    with 1 show ?thesis by simp
  next
    case 2
    have ok: "robdd_ok n (Suc i) ?g" using g 2 by simp
    then have "e = ?g" "t = ?g"
      using "4.hyps"(3) [OF _ 2 f(2) ok] "4.hyps"(4) [OF _ 2 f(3) ok] 2
        robdd_other_var [OF "4.prems"(1) ok "4.prems"(3)] by blast+
    with f(1) show ?thesis by simp
  next
    case 3
    have ok: "robdd_ok n (Suc j) ?f" using f 3 by simp
    then have "?f = e'" "?f = t'"
      using "4.hyps"(5) [OF _ _ ok g(2)] "4.hyps"(6) [OF _ _ ok g(3)] 3
        robdd_other_var [OF "4.prems"(2) ok "4.prems"(3) [symmetric]] by fastforce+
    with g(1) show ?thesis by simp
  qed
qed

interpretation rb: bdd_package "robdd_package n" id "robdd_ok n 0" robdd_eval for n :: nat
proof
  fix f
  assume f: "robdd_ok n 0 f" and "f \<noteq> dd_zero (robdd_package n)" "f \<noteq> dd_one (robdd_package n)"
  then obtain i e t where n: "f = Node i e t" by (cases f) (auto simp: robdd_package_def)
  have co: "cofactor0 (robdd_package n) f = e" "cofactor1 (robdd_package n) f = t"
    by (simp_all add: n cofactor0_def cofactor1_def robdd_package_def)
  have i: "dd_index (robdd_package n) f = i" by (simp add: n robdd_package_def)
  show "dd_index (robdd_package n) f < dd_size (robdd_package n)"
    using f by (simp add: i n robdd_package_def)
  show "robdd_ok n 0 (cofactor0 (robdd_package n) f) \<and> robdd_ok n 0 (cofactor1 (robdd_package n) f)"
    using f unfolding co by (auto simp: n intro: robdd_ok_mono)
  show "cofactor0 (robdd_package n) f \<noteq> cofactor1 (robdd_package n) f"
    using f unfolding co by (simp add: n)
  show "id (dd_index (robdd_package n) f) < dd_level (robdd_package n) id (cofactor0 (robdd_package n) f) \<and>
      id (dd_index (robdd_package n) f) < dd_level (robdd_package n) id (cofactor1 (robdd_package n) f)"
    using f robdd_top_ge [of n "Suc i" e] robdd_top_ge [of n "Suc i" t]
    unfolding co i robdd_level by (simp add: n)
  show "robdd_eval f v = (if v (dd_index (robdd_package n) f)
      then robdd_eval (cofactor1 (robdd_package n) f) v else robdd_eval (cofactor0 (robdd_package n) f) v)" for v
    unfolding co i by (simp add: n)
next
  fix f g assume "robdd_ok n 0 f" "robdd_ok n 0 g"
  then show "min (dd_level (robdd_package n) id f) (dd_level (robdd_package n) id g)
      \<le> dd_level (robdd_package n) id (dd_xor (robdd_package n) f g)"
    using robdd_top_xor by (simp only: robdd_level) (simp add: robdd_package_def)
  show "robdd_eval (dd_xor (robdd_package n) f g) v = (robdd_eval f v \<noteq> robdd_eval g v)" for v
    by (simp add: robdd_package_def robdd_xor_def robdd_apply_eval)
  show "robdd_ok n 0 (dd_xor (robdd_package n) f g)"
    using \<open>robdd_ok n 0 f\<close> \<open>robdd_ok n 0 g\<close> by (simp add: robdd_package_def robdd_xor_def robdd_apply_ok)
  show "f = g" if "\<forall>v. robdd_eval f v = robdd_eval g v"
    using robdd_unique \<open>robdd_ok n 0 f\<close> \<open>robdd_ok n 0 g\<close> that by blast
qed (simp_all add: robdd_package_def)

interpretation rbb: bdd_builder "robdd_package n" id "robdd_ok n 0" robdd_eval robdd_api for n :: nat
  by unfold_locales
    (simp_all add: robdd_package_def robdd_api_def robdd_not_def robdd_xor_def robdd_apply_eval robdd_apply_ok)

end
