(* ===== verification/Gia_Graph.thy ===== *)
theory Gia_Graph
  imports Esop_To_Aig
begin

text \<open>
  Graphs as lists of gates, with the calls \<^verbatim>\<open>esop_to_aig\<close> makes, to show that the contract of
  \<open>gia_builder\<close> can be met. Object 0 is the constant, the next ones are the inputs, then the
  gates in the order of their creation; conjunctions with a constant or of equal literals
  need no gate, and an exclusive or is three conjunctions.
\<close>

record graph =
  gr_cis :: nat
  gr_gates :: "(nat \<times> nat) list"
  gr_cos :: "nat list"

definition list_lit :: "bool list \<Rightarrow> nat \<Rightarrow> bool" where
  "list_lit vs l = (vs ! (l div 2) \<noteq> odd l)"

fun gate_vals :: "(nat \<times> nat) list \<Rightarrow> bool list \<Rightarrow> bool list" where
  "gate_vals [] vs = vs"
| "gate_vals ((a, b) # gs) vs = gate_vals gs (vs @ [list_lit vs a \<and> list_lit vs b])"

definition graph_vals :: "graph \<Rightarrow> (nat \<Rightarrow> bool) \<Rightarrow> bool list" where
  "graph_vals g v = gate_vals (gr_gates g) (False # map v [0..<gr_cis g])"

definition graph_lit :: "graph \<Rightarrow> nat \<Rightarrow> (nat \<Rightarrow> bool) \<Rightarrow> bool" where
  "graph_lit g l v = list_lit (graph_vals g v) l"

definition graph_objs :: "graph \<Rightarrow> nat" where
  "graph_objs g = Suc (gr_cis g + length (gr_gates g))"

definition graph_has :: "graph \<Rightarrow> nat \<Rightarrow> bool" where
  "graph_has g l \<longleftrightarrow> l div 2 < graph_objs g"

definition graph_ok :: "graph \<Rightarrow> bool" where
  "graph_ok g \<longleftrightarrow> list_all (graph_has g) (gr_cos g)"

definition graph_outs :: "graph \<Rightarrow> ((nat \<Rightarrow> bool) \<Rightarrow> bool) list" where
  "graph_outs g = map (graph_lit g) (gr_cos g)"

definition lit_not :: "nat \<Rightarrow> nat" where
  "lit_not l = (if even l then l + 1 else l - 1)"

definition graph_and :: "graph \<Rightarrow> nat \<Rightarrow> nat \<Rightarrow> graph \<times> nat" where
  "graph_and g a b =
     (if a = 0 \<or> b = 0 then (g, 0)
      else if a = 1 \<or> a = b then (g, b)
      else if b = 1 then (g, a)
      else (g\<lparr>gr_gates := gr_gates g @ [(a, b)]\<rparr>, 2 * graph_objs g))"

definition graph_xor :: "graph \<Rightarrow> nat \<Rightarrow> nat \<Rightarrow> graph \<times> nat" where
  "graph_xor g a b =
     (let (g1, l1) = graph_and g a (lit_not b);
          (g2, l2) = graph_and g1 (lit_not a) b;
          (g3, l3) = graph_and g2 (lit_not l1) (lit_not l2)
      in (g3, lit_not l3))"

definition graph_api :: "graph gia_api" where
  "graph_api = \<lparr>gia_start = \<lparr>gr_cis = 0, gr_gates = [], gr_cos = []\<rparr>,
     gia_append_ci = (\<lambda>g. g\<lparr>gr_cis := Suc (gr_cis g)\<rparr>),
     gia_hash_and = graph_and, gia_hash_xor = graph_xor,
     gia_append_co = (\<lambda>g l. g\<lparr>gr_cos := gr_cos g @ [l]\<rparr>), gia_cleanup = id\<rparr>"

section \<open>The values of the literals\<close>

lemma gate_vals_snoc:
  "gate_vals (gs @ [(a, b)]) vs = gate_vals gs vs @ [list_lit (gate_vals gs vs) a \<and> list_lit (gate_vals gs vs) b]"
  by (induction gs vs rule: gate_vals.induct) simp_all

lemma length_gate_vals [simp]: "length (gate_vals gs vs) = length vs + length gs"
  by (induction gs vs rule: gate_vals.induct) simp_all

lemma gate_vals_old: "i < length vs \<Longrightarrow> gate_vals gs vs ! i = vs ! i"
  by (induction gs vs rule: gate_vals.induct) (simp_all add: nth_append)

lemma length_graph_vals [simp]: "length (graph_vals g v) = graph_objs g"
  by (simp add: graph_vals_def graph_objs_def)

lemma graph_vals_snoc:
  "graph_vals (g\<lparr>gr_gates := gr_gates g @ [(a, b)]\<rparr>) v = graph_vals g v @ [graph_lit g a v \<and> graph_lit g b v]"
  by (simp add: graph_vals_def graph_lit_def gate_vals_snoc)

lemma list_lit_append: "l div 2 < length vs \<Longrightarrow> list_lit (vs @ ws) l = list_lit vs l"
  by (simp add: list_lit_def nth_append)

lemma graph_lit_const [simp]: "\<not> graph_lit g 0 v" "graph_lit g (Suc 0) v"
  by (simp_all add: graph_lit_def list_lit_def graph_vals_def gate_vals_old)

lemma graph_has_const [simp]: "graph_has g 0" "graph_has g (Suc 0)"
  by (simp_all add: graph_has_def graph_objs_def)

lemma graph_lit_ci:
  "k < gr_cis g \<Longrightarrow> graph_has g (2 * k + 2 + (if c then 1 else 0)) \<and>
     graph_lit g (2 * k + 2 + (if c then 1 else 0)) v = (v k \<noteq> c)"
  by (auto simp: graph_has_def graph_objs_def graph_lit_def list_lit_def graph_vals_def gate_vals_old)

lemma lit_not_div: "lit_not l div 2 = l div 2"
  by (auto simp: lit_not_def elim: oddE)

lemma graph_not [simp]:
  "graph_has g (lit_not l) = graph_has g l" "graph_lit g (lit_not l) v = (\<not> graph_lit g l v)"
  unfolding graph_has_def graph_lit_def list_lit_def lit_not_div by (auto simp: lit_not_def)

text \<open>What every gate does: the literals there were keep their values.\<close>

definition extends :: "graph \<Rightarrow> graph \<Rightarrow> bool" where
  "extends g g' \<longleftrightarrow> gr_cis g' = gr_cis g \<and> gr_cos g' = gr_cos g \<and>
     (\<forall>l. graph_has g l \<longrightarrow> graph_has g' l \<and> graph_lit g' l = graph_lit g l)"

lemma extends_refl: "extends g g"
  by (simp add: extends_def)

lemma extends_trans: "extends g g1 \<Longrightarrow> extends g1 g2 \<Longrightarrow> extends g g2"
  by (simp add: extends_def)

lemma extends_outs: "extends g g' \<Longrightarrow> graph_ok g \<Longrightarrow> graph_ok g' \<and> graph_outs g' = graph_outs g"
  by (auto simp: extends_def graph_ok_def graph_outs_def list_all_iff)

lemma extends_gate: "extends g (g\<lparr>gr_gates := gr_gates g @ [ab]\<rparr>)"
  by (cases ab)
    (auto simp: extends_def graph_has_def graph_objs_def graph_lit_def graph_vals_snoc list_lit_append fun_eq_iff)

lemma graph_and_spec:
  assumes "graph_has g a" and "graph_has g b" and "graph_and g a b = (g', l)"
  shows "extends g g' \<and> graph_has g' l \<and> (\<forall>v. graph_lit g' l v = (graph_lit g a v \<and> graph_lit g b v))"
proof (cases "a = 0 \<or> b = 0 \<or> a = 1 \<or> a = b \<or> b = 1")
  case True
  then show ?thesis using assms by (auto simp: graph_and_def extends_refl split: if_splits)
next
  case False
  then have g': "g' = g\<lparr>gr_gates := gr_gates g @ [(a, b)]\<rparr>" and l: "l = 2 * graph_objs g"
    using assms(3) by (auto simp: graph_and_def)
  have "graph_lit g' l v = (graph_lit g a v \<and> graph_lit g b v)" for v
    unfolding g' l graph_lit_def [of _ "2 * _"] graph_vals_snoc by (simp add: list_lit_def nth_append)
  moreover have "graph_has g' l" by (simp add: g' l graph_has_def graph_objs_def)
  ultimately show ?thesis using extends_gate [of g] g' by blast
qed

lemma graph_xor_spec:
  assumes "graph_has g a" and "graph_has g b" and "graph_xor g a b = (g', l)"
  shows "extends g g' \<and> graph_has g' l \<and> (\<forall>v. graph_lit g' l v = (graph_lit g a v \<noteq> graph_lit g b v))"
proof -
  obtain g1 l1 where g1: "graph_and g a (lit_not b) = (g1, l1)" by fastforce
  obtain g2 l2 where g2: "graph_and g1 (lit_not a) b = (g2, l2)" by fastforce
  obtain g3 l3 where g3: "graph_and g2 (lit_not l1) (lit_not l2) = (g3, l3)" by fastforce
  have r: "g' = g3" "l = lit_not l3" using assms(3) g1 g2 g3 by (simp_all add: graph_xor_def)
  have s1: "extends g g1" "graph_has g1 l1" "\<forall>v. graph_lit g1 l1 v = (graph_lit g a v \<and> \<not> graph_lit g b v)"
    using graph_and_spec [OF assms(1) _ g1] assms(2) by auto
  have s2: "extends g1 g2" "graph_has g2 l2" "\<forall>v. graph_lit g2 l2 v = (\<not> graph_lit g a v \<and> graph_lit g b v)"
    using graph_and_spec [OF _ _ g2] assms(1,2) s1(1) by (auto simp: extends_def)
  have s3: "extends g2 g3" "graph_has g3 l3"
      "\<forall>v. graph_lit g3 l3 v = (\<not> graph_lit g1 l1 v \<and> \<not> graph_lit g2 l2 v)"
    using graph_and_spec [OF _ _ g3] s1(2) s2(1,2) by (auto simp: extends_def)
  show ?thesis unfolding r using extends_trans [OF extends_trans [OF s1(1) s2(1)] s3(1)] s1(3) s2(3) s3(2,3) by auto
qed

lemma graph_start: "(gia_append_ci graph_api ^^ n) (gia_start graph_api) = \<lparr>gr_cis = n, gr_gates = [], gr_cos = []\<rparr>"
  by (induction n) (simp_all add: graph_api_def)

interpretation gr: gia_builder graph_api graph_ok graph_has graph_lit gr_cis graph_outs
proof unfold_locales
  fix n
  show "graph_ok ((gia_append_ci graph_api ^^ n) (gia_start graph_api)) \<and>
      gr_cis ((gia_append_ci graph_api ^^ n) (gia_start graph_api)) = n \<and>
      graph_outs ((gia_append_ci graph_api ^^ n) (gia_start graph_api)) = []"
    unfolding graph_start by (simp add: graph_ok_def graph_outs_def)
next
  fix k n :: nat and c v assume "k < n"
  then show "graph_has ((gia_append_ci graph_api ^^ n) (gia_start graph_api)) (2 * k + 2 + (if c then 1 else 0)) \<and>
      graph_lit ((gia_append_ci graph_api ^^ n) (gia_start graph_api)) (2 * k + 2 + (if c then 1 else 0)) v = (v k \<noteq> c)"
    unfolding graph_start by (intro graph_lit_ci) simp
next
  fix g a b g' l assume "graph_ok g" "graph_has g a" "graph_has g b" "gia_hash_and graph_api g a b = (g', l)"
  with graph_and_spec [of g a b g' l] extends_outs [of g g']
  show "graph_ok g' \<and> gr_cis g' = gr_cis g \<and> graph_outs g' = graph_outs g \<and> graph_has g' l \<and>
      (\<forall>v. graph_lit g' l v = (graph_lit g a v \<and> graph_lit g b v)) \<and>
      (\<forall>l. graph_has g l \<longrightarrow> graph_has g' l \<and> graph_lit g' l = graph_lit g l)"
    by (simp add: graph_api_def extends_def)
next
  fix g a b g' l assume "graph_ok g" "graph_has g a" "graph_has g b" "gia_hash_xor graph_api g a b = (g', l)"
  with graph_xor_spec [of g a b g' l] extends_outs [of g g']
  show "graph_ok g' \<and> gr_cis g' = gr_cis g \<and> graph_outs g' = graph_outs g \<and> graph_has g' l \<and>
      (\<forall>v. graph_lit g' l v = (graph_lit g a v \<noteq> graph_lit g b v)) \<and>
      (\<forall>l. graph_has g l \<longrightarrow> graph_has g' l \<and> graph_lit g' l = graph_lit g l)"
    by (simp add: graph_api_def extends_def)
next
  fix g l assume g: "graph_ok g" "graph_has g l"
  have "graph_has (g\<lparr>gr_cos := cos\<rparr>) = graph_has g" "graph_lit (g\<lparr>gr_cos := cos\<rparr>) = graph_lit g" for cos
    by (simp_all add: fun_eq_iff graph_has_def graph_objs_def graph_lit_def graph_vals_def)
  with g show "graph_ok (gia_append_co graph_api g l) \<and> gr_cis (gia_append_co graph_api g l) = gr_cis g \<and>
      graph_outs (gia_append_co graph_api g l) = graph_outs g @ [graph_lit g l] \<and>
      (\<forall>l'. graph_has g l' \<longrightarrow> graph_has (gia_append_co graph_api g l) l' \<and>
        graph_lit (gia_append_co graph_api g l) l' = graph_lit g l')"
    by (simp add: graph_api_def graph_ok_def graph_outs_def)
qed (simp_all add: graph_api_def)

end
