(* ===== verification/Collapse_Example.thy ===== *)
theory Collapse_Example
  imports Collapse_Tool Robdd Gia_Graph
begin

text \<open>
  A small graph, \<open>x0\<close> and not \<open>x1\<close>, and the packages of the collapse tool put together from
  the instances of the contracts, on which the examples of the development run.
\<close>

definition example_aig :: aig where
  "example_aig = \<lparr>obj_num = 5, ci_ids = [1, 2], and_nodes = [(3, (1, False), (2, True))], co_nodes = [(3, False)]\<rparr>"

definition example_packages :: "(robdd, graph) packages" where
  "example_packages = \<lparr>p_read = (\<lambda>_. Some example_aig), p_cofactor = substitute, p_cudd = robdd_package 2,
     p_bdd = robdd_api, p_gia = graph_api, p_miter = (\<lambda>_ _. True), p_cec = (\<lambda>_ _. 1)\<rparr>"

definition example_opts :: "string \<Rightarrow> collapse_opts" where
  "example_opts m = \<lparr>o_method = m, o_cofactors = 1, o_check = True, o_data = False,
     o_exorcise = True, o_reorder = False, o_verbose = False, o_werbose = False\<rparr>"

text \<open>A command line with one cofactored input, \<open>-c\<close>, \<open>-e\<close> and the method that is its first argument.\<close>

definition example_parse :: "collapse_opts \<Rightarrow> string list \<Rightarrow> cli_outcome" where
  "example_parse defaults argv =
     (case argv of
        [] \<Rightarrow> Parse_Error 106
      | m # files \<Rightarrow> Parsed (defaults\<lparr>o_method := m, o_cofactors := 1, o_check := True, o_exorcise := True\<rparr>) files)"

lemma example_parse_simps [simp]: "example_parse default_opts (m # files) = Parsed (example_opts m) files"
  by (simp add: example_parse_def default_opts_def example_opts_def)

lemma example_packages_simps [simp]:
  "p_read example_packages path = Some example_aig" "p_cofactor example_packages = substitute"
  "p_cudd example_packages = robdd_package 2" "p_bdd example_packages = robdd_api"
  "p_gia example_packages = graph_api" "p_miter example_packages g r"
  by (simp_all add: example_packages_def)

lemma example_opts_simps [simp]:
  "o_method (example_opts m) = m" "o_cofactors (example_opts m) = 1" "o_check (example_opts m)"
  "o_exorcise (example_opts m)" "\<not> o_verbose (example_opts m)" "\<not> o_werbose (example_opts m)"
  by (simp_all add: example_opts_def)

lemma example_aig_ok: "aig_ok example_aig" "ci_num example_aig = 2" "constants_unused example_aig"
  by code_simp+

text \<open>Both cofactors by the first input can be converted: they are the constant 0 and not \<open>x1\<close>.\<close>

lemma example_cofactors:
  "list_all constants_unused (cf_aigs substitute 1 example_aig)"
  by code_simp

lemma example_sem: "aig_sem example_aig = [\<lambda>v. v 0 \<and> \<not> v 1]"
  by (simp add: aig_sem_def aig_fun_def example_aig_def aig_val_def fanin_val_def fun_eq_iff)

text \<open>A command line whose flags can be given, for runs that are evaluated as a whole.\<close>

fun flag_parse :: "collapse_opts \<Rightarrow> string list \<Rightarrow> cli_outcome" where
  "flag_parse opts [] = Parsed opts []"
| "flag_parse opts (arg # args) =
     (if arg = ''-d'' then flag_parse (opts\<lparr>o_data := True\<rparr>) args
      else if arg = ''-r'' then flag_parse (opts\<lparr>o_reorder := True\<rparr>) args
      else if arg = ''-v'' then flag_parse (opts\<lparr>o_verbose := True\<rparr>) args
      else if arg = ''--method=aig'' then flag_parse (opts\<lparr>o_method := ''aig''\<rparr>) args
      else Parsed opts (arg # args))"

text \<open>
  The whole output of a run of each method with all messages: the inputs are objects 1 and 2, the
  node is object 3.
\<close>

lemma example_output_aig:
  "map_option c_output (collapse_main newest_first example_packages SOP 0 flag_parse [''--method=aig'', ''-d'', ''-v'', ''a.aig'']) =
   Some [Graph_Stats example_aig, Open_Data ''aig_a.aig.csv'', Console ''[I] [0 / 0] AIG'',
     Console ''[I] Collapsing using AIG'', Data ''# [%c] - AIG collapsing'',
     Print (carriage_return # ''Node      3 /      5, child 1:      1 child 2:      1''), Timed_Data ''3,1,1,1,'',
     Print [newline], Timed_Data ''0,1,-1,-1,'', Elapsed, Print '''',
     Print (''[Two-level SOP]'' @ [newline] @ ''[0] Cubes :     1'' @ [newline])]"
  by code_simp

lemma example_output_bdd:
  "map_option c_output (collapse_main newest_first example_packages SOP 0 flag_parse [''-r'', ''-v'', ''a.aig'']) =
   Some [Graph_Stats example_aig, Console ''[I] [0 / 0] AIG'', Autodyn True,
     Print (''[i] Converting AIG to BDD'' @ [newline]), Print (carriage_return # ''Node    3 /    3''),
     Print ('' [Done]'' @ [newline]), Print (carriage_return # ''Output  0 /  0''), Print ('' [Done]'' @ [newline]),
     Elapsed, Bdd_Summary (Node 0 (Leaf False) (Node 1 (Leaf True) (Leaf False))) 2, Autodyn False,
     Print (''[i] Collapsing using BDD'' @ [newline]), Elapsed, Print '''',
     Print (''[Two-level SOP]'' @ [newline] @ ''[0] Cubes :     1'' @ [newline])]"
  by code_simp

end
