(* ===== verification/Exorcism_Tool.thy ===== *)
theory Exorcism_Tool
  imports Tool_Support Exorcism_Correct
begin

text \<open>
  \<^verbatim>\<open>tools/exorcism/main.cpp\<close>: a PLA file is read and minimised. The command line is what
  \<^verbatim>\<open>getopt\<close> returns, the option letters in their order and the remaining arguments; files are
  a map from names to texts, and the result is the exit status with the two output streams
  (less what \<^verbatim>\<open>getopt\<close> itself reports). The outer \<open>None\<close> is undefined behaviour or a run that does not end. First the part of the
  reader's contract that the tool needs: what it returns is well-formed.

  The second argument is checked and then ignored, as the code does: nothing is written.
\<close>

section \<open>The operations\<close>

definition exorcism_usage :: "int \<Rightarrow> program_run" where
  "exorcism_usage st =
     \<lparr>status = st,
      stdout = (if st = EXIT_FAILURE then ''Try '-h' for more information'' @ [newline]
        else ''Usage: exorcism [-hv] <input_file>.pla <output_file>.pla'' @ [newline, newline] @
             ''Options:'' @ [newline] @
             tab # ''-h'' @ tab # '': display available options.'' @ [newline] @
             tab # ''-v'' @ tab # '': verbose mode.'' @ [newline] @
             tab # ''-w'' @ tab # '': very verbose mode.'' @ [newline]),
      stderr = ''''\<rparr>"

text \<open>Whether the name is accepted, and the message if it is not.\<close>

definition fname_ok :: "string \<Rightarrow> bool \<times> string" where
  "fname_ok fname =
     (case strrchr (CHR ''.'') fname of
        None \<Rightarrow> (False, ''[e] Unrecognized input file format.'' @ [newline])
      | Some dot \<Rightarrow>
          if dot \<noteq> ''.pla'' then (False, ''[e] Unsupported input file format: '' @ dot @ [newline])
          else (True, ''''))"

text \<open>The loop over the options; \<open>None\<close> is \<^verbatim>\<open>-h\<close>.\<close>

fun exorcism_opts :: "string \<Rightarrow> bool \<Rightarrow> bool \<Rightarrow> (bool \<times> bool) option" where
  "exorcism_opts [] verbose werbose = Some (verbose, werbose)"
| "exorcism_opts (opt # opts) verbose werbose =
     (if opt = CHR ''h'' then None
      else if opt = CHR ''v'' then exorcism_opts opts True werbose
      else if opt = CHR ''w'' then exorcism_opts opts verbose True
      else exorcism_opts opts verbose werbose)"

definition exorcism_main :: "cube32 policy \<Rightarrow> kind_t \<Rightarrow> nat \<Rightarrow> (string \<Rightarrow> string option) \<Rightarrow> string \<Rightarrow> string list \<Rightarrow>
    program_run option" where
  "exorcism_main P k0 n0 fs opts args =
     (case exorcism_opts opts False False of
        None \<Rightarrow> Some (exorcism_usage EXIT_SUCCESS)
      | Some (verbose, werbose) \<Rightarrow>
          (case args of
             [] \<Rightarrow> Some (exorcism_usage EXIT_FAILURE)
           | in_fname # rest \<Rightarrow>
               let out_fname = (case rest of [out] \<Rightarrow> Some out | _ \<Rightarrow> None);
                   (in_ok, in_err) = fname_ok in_fname;
                   (out_ok, out_err) = (case out_fname of None \<Rightarrow> (True, '''') | Some out \<Rightarrow> fname_ok out)
               in if \<not> in_ok then Some \<lparr>status = EXIT_FAILURE, stdout = '''', stderr = in_err\<rparr>
                  else if \<not> out_ok then Some \<lparr>status = EXIT_FAILURE, stdout = '''', stderr = out_err\<rparr>
                  else do { r \<leftarrow> read_pla k0 n0 (verbose \<or> werbose) in_fname (fs in_fname);
                            (original, out1, err) \<leftarrow> r;
                            (result, out2) \<leftarrow> exorcise P werbose original;
                            Some \<lparr>status = EXIT_SUCCESS,
                                  stdout = out1 @ out2 @ (if verbose \<or> werbose
                                    then ''ORIGINAL: '' @ print_stats original @ ''RESULT:   '' @ print_stats result
                                    else ''''),
                                  stderr = err\<rparr> }))"

section \<open>File names\<close>

lemma fname_ok_iff: "fst (fname_ok fname) \<longleftrightarrow> suffix ''.pla'' fname"
  using strrchr_suffix [of "CHR ''.''" "''pla''" fname] by (auto simp: fname_ok_def split: option.splits)

lemma fname_ok_pla: "suffix ''.pla'' fname \<Longrightarrow> fname_ok fname = (True, '''')"
  using strrchr_suffix [of "CHR ''.''" "''pla''" fname] by (simp add: fname_ok_def)

section \<open>What the reader returns\<close>

lemma add_cube_keeps:
  assumes "two_lvl_ok f" and "length inp = n_inputs f" and "length outp = length (cubes f)"
  shows "\<exists>f'. two_lvl_add_cube inp outp f = Some f' \<and> two_lvl_ok f' \<and> n_inputs f' = n_inputs f \<and>
    length (cubes f') = length (cubes f) \<and> kind f' = kind f"
proof -
  have n: "length inp \<le> 32" "length outp \<le> length (cubes f)" using assms by (simp_all add: two_lvl_ok_def)
  obtain c where c: "cube_ok (length inp) c" "two_lvl_add_cube inp outp f =
      Some (f\<lparr>cubes := map (\<lambda>k. if k < length outp \<and> outp ! k = CHR ''1''
        then cubes f ! k @ [c] else cubes f ! k) [0..<length (cubes f)]\<rparr>)"
    by (rule two_lvl_add_cube_spec [OF n]) (rule that)
  let ?cs = "map (\<lambda>k. if k < length outp \<and> outp ! k = CHR ''1''
    then cubes f ! k @ [c] else cubes f ! k) [0..<length (cubes f)]"
  have "list_all (cube_ok (n_inputs f)) (?cs ! k)" if "k < length (cubes f)" for k
    using assms(1,2) c(1) that by (simp add: two_lvl_ok_def list_all_length [of "list_all _"])
  then have "list_all (list_all (cube_ok (n_inputs f))) ?cs"
    unfolding list_all_length [of "list_all _"] by simp
  with c(2) assms(1) show ?thesis
    by (intro exI [of _ "f\<lparr>cubes := ?cs\<rparr>"]) (simp add: two_lvl_ok_def)
qed

lemma read_cubes_ok:
  assumes "read_cubes n_in n_out k s f = Some r" and "two_lvl_ok f" and "n_inputs f = n_in" and "length (cubes f) = n_out"
  shows "\<exists>f' k' err. r = Some (f', k', err) \<and> two_lvl_ok f' \<and> n_inputs f' = n_in \<and> length (cubes f') = n_out \<and> kind f' = kind f"
proof -
  let ?ok = "\<lambda>f f'. two_lvl_ok f' \<and> n_inputs f' = n_inputs f \<and> length (cubes f') = length (cubes f) \<and> kind f' = kind f"
  have "two_lvl_ok f \<longrightarrow> n_inputs f = n_in \<longrightarrow> length (cubes f) = n_out \<longrightarrow> (\<exists>f' k' err. r = Some (f', k', err) \<and> ?ok f f')"
  proof (rule read_cubes.raw_induct [where P = "\<lambda>n_in n_out k s f r. two_lvl_ok f \<longrightarrow> n_inputs f = n_in \<longrightarrow>
      length (cubes f) = n_out \<longrightarrow> (\<exists>f' k' err. r = Some (f', k', err) \<and> ?ok f f')", OF _ assms(1)], goal_cases)
    case (1 rec n_in n_out k s f r)
    obtain inp s1 where s1: "getline (CHR '' '') '''' s = (inp, s1)" by fastforce
    obtain outp s2 where s2: "getline newline '''' s1 = (outp, s2)" by fastforce
    show ?case
    proof (intro impI)
      assume f: "two_lvl_ok f" "n_inputs f = n_in" "length (cubes f) = n_out"
      show "\<exists>f' k' err. r = Some (f', k', err) \<and> ?ok f f'"
      proof (cases "(str_at inp 0 = CHR ''.'' \<and> str_at inp 1 = CHR ''e'') \<or> length inp \<noteq> n_in \<or> length outp \<noteq> n_out")
        case True
        then have "\<exists>err. r = Some (f, k, err)" using 1(2) by (auto simp: s1 s2 split: if_splits)
        with f show ?thesis by auto
      next
        case False
        then obtain f1 where f1: "two_lvl_add_cube inp outp f = Some f1" "?ok f f1"
          using add_cube_keeps [of f inp outp] f by auto
        have "rec n_in n_out (k + 1) s2 f1 = Some r" using 1(2) False f1(1) by (auto simp: s1 s2 split: if_splits)
        from 1(1) [OF this] f f1(2) show ?thesis by auto
      qed
    qed
  qed
  with assms(2-4) show ?thesis by auto
qed

text \<open>\<open>reads\<close>: the reader returns a well-formed form, the same one whether it is verbose or not.\<close>

definition reads :: "kind_t \<Rightarrow> nat \<Rightarrow> string \<Rightarrow> string \<Rightarrow> two_lvl32 \<Rightarrow> nat \<Rightarrow> string \<Rightarrow> bool" where
  "reads k0 n0 fname text f rows err \<longleftrightarrow> two_lvl_ok f \<and> (\<forall>w. read_pla k0 n0 w fname (Some text) =
     Some (Some (f, if w then pla_summary (n_inputs f) (length (cubes f)) rows else '''', err)))"

lemma read_pla_ok:
  assumes "read_pla_header (open_stream text) = (h, s)" and "h_inputs h \<le> 32" and "h_inputs h \<noteq> 0 \<or> h_outputs h \<noteq> 0"
  shows "\<exists>f rows err. reads k0 n0 fname text f rows err \<and> n_inputs f = h_inputs h \<and>
    length (cubes f) = h_outputs h \<and> kind f = kind (set_kind (h_type h) f)"
proof -
  let ?f = "set_n_outputs (h_outputs h) (set_n_inputs (h_inputs h) (set_kind (h_type h) (two_lvl32_uninit k0 n0)))"
  have kf: "kind ?f = kind (set_kind (h_type h) f)" for f :: two_lvl32
    by (simp add: set_n_outputs_def set_n_inputs_def set_kind_def)
  obtain r where r: "read_cubes (h_inputs h) (h_outputs h) 0 s ?f = Some r"
    using read_cubes_returns [OF assms(3)] by blast
  have "two_lvl_ok ?f" "n_inputs ?f = h_inputs h" "length (cubes ?f) = h_outputs h"
    using assms(2) by (simp_all add: set_n_outputs_def set_n_inputs_def set_kind_def two_lvl32_uninit_def
        vec_resize_def two_lvl_ok_def list_all_length)
  from read_cubes_ok [OF r this] obtain f rows err where f: "r = Some (f, rows, err)" "two_lvl_ok f"
      "n_inputs f = h_inputs h" "length (cubes f) = h_outputs h" "kind f = kind ?f" by blast
  have "reads k0 n0 fname text f rows err"
    using r assms(1) f(1-4) by (simp add: reads_def read_pla_def)
  with f(3-5) kf [of f] show ?thesis by auto
qed

section \<open>Runs of the tool\<close>

lemma exorcism_opts_total: "CHR ''h'' \<notin> set opts \<Longrightarrow>
   exorcism_opts opts v w = Some (v \<or> CHR ''v'' \<in> set opts, w \<or> CHR ''w'' \<in> set opts)"
  by (induction opts v w rule: exorcism_opts.induct) auto

lemma exorcism_opts_help: "CHR ''h'' \<in> set opts \<Longrightarrow> exorcism_opts opts v w = None"
  by (induction opts v w rule: exorcism_opts.induct) auto

text \<open>A file that can be read, with the minimised form \<open>g\<close>, which the options have no influence on.\<close>

lemma exorcism_main_spec:
  assumes "suffix ''.pla'' inp" and "fs inp = Some text" and "reads k0 n0 inp text f rows err"
  shows "\<exists>g. two_lvl_ok g \<and> esop_sem g = esop_sem f \<and>
    (\<forall>k < length (cubes f). length (cubes g ! k) \<le> length (cubes f ! k)) \<and>
    (\<forall>opts. CHR ''h'' \<notin> set opts \<longrightarrow> (\<exists>out.
       exorcise P (CHR ''w'' \<in> set opts) f = Some (g, out) \<and>
       exorcism_main P k0 n0 fs opts [inp] = Some \<lparr>status = EXIT_SUCCESS,
         stdout = (if CHR ''v'' \<in> set opts \<or> CHR ''w'' \<in> set opts
           then pla_summary (n_inputs f) (length (cubes f)) rows @ out @
                ''ORIGINAL: '' @ print_stats f @ ''RESULT:   '' @ print_stats g
           else out), stderr = err\<rparr>))"
proof -
  have ok: "two_lvl_ok f" and rd: "read_pla k0 n0 w inp (Some text) =
     Some (Some (f, if w then pla_summary (n_inputs f) (length (cubes f)) rows else '''', err))" for w
    using assms(3) by (simp_all add: reads_def)
  obtain g where g: "\<And>w. \<exists>out. exorcise P w f = Some (g, out)" "two_lvl_ok g" "esop_sem g = esop_sem f"
      "\<forall>k < length (cubes f). length (cubes g ! k) \<le> length (cubes f ! k)"
    using exorcise_keeps [OF ok, of P] by blast
  note fn = fname_ok_pla [OF assms(1)]
  have "\<exists>out. exorcise P (CHR ''w'' \<in> set opts) f = Some (g, out) \<and>
       exorcism_main P k0 n0 fs opts [inp] = Some \<lparr>status = EXIT_SUCCESS,
         stdout = (if CHR ''v'' \<in> set opts \<or> CHR ''w'' \<in> set opts
           then pla_summary (n_inputs f) (length (cubes f)) rows @ out @
                ''ORIGINAL: '' @ print_stats f @ ''RESULT:   '' @ print_stats g
           else out), stderr = err\<rparr>" if "CHR ''h'' \<notin> set opts" for opts
  proof -
    obtain out where "exorcise P (CHR ''w'' \<in> set opts) f = Some (g, out)" using g(1) by blast
    then show ?thesis
      using exorcism_opts_total [OF that, of False False] fn
      by (simp add: exorcism_main_def assms(2) rd)
  qed
  with g(2-4) show ?thesis by blast
qed

text \<open>A second argument makes no difference: nothing is written.\<close>

lemma exorcism_main_output_ignored:
  "suffix ''.pla'' out \<Longrightarrow> exorcism_main P k0 n0 fs opts [inp, out] = exorcism_main P k0 n0 fs opts [inp]"
  by (simp add: exorcism_main_def fname_ok_pla split: option.splits)

text \<open>When the tool reports a failure, and what it does with a file that it cannot open.\<close>

lemma exorcism_main_failure:
  assumes "exorcism_main P k0 n0 fs opts args = Some r"
  shows "status r = EXIT_FAILURE \<longleftrightarrow> CHR ''h'' \<notin> set opts \<and>
    (case args of [] \<Rightarrow> True | [inp, out] \<Rightarrow> \<not> suffix ''.pla'' inp \<or> \<not> suffix ''.pla'' out
     | inp # _ \<Rightarrow> \<not> suffix ''.pla'' inp)"
proof (cases "CHR ''h'' \<in> set opts")
  case True
  then show ?thesis
    using assms exorcism_opts_help by (auto simp: exorcism_main_def exorcism_usage_def)
next
  case False
  note o = exorcism_opts_total [OF False, of False False]
  show ?thesis
    using assms False unfolding exorcism_main_def o fname_ok_iff [symmetric]
    by (auto simp: exorcism_usage_def split_beta bind_eq_Some_conv Let_def split: list.splits if_splits)
qed

lemma exorcism_main_unreadable:
  assumes "CHR ''h'' \<notin> set opts" and "suffix ''.pla'' inp" and "fs inp = None"
  shows "\<exists>out. exorcism_main P k0 n0 fs opts [inp] = Some \<lparr>status = EXIT_SUCCESS, stdout = out,
    stderr = ''[e] Couldn't open file: '' @ inp @ [newline]\<rparr>"
proof -
  note fn = fname_ok_pla [OF assms(2)]
  show ?thesis
    using exorcism_opts_total [OF assms(1), of False False] fn assms(3)
    by (simp add: exorcism_main_def read_pla_def exorcise_def two_lvl32_uninit_def)
qed

end
