(* ===== verification/Tool_Chain.thy ===== *)
theory Tool_Chain
  imports Collapse_Tool Exorcism_Tool
begin

text \<open>
  The two tools one after the other: each file that the collapse tool writes is one that the
  exorcism tool reads, minimises and reports on.
\<close>

lemma length_pla_text: "length esop \<le> length (pla_text n esop)"
proof -
  have "length esop \<le> length (concat (map (\<lambda>cube. cube_str n cube @ '' 1'' @ [newline]) esop))"
    by (induction esop) simp_all
  then show ?thesis by (simp add: pla_text_def)
qed

lemma exorcism_of_written:
  assumes f: "two_lvl_ok f" and k: "k < length (cubes f)" and fs: "fs (fst (write_pla fname f ! k)) = Some (snd (write_pla fname f ! k))"
    and size: "length (snd (write_pla fname f ! k)) < 2 ^ 32"
  shows "\<exists>g out err. exorcism_main P k0 n0 fs ''v'' [fst (write_pla fname f ! k)] =
      Some \<lparr>status = EXIT_SUCCESS, stdout = pla_summary (n_inputs f) 1 (length (cubes f ! k)) @ out @
        ''ORIGINAL: '' @ print_stats \<lparr>kind = UNDEF, n_inputs = n_inputs f, cubes = [cubes f ! k]\<rparr> @
        ''RESULT:   '' @ print_stats g, stderr = err\<rparr> \<and>
    two_lvl_ok g \<and> esop_sem g = [\<lambda>v. esop_eval v (cubes f ! k)] \<and> length (cubes g ! 0) \<le> length (cubes f ! k)"
proof -
  let ?e = "\<lparr>kind = UNDEF, n_inputs = n_inputs f, cubes = [cubes f ! k]\<rparr>"
  have ok: "list_all (cube_ok (n_inputs f)) (cubes f ! k)" "n_inputs f \<le> 32" "two_lvl_ok ?e"
    using f k by (simp_all add: two_lvl_ok_def list_all_length)
  have w: "write_pla fname f ! k = (fname @ ''_'' @ show_nat k @ ''.pla'', pla_text (n_inputs f) (cubes f ! k))"
    using k by (simp add: write_pla_def write_esops_nth)
  have len: "length (cubes f ! k) < 2 ^ 32" using size length_pla_text [of "cubes f ! k" "n_inputs f"] by (simp add: w)
  let ?name = "fname @ ''_'' @ show_nat k @ ''.pla''" and ?text = "pla_text (n_inputs f) (cubes f ! k)"
  obtain err where "\<forall>k0 n0 w fname. read_pla k0 n0 w fname (Some ?text) =
      Some (Some (?e, if w then pla_summary (n_inputs f) 1 (length (cubes f ! k)) else '''', err))"
    using read_pla_text [OF ok(1,2) len] by blast
  then have rd: "reads k0 n0 ?name ?text ?e (length (cubes f ! k)) err" using ok(3) by (simp add: reads_def)
  have name: "suffix ''.pla'' ?name" "fs ?name = Some ?text"
    using fs by (simp_all add: w suffix_def)
  from exorcism_main_spec [where fs = fs and P = P, OF name rd] obtain g where g: "two_lvl_ok g" "esop_sem g = esop_sem ?e"
      "\<forall>j < length (cubes ?e). length (cubes g ! j) \<le> length (cubes ?e ! j)"
    and run: "\<And>opts. CHR ''h'' \<notin> set opts \<Longrightarrow> \<exists>out. exorcise P (CHR ''w'' \<in> set opts) ?e = Some (g, out) \<and>
      exorcism_main P k0 n0 fs opts [?name] = Some \<lparr>status = EXIT_SUCCESS,
         stdout = (if CHR ''v'' \<in> set opts \<or> CHR ''w'' \<in> set opts
           then pla_summary (n_inputs ?e) (length (cubes ?e)) (length (cubes f ! k)) @ out @
                ''ORIGINAL: '' @ print_stats ?e @ ''RESULT:   '' @ print_stats g
           else out), stderr = err\<rparr>" by blast
  from run [of "''v''"] obtain out where "exorcism_main P k0 n0 fs ''v'' [?name] = Some \<lparr>status = EXIT_SUCCESS,
      stdout = pla_summary (n_inputs f) 1 (length (cubes f ! k)) @ out @
        ''ORIGINAL: '' @ print_stats ?e @ ''RESULT:   '' @ print_stats g, stderr = err\<rparr>" by auto
  with g show ?thesis unfolding w by (intro exI [of _ g] exI [of _ out] exI [of _ err]) (simp add: esop_sem_def)
qed

end
