(* ===== verification/Losys_Main.thy ===== *)
theory Losys_Main
  imports Tool_Support Aig
begin

text \<open>
  \<^verbatim>\<open>source/main.cpp\<close>: the main program checks its command line, reads a graph and prints its
  statistics. Reading and printing are ABC's, the arguments \<open>read\<close> and \<open>stats\<close>. \<open>None\<close> is a null
  graph, on which ABC's printing is undefined.
\<close>

definition losys_usage :: "int \<Rightarrow> program_run" where
  "losys_usage st =
     \<lparr>status = st,
      stdout = (if st = EXIT_FAILURE then ''Try '-h' for more information'' @ [newline]
        else ''Usage: <cmd> [-h] <input_file>'' @ [newline, newline] @
             ''Options:'' @ [newline] @
             tab # ''-h'' @ tab # '' : display available options.'' @ [newline]),
      stderr = ''''\<rparr>"

text \<open>The loop over the options, \<open>False\<close> for \<^verbatim>\<open>-h\<close>.\<close>

fun losys_opts :: "string \<Rightarrow> bool" where
  "losys_opts [] = True"
| "losys_opts (opt # opts) = (if opt = CHR ''h'' then False else losys_opts opts)"

definition losys_main :: "(string \<Rightarrow> aig option) \<Rightarrow> (aig \<Rightarrow> string) \<Rightarrow> string \<Rightarrow> string list \<Rightarrow>
    program_run option" where
  "losys_main read stats opts args =
     (if \<not> losys_opts opts then Some (losys_usage EXIT_SUCCESS)
      else case args of
        [] \<Rightarrow> Some (losys_usage EXIT_FAILURE)
      | in_fname # _ \<Rightarrow>
          (case strrchr (CHR ''.'') in_fname of
             None \<Rightarrow> Some \<lparr>status = EXIT_FAILURE, stdout = '''',
               stderr = ''[e] Unrecognized input file format.'' @ [newline]\<rparr>
           | Some dot \<Rightarrow>
               if dot \<noteq> ''.aig''
               then Some \<lparr>status = EXIT_FAILURE, stdout = '''',
                 stderr = ''[e] Unsupported input file format: '' @ dot @ [newline]\<rparr>
               else do { aig \<leftarrow> read in_fname;
                         Some \<lparr>status = EXIT_SUCCESS, stdout = stats aig, stderr = ''''\<rparr> }))"

lemma losys_opts_iff: "losys_opts opts \<longleftrightarrow> CHR ''h'' \<notin> set opts"
  by (induction opts) auto

lemma losys_main_failure:
  assumes "losys_main read stats opts args = Some r"
  shows "status r = EXIT_FAILURE \<longleftrightarrow> CHR ''h'' \<notin> set opts \<and> (args = [] \<or> \<not> suffix ''.aig'' (hd args))"
  using assms strrchr_suffix [of "CHR ''.''" "''aig''" "hd args"]
  by (auto simp: losys_main_def losys_opts_iff losys_usage_def bind_eq_Some_conv
      split: list.splits option.splits if_splits)

lemma losys_main_reads:
  assumes "CHR ''h'' \<notin> set opts" and "suffix ''.aig'' inp"
  shows "losys_main read stats opts (inp # rest) =
    map_option (\<lambda>g. \<lparr>status = EXIT_SUCCESS, stdout = stats g, stderr = ''''\<rparr>) (read inp)"
proof -
  have "strrchr (CHR ''.'') inp = Some ''.aig''"
    using strrchr_suffix [of "CHR ''.''" "''aig''" inp] assms(2) by simp
  with assms(1) show ?thesis by (cases "read inp") (simp_all add: losys_main_def losys_opts_iff)
qed

end
