(* ===== verification/Prime_Cover.thy ===== *)
theory Prime_Cover
  imports Robdd
begin

text \<open>
  The static function \<^verbatim>\<open>test\<close> of \<^verbatim>\<open>source/xforms/aig_to_bdd.cpp\<close>: it walks through a cover of
  a BDD by prime implicants, taking away a prime from what is still uncovered until nothing
  is left, with CUDD's C interface. Unlike the other routines on BDDs it handles null
  results, and counts references by hand. The references it holds are a multiset here; giving
  back one that is not held is undefined, \<open>None\<close>, as is a loop that does not end. CUDD's
  calls may change its manager, \<open>'s\<close>, and may fail.
\<close>

section \<open>The operations\<close>

record ('s, 'd) cover_api =
  ca_zero :: 'd
  ca_not :: "'d \<Rightarrow> 'd"
  ca_cube :: "'d \<Rightarrow> 's \<Rightarrow> 'd option \<times> 's"
  ca_prime :: "'d \<Rightarrow> 'd \<Rightarrow> 's \<Rightarrow> 'd option \<times> 's"
  ca_and :: "'d \<Rightarrow> 'd \<Rightarrow> 's \<Rightarrow> 'd option \<times> 's"

definition cudd_ref :: "'d \<Rightarrow> 'd multiset \<Rightarrow> 'd multiset" where
  "cudd_ref x refs = add_mset x refs"

definition cudd_deref :: "'d \<Rightarrow> 'd multiset \<Rightarrow> 'd multiset option" where
  "cudd_deref x refs = (if x \<in># refs then Some (refs - {#x#}) else None)"

partial_function (option) cover_loop :: "('s, 'd) cover_api \<Rightarrow> 'd \<Rightarrow> 'd \<Rightarrow> 'd multiset \<Rightarrow> 's \<Rightarrow>
    (nat \<times> 'd multiset \<times> 's) option" where
  "cover_loop A l lb refs s =
     (if lb = ca_zero A then do { refs1 \<leftarrow> cudd_deref lb refs; Some (1, refs1, s) }
      else case ca_cube A lb s of
        (None, s1) \<Rightarrow> do { refs1 \<leftarrow> cudd_deref lb refs; Some (0, refs1, s1) }
      | (Some implicant, s1) \<Rightarrow>
          (case ca_prime A implicant l s1 of
             (None, s2) \<Rightarrow>
               do { refs1 \<leftarrow> cudd_deref lb (cudd_ref implicant refs);
                    refs2 \<leftarrow> cudd_deref implicant refs1;
                    Some (0, refs2, s2) }
           | (Some prime, s2) \<Rightarrow>
               do { refs1 \<leftarrow> cudd_deref implicant (cudd_ref prime (cudd_ref implicant refs));
                    (case ca_and A lb (ca_not A prime) s2 of
                       (None, s3) \<Rightarrow>
                         do { refs2 \<leftarrow> cudd_deref lb refs1;
                              refs3 \<leftarrow> cudd_deref prime refs2;
                              Some (0, refs3, s3) }
                     | (Some tmp, s3) \<Rightarrow>
                         do { refs2 \<leftarrow> cudd_deref lb (cudd_ref tmp refs1);
                              refs3 \<leftarrow> cudd_deref prime refs2;
                              cover_loop A l tmp refs3 s3 }) }))"

text \<open>\<^verbatim>\<open>test\<close> itself; \<open>None\<close> for the node is the null pointer.\<close>

definition prime_cover :: "('s, 'd) cover_api \<Rightarrow> 'd option \<Rightarrow> 'd multiset \<Rightarrow> 's \<Rightarrow>
    (nat \<times> 'd multiset \<times> 's) option" where
  "prime_cover A lo refs s =
     (case lo of None \<Rightarrow> Some (0, refs, s) | Some l \<Rightarrow> cover_loop A l l (cudd_ref l refs) s)"

section \<open>Termination and the balance of the references\<close>

text \<open>Whatever the calls do: when the function comes back it holds no reference any more.\<close>

lemma cover_loop_balanced:
  assumes "cover_loop A l lb (add_mset lb refs) s = Some (b, refs', s')"
  shows "refs' = refs \<and> b \<le> 1"
proof -
  let ?Q = "\<lambda>(A, l, lb, refs0, s) (b, refs', s'). \<forall>refs. refs0 = add_mset lb refs \<longrightarrow> refs' = refs \<and> b \<le> (1 :: nat)"
  have "?Q (A, l, lb, add_mset lb refs, s) (b, refs', s')"
  proof (rule cover_loop.raw_induct [where P = "\<lambda>A l lb refs s y. ?Q (A, l, lb, refs, s) y", OF _ assms], goal_cases)
    case (1 rec A l lb refs0 s y)
    have IH: "r' = r" "b \<le> Suc 0" if "rec A l lb (add_mset lb r) s = Some (b, r', s')" for l lb r s b r' s'
      using 1(1) [OF that] by simp_all
    show ?case
      using 1(2)
      by (auto simp: cudd_deref_def cudd_ref_def bind_eq_Some_conv add_mset_commute
          split: if_splits prod.splits option.splits dest: IH(1) intro: IH(2))
  qed
  then show ?thesis by simp
qed

text \<open>
  What CUDD documents of the calls, when they succeed: an implicant that is not 0, a prime
  between an implicant and the function, the conjunction. Functions depend on the first
  \<open>n\<close> variables, and only the constant is 0.
\<close>

locale cover_calls =
  fixes A :: "('s, 'd) cover_api"
    and n :: nat
    and ok :: "'d \<Rightarrow> bool"
    and val :: "'d \<Rightarrow> (nat \<Rightarrow> bool) \<Rightarrow> bool"
  assumes few_vars: "ok f \<Longrightarrow> val f v = val f (\<lambda>i. i < n \<and> v i)"
    and nonzero: "ok f \<Longrightarrow> f \<noteq> ca_zero A \<Longrightarrow> \<exists>v. val f v"
    and cube: "ok f \<Longrightarrow> f \<noteq> ca_zero A \<Longrightarrow> ca_cube A f s = (Some c, s') \<Longrightarrow>
      ok c \<and> c \<noteq> ca_zero A \<and> (\<forall>v. val c v \<longrightarrow> val f v)"
    and prime: "ok c \<Longrightarrow> ok f \<Longrightarrow> (\<forall>v. val c v \<longrightarrow> val f v) \<Longrightarrow> ca_prime A c f s = (Some p, s') \<Longrightarrow>
      ok p \<and> (\<forall>v. val c v \<longrightarrow> val p v) \<and> (\<forall>v. val p v \<longrightarrow> val f v)"
    and conj: "ok f \<Longrightarrow> ok g \<Longrightarrow> ca_and A f (ca_not A g) s = (Some h, s') \<Longrightarrow>
      ok h \<and> (\<forall>v. val h v = (val f v \<and> \<not> val g v))"
begin

definition points :: "'d \<Rightarrow> (nat \<Rightarrow> bool) set" where
  "points f = {v. val f v \<and> (\<forall>i. v i \<longrightarrow> i < n)}"

lemma finite_points: "finite (points f)"
proof -
  have "points f \<subseteq> (\<lambda>S i. i \<in> S) ` Pow {..<n}"
    unfolding points_def by (auto intro!: image_eqI [where x = "Collect _"])
  then show ?thesis by (rule finite_subset) simp
qed

lemma points_nonempty:
  assumes "ok f" and "f \<noteq> ca_zero A"
  shows "points f \<noteq> {}"
proof -
  obtain v where "val f v" using nonzero assms by blast
  then have "(\<lambda>i. i < n \<and> v i) \<in> points f" using few_vars [OF assms(1), of v] by (simp add: points_def)
  then show ?thesis by blast
qed

text \<open>Some call returns null.\<close>

definition call_fails :: bool where
  "call_fails \<longleftrightarrow> (\<exists>f g s. fst (ca_cube A f s) = None \<or> fst (ca_prime A f g s) = None \<or> fst (ca_and A f g s) = None)"

lemma call_failsI:
  "ca_cube A f s = (None, s') \<Longrightarrow> call_fails" "ca_prime A f g s = (None, s') \<Longrightarrow> call_fails"
  "ca_and A f g s = (None, s') \<Longrightarrow> call_fails"
  unfolding call_fails_def by (metis fst_conv)+

text \<open>When the three calls succeed, what is left is a part of what was there, by at least a point smaller.\<close>

lemma cover_step:
  assumes l: "ok l" and lb: "ok lb" "\<forall>v. val lb v \<longrightarrow> val l v" "lb \<noteq> ca_zero A"
    and calls: "ca_cube A lb s = (Some imp, s1)" "ca_prime A imp l s1 = (Some pr, s2)"
      "ca_and A lb (ca_not A pr) s2 = (Some tmp, s3)"
  shows "ok tmp" and "\<forall>v. val tmp v \<longrightarrow> val l v" and "card (points tmp) < card (points lb)"
proof -
  note ci = cube [OF lb(1,3) calls(1)]
  have pri: "ok pr \<and> (\<forall>v. val imp v \<longrightarrow> val pr v) \<and> (\<forall>v. val pr v \<longrightarrow> val l v)"
    by (rule prime [OF _ l _ calls(2)]) (use ci lb(2) in auto)
  have ti: "ok tmp" "\<And>v. val tmp v = (val lb v \<and> \<not> val pr v)"
    using conj [OF lb(1) _ calls(3)] pri by auto
  then show "ok tmp" "\<forall>v. val tmp v \<longrightarrow> val l v" using lb(2) by auto
  obtain v where v: "v \<in> points imp" using points_nonempty ci by blast
  then have "v \<in> points lb" "v \<notin> points tmp" using ci pri ti(2) by (auto simp: points_def)
  moreover have "points tmp \<subseteq> points lb" using ti(2) by (auto simp: points_def)
  ultimately show "card (points tmp) < card (points lb)"
    using finite_points psubset_card_mono by (metis psubsetI)
qed

lemma cover_loop_spec:
  assumes "ok l" and "ok lb" and "\<forall>v. val lb v \<longrightarrow> val l v"
  shows "\<exists>b s'. cover_loop A l lb (add_mset lb refs) s = Some (b, refs, s') \<and>
    (b = 1 \<or> b = 0 \<and> call_fails)"
  using assms(2,3)
proof (induction "card (points lb)" arbitrary: lb refs s rule: less_induct)
  case less
  show ?case
  proof (cases "lb = ca_zero A")
    case True
    then show ?thesis by (subst cover_loop.simps) (simp add: cudd_deref_def)
  next
    case False
    obtain co s1 where c: "ca_cube A lb s = (co, s1)" by fastforce
    show ?thesis
    proof (cases co)
      case None
      with c False show ?thesis by (subst cover_loop.simps) (simp add: cudd_deref_def call_failsI(1))
    next
      case (Some imp)
      note c = c [unfolded Some]
      obtain po s2 where p: "ca_prime A imp l s1 = (po, s2)" by fastforce
      show ?thesis
      proof (cases po)
        case None
        with c p False show ?thesis
          by (subst cover_loop.simps) (simp add: cudd_deref_def cudd_ref_def call_failsI(2))
      next
        case (Some pr)
        note p = p [unfolded Some]
        obtain to s3 where t: "ca_and A lb (ca_not A pr) s2 = (to, s3)" by fastforce
        show ?thesis
        proof (cases to)
          case None
          with c p t False show ?thesis
            by (subst cover_loop.simps) (simp add: cudd_deref_def cudd_ref_def call_failsI(3))
        next
          case (Some tmp)
          note t = t [unfolded Some]
          note st = cover_step [OF assms(1) less.prems False c p t]
          from less.hyps [OF st(3,1,2), of refs s3]
          obtain b s' where r: "cover_loop A l tmp (add_mset tmp refs) s3 = Some (b, refs, s')"
              "b = 1 \<or> b = 0 \<and> call_fails" by blast
          have "cover_loop A l lb (add_mset lb refs) s = cover_loop A l tmp (add_mset tmp refs) s3"
            using c p t False by (subst cover_loop.simps) (simp add: cudd_deref_def cudd_ref_def add_mset_commute)
          with r show ?thesis by auto
        qed
      qed
    qed
  qed
qed

end

section \<open>The calls on diagrams as trees\<close>

text \<open>
  A path to 1 as the implicant, from which every literal is dropped that can be. The calls do
  not fail and there is no state.
\<close>

fun robdd_fix :: "nat \<Rightarrow> bool \<Rightarrow> robdd \<Rightarrow> robdd" where
  "robdd_fix i b (Leaf c) = Leaf c"
| "robdd_fix i b (Node j e t) =
     (if i = j then (if b then t else e) else robdd_mk j (robdd_fix i b e) (robdd_fix i b t))"

fun robdd_path :: "robdd \<Rightarrow> robdd" where
  "robdd_path (Leaf c) = Leaf c"
| "robdd_path (Node j e t) =
     (if t = Leaf False then Node j (robdd_path e) (Leaf False) else Node j (Leaf False) (robdd_path t))"

definition robdd_diff :: "robdd \<Rightarrow> robdd \<Rightarrow> robdd" where
  "robdd_diff = robdd_apply (\<lambda>a b. a \<and> \<not> b)"

definition robdd_drop :: "robdd \<Rightarrow> nat \<Rightarrow> robdd \<Rightarrow> robdd" where
  "robdd_drop f i c =
     (let c' = robdd_apply (\<or>) (robdd_fix i False c) (robdd_fix i True c)
      in if robdd_diff c' f = Leaf False then c' else c)"

definition robdd_cover :: "nat \<Rightarrow> (unit, robdd) cover_api" where
  "robdd_cover n = \<lparr>ca_zero = Leaf False, ca_not = robdd_not, ca_cube = (\<lambda>f s. (Some (robdd_path f), s)),
     ca_prime = (\<lambda>c f s. (Some (fold (robdd_drop f) [0..<n] c), s)),
     ca_and = (\<lambda>f g s. (Some (robdd_apply (\<and>) f g), s))\<rparr>"

lemma robdd_fix_ok: "robdd_ok n k f \<Longrightarrow> robdd_ok n k (robdd_fix i b f)"
proof (induction f arbitrary: k)
  case (Node j e t)
  then show ?case by (auto intro!: robdd_mk_ok intro: robdd_ok_mono)
qed simp

lemma robdd_fix_eval: "robdd_ok n k f \<Longrightarrow> robdd_eval (robdd_fix i b f) v = robdd_eval f (v(i := b))"
  by (induction f arbitrary: k) (auto simp: robdd_mk_eval robdd_eval_above)

lemma robdd_path_spec:
  "robdd_ok n k f \<Longrightarrow> f \<noteq> Leaf False \<Longrightarrow>
   robdd_ok n k (robdd_path f) \<and> robdd_path f \<noteq> Leaf False \<and> (robdd_eval (robdd_path f) v \<longrightarrow> robdd_eval f v)"
  by (induction f arbitrary: k) auto

lemma robdd_drop_spec:
  assumes "robdd_ok n 0 f" and "robdd_ok n 0 c" and "\<forall>v. robdd_eval c v \<longrightarrow> robdd_eval f v"
  shows "robdd_ok n 0 (robdd_drop f i c) \<and> (\<forall>v. robdd_eval c v \<longrightarrow> robdd_eval (robdd_drop f i c) v) \<and>
    (\<forall>v. robdd_eval (robdd_drop f i c) v \<longrightarrow> robdd_eval f v)"
proof -
  let ?c' = "robdd_apply (\<or>) (robdd_fix i False c) (robdd_fix i True c)"
  have ev: "robdd_eval ?c' v = (robdd_eval c (v(i := False)) \<or> robdd_eval c (v(i := True)))" for v
    by (simp add: robdd_apply_eval robdd_fix_eval [OF assms(2)])
  have "robdd_eval ?c' v" if "robdd_eval c v" for v
    using that by (cases "v i") (simp_all add: ev fun_upd_idem)
  moreover have "robdd_eval f v" if "robdd_diff ?c' f = Leaf False" "robdd_eval ?c' v" for v
    using that robdd_apply_eval [of "\<lambda>a b. a \<and> \<not> b" ?c' f v] by (simp add: robdd_diff_def)
  moreover have "robdd_ok n 0 ?c'" by (intro robdd_apply_ok robdd_fix_ok assms(2))
  ultimately show ?thesis using assms(2,3) unfolding robdd_drop_def Let_def by auto
qed

lemma robdd_drops_spec:
  assumes "robdd_ok n 0 f" and "robdd_ok n 0 c" and "\<forall>v. robdd_eval c v \<longrightarrow> robdd_eval f v"
  shows "robdd_ok n 0 (fold (robdd_drop f) is c) \<and> (\<forall>v. robdd_eval c v \<longrightarrow> robdd_eval (fold (robdd_drop f) is c) v) \<and>
    (\<forall>v. robdd_eval (fold (robdd_drop f) is c) v \<longrightarrow> robdd_eval f v)"
  using assms(2,3)
proof (induction "is" arbitrary: c)
  case (Cons i "is")
  note d = robdd_drop_spec [OF assms(1) Cons.prems, of i]
  from Cons.IH [of "robdd_drop f i c"] d show ?case by simp
qed simp

lemma robdd_few_vars: "robdd_ok n k f \<Longrightarrow> robdd_eval f v = robdd_eval f (\<lambda>i. i < n \<and> v i)"
  by (induction f arbitrary: k) auto

interpretation rcv: cover_calls "robdd_cover n" n "robdd_ok n 0" robdd_eval for n :: nat
proof
  fix f v assume "robdd_ok n 0 f"
  then show "robdd_eval f v = robdd_eval f (\<lambda>i. i < n \<and> v i)" by (rule robdd_few_vars)
next
  fix f assume f: "robdd_ok n 0 f" "f \<noteq> ca_zero (robdd_cover n)"
  have "f = Leaf False" if "\<And>v. \<not> robdd_eval f v"
    by (rule robdd_unique [OF f(1)]) (simp_all add: that)
  then show "\<exists>v. robdd_eval f v" using f(2) by (auto simp: robdd_cover_def)
next
  fix f c and s s' :: unit
  assume "robdd_ok n 0 f" "f \<noteq> ca_zero (robdd_cover n)" "ca_cube (robdd_cover n) f s = (Some c, s')"
  then show "robdd_ok n 0 c \<and> c \<noteq> ca_zero (robdd_cover n) \<and> (\<forall>v. robdd_eval c v \<longrightarrow> robdd_eval f v)"
    using robdd_path_spec [of n 0 f] by (auto simp: robdd_cover_def)
next
  fix c f p and s s' :: unit
  assume "robdd_ok n 0 c" "robdd_ok n 0 f" "\<forall>v. robdd_eval c v \<longrightarrow> robdd_eval f v"
    "ca_prime (robdd_cover n) c f s = (Some p, s')"
  then show "robdd_ok n 0 p \<and> (\<forall>v. robdd_eval c v \<longrightarrow> robdd_eval p v) \<and> (\<forall>v. robdd_eval p v \<longrightarrow> robdd_eval f v)"
    using robdd_drops_spec [of n f c "[0..<n]"] by (simp add: robdd_cover_def)
next
  fix f g h and s s' :: unit
  assume "robdd_ok n 0 f" "robdd_ok n 0 g" "ca_and (robdd_cover n) f (ca_not (robdd_cover n) g) s = (Some h, s')"
  then show "robdd_ok n 0 h \<and> (\<forall>v. robdd_eval h v = (robdd_eval f v \<and> \<not> robdd_eval g v))"
    by (auto simp: robdd_cover_def robdd_not_def robdd_xor_def robdd_apply_eval intro!: robdd_apply_ok)
qed

end
