(* ===== verification/Bdd_Refs.thy ===== *)
theory Bdd_Refs
  imports Prime_Cover
begin

text \<open>
  The routines of \<^verbatim>\<open>source/bdd/collapse.cpp\<close> once more, with the references they take and give
  back: \<^verbatim>\<open>Cudd_Ref\<close> and \<^verbatim>\<open>Cudd_RecursiveDeref\<close> on the difference \<open>f2\<close> of the cofactors. The
  references held are a multiset as in \<open>Prime_Cover\<close>. The versions of \<open>Psdkro\<close> are what is
  left when the references are forgotten. \<^verbatim>\<open>generate_exact\<close> is balanced; \<^verbatim>\<open>count_cubes\<close> keeps one
  reference for each node it enters into the table.
\<close>

section \<open>The operations\<close>

partial_function (option) count_cubes_refs :: "'d cudd \<Rightarrow> 'd \<Rightarrow> 'd costs \<Rightarrow> 'd multiset \<Rightarrow>
    ((exp_type \<times> u32) \<times> 'd costs \<times> 'd multiset) option" where
  "count_cubes_refs D f costs refs =
     (if f = dd_zero D then Some ((POSITIVE_DAVIO, 0), costs, refs)
      else if f = dd_one D then Some ((POSITIVE_DAVIO, 1), costs, refs)
      else (case costs f of
              Some e \<Rightarrow> Some (e, costs, refs)
            | None \<Rightarrow>
                do { let refs0 = cudd_ref (cofactor2 D f) refs;
                     (e0, costs0, refs1) \<leftarrow> count_cubes_refs D (cofactor0 D f) costs refs0;
                     (e1, costs1, refs2) \<leftarrow> count_cubes_refs D (cofactor1 D f) costs0 refs1;
                     (e2, costs2, refs3) \<leftarrow> count_cubes_refs D (cofactor2 D f) costs1 refs2;
                     let ret = choose_expansion (snd e0) (snd e1) (snd e2);
                     Some (ret, costs2(f \<mapsto> ret), refs3) }))"

declare count_cubes_refs.simps [code]

partial_function (option) generate_exact_refs :: "cube32 policy \<Rightarrow> 'd cudd \<Rightarrow> 'd \<Rightarrow> 'd psdkro \<Rightarrow> 'd multiset \<Rightarrow>
    ('d psdkro \<times> 'd multiset) option" where
  "generate_exact_refs P D f s refs =
     (if f = dd_zero D then Some (s, refs)
      else if f = dd_one D then
        do { cube \<leftarrow> path_cube (m_var_values s) (m_vars s) (cube_of_value 0);
             Some (s\<lparr>m_esop := uset_insert P cube (m_esop s)\<rparr>, refs) }
      else
        do { e \<leftarrow> m_exp_costs s f;
             let idx = dd_index D f;
             let s0 = s\<lparr>m_vars := m_vars s @ [idx]\<rparr>;
             let f0 = cofactor0 D f;
             let f1 = cofactor1 D f;
             let f2 = cofactor2 D f;
             let refs0 = cudd_ref f2 refs;
             let (x, g, y, h) = (case fst e of
                 POSITIVE_DAVIO \<Rightarrow> (UNUSED, f0, POSITIVE, f2)
               | NEGATIVE_DAVIO \<Rightarrow> (UNUSED, f1, NEGATIVE, f2)
               | SHANNON \<Rightarrow> (NEGATIVE, f0, POSITIVE, f1));
             s1 \<leftarrow> set_value idx x s0;
             (s2, refs1) \<leftarrow> generate_exact_refs P D g s1 refs0;
             s3 \<leftarrow> set_value idx y s2;
             (s4, refs2) \<leftarrow> generate_exact_refs P D h s3 refs1;
             s5 \<leftarrow> set_value idx UNUSED (s4\<lparr>m_vars := butlast (m_vars s4)\<rparr>);
             refs3 \<leftarrow> cudd_deref f2 refs2;
             Some (s5, refs3) })"

declare generate_exact_refs.simps [code]

definition extract_esop_refs :: "cube32 policy \<Rightarrow> 'd cudd \<Rightarrow> 'd option \<Rightarrow> 'd psdkro \<Rightarrow> 'd multiset \<Rightarrow>
    ('d psdkro \<times> cube32 list \<times> 'd multiset) option" where
  "extract_esop_refs P D fo s refs =
     (case fo of
        None \<Rightarrow> Some (s, [], refs)
      | Some f \<Rightarrow>
          do { let s0 = s\<lparr>m_exp_costs := Map.empty, m_esop := uset_clear (m_esop s),
                          m_var_values := map (\<lambda>_. UNUSED) (m_var_values s)\<rparr>;
               (_, costs, refs1) \<leftarrow> count_cubes_refs D f (m_exp_costs s0) refs;
               (s1, refs2) \<leftarrow> generate_exact_refs P D f (s0\<lparr>m_exp_costs := costs\<rparr>) refs1;
               Some (s1, elems (m_esop s1), refs2) })"

section \<open>\<^verbatim>\<open>generate_exact\<close> is balanced\<close>

lemma cudd_deref_ref [simp]: "cudd_deref x (cudd_ref x refs) = Some refs"
  by (simp add: cudd_deref_def cudd_ref_def)

lemma generate_exact_balanced:
  assumes "generate_exact P D f s = Some s'"
  shows "generate_exact_refs P D f s refs = Some (s', refs)"
proof -
  let ?Q = "\<lambda>(((P, D), f), s) s'. \<forall>refs. generate_exact_refs P D f s refs = Some (s', refs)"
  have "?Q (((P, D), f), s) s'"
  proof (rule generate_exact.raw_induct [where Pa = ?Q, OF _ assms], goal_cases)
    case (1 rec P D f s s')
    have IH: "generate_exact_refs P D g t refs = Some (t', refs)" if "rec P D g t = Some t'" for g t t' refs
      using 1(1) [OF that] by simp
    have "generate_exact_refs P D f s refs = Some (s', refs)" for refs
      using 1(2)
      by (subst generate_exact_refs.simps)
        (auto simp: Let_def bind_eq_Some_conv IH split: if_splits prod.splits exp_type.splits)
    then show ?case by simp
  qed
  then show ?thesis by simp
qed

section \<open>\<^verbatim>\<open>count_cubes\<close> keeps what it references\<close>

definition leaked :: "'d cudd \<Rightarrow> 'd costs \<Rightarrow> 'd costs \<Rightarrow> 'd multiset" where
  "leaked D costs costs' = image_mset (cofactor2 D) (mset_set (dom costs' - dom costs))"

lemma leaked_refl [simp]: "leaked D costs costs = {#}"
  by (simp add: leaked_def)

lemma leaked_trans:
  assumes "costs \<subseteq>\<^sub>m c0" and "c0 \<subseteq>\<^sub>m c1" and "finite (dom c0 - dom costs)" and "finite (dom c1 - dom c0)"
  shows "leaked D costs c1 = leaked D costs c0 + leaked D c0 c1"
proof -
  have "dom costs \<subseteq> dom c0" "dom c0 \<subseteq> dom c1" using assms(1,2) by (auto dest: map_le_implies_dom_le)
  then have "dom c1 - dom costs = (dom c0 - dom costs) \<union> (dom c1 - dom c0)" by blast
  moreover have "(dom c0 - dom costs) \<inter> (dom c1 - dom c0) = {}" by blast
  ultimately show ?thesis using assms(3,4) by (simp add: leaked_def mset_set_Union)
qed

lemma leaked_chain:
  assumes "costs \<subseteq>\<^sub>m c0" "finite (dom c0 - dom costs)" and "c0 \<subseteq>\<^sub>m c1" "finite (dom c1 - dom c0)"
    and "c1 \<subseteq>\<^sub>m c2" "finite (dom c2 - dom c1)"
  shows "leaked D costs c2 = leaked D costs c0 + leaked D c0 c1 + leaked D c1 c2"
    and "finite (dom c2 - dom costs)"
proof -
  have c01: "costs \<subseteq>\<^sub>m c1" by (rule map_le_trans [OF assms(1,3)])
  have f01: "finite (dom c1 - dom costs)"
    by (rule finite_subset [of _ "(dom c0 - dom costs) \<union> (dom c1 - dom c0)"]) (use assms(2,4) in auto)
  show "finite (dom c2 - dom costs)"
    by (rule finite_subset [of _ "(dom c1 - dom costs) \<union> (dom c2 - dom c1)"]) (use f01 assms(6) in auto)
  show "leaked D costs c2 = leaked D costs c0 + leaked D c0 c1 + leaked D c1 c2"
    using leaked_trans [OF c01 assms(5) f01 assms(6)] leaked_trans [OF assms(1,3,2,4)] by simp
qed

lemma leaked_update:
  assumes "f \<notin> dom costs'" and "f \<notin> dom costs" and "finite (dom costs' - dom costs)"
  shows "leaked D costs (costs'(f \<mapsto> e)) = add_mset (cofactor2 D f) (leaked D costs costs')"
proof -
  have "dom (costs'(f \<mapsto> e)) - dom costs = insert f (dom costs' - dom costs)" using assms(2) by auto
  with assms(1,3) show ?thesis by (simp add: leaked_def)
qed

context bdd_package
begin

lemma count_cubes_leaks:
  assumes "ok f" and "table_ok costs" and "count_cubes D f costs = Some (e, costs')"
  shows "count_cubes_refs D f costs refs = Some (e, costs', refs + leaked D costs costs')"
  using assms
proof (induction "dd_size D - dd_level D level f" arbitrary: f costs e costs' refs rule: less_induct)
  case less
  show ?case
  proof (cases "const f \<or> f \<in> dom costs")
    case True
    then have "count_cubes D f costs = Some (e, costs) \<and> costs' = costs"
      using count_cubes_terminal [OF True less.prems(2)] less.prems(3) by auto
    with True less.prems(3) show ?thesis
      by (subst count_cubes_refs.simps, subst (asm) count_cubes.simps) (auto split: if_splits)
  next
    case False
    then have nc: "\<not> const f" and fresh: "costs f = None" by auto
    have m: "dd_size D - dd_level D level g < dd_size D - dd_level D level f" "ok g"
      if "g \<in> {cofactor0 D f, cofactor1 D f, cofactor2 D f}" for g
      using cofactors [OF less.prems(1) nc that] node_level [OF less.prems(1) nc] by auto
    obtain e0 c0 where r0: "count_cubes D (cofactor0 D f) costs = Some (e0, c0)" "counted (cofactor0 D f) costs e0 c0"
      using count_cubes_counted [OF m(2) less.prems(2)] by blast
    obtain e1 c1 where r1: "count_cubes D (cofactor1 D f) c0 = Some (e1, c1)" "counted (cofactor1 D f) c0 e1 c1"
      using count_cubes_counted [OF m(2) countedD(1) [OF r0(2)]] by blast
    obtain e2 c2 where r2: "count_cubes D (cofactor2 D f) c1 = Some (e2, c2)" "counted (cofactor2 D f) c1 e2 c2"
      using count_cubes_counted [OF m(2) countedD(1) [OF r1(2)]] by blast
    define ret where "ret = choose_expansion (snd e0) (snd e1) (snd e2)"
    have out: "e = ret" "costs' = c2(f \<mapsto> ret)"
      using count_cubes_node [OF nc fresh r0(1) r1(1) r2(1) ret_def] less.prems(3) by auto
    note sum = leaked_chain [OF countedD(2,5) [OF r0(2)] countedD(2,5) [OF r1(2)] countedD(2,5) [OF r2(2)]]
    have "f \<notin> dom c2" by (rule counted_node(2) [OF less.prems(1) nc fresh r0(2) r1(2) r2(2)])
    then have leak: "leaked D costs costs' = add_mset (cofactor2 D f) (leaked D costs c2)"
      unfolding out using fresh sum(2) by (intro leaked_update) auto
    have "count_cubes_refs D f costs refs =
        Some (ret, c2(f \<mapsto> ret), cudd_ref (cofactor2 D f) refs + leaked D costs c0 + leaked D c0 c1 + leaked D c1 c2)"
      using nc fresh less.hyps [OF m(1) m(2) less.prems(2) r0(1)]
        less.hyps [OF m(1) m(2) countedD(1) [OF r0(2)] r1(1)] less.hyps [OF m(1) m(2) countedD(1) [OF r1(2)] r2(1)]
      by (subst count_cubes_refs.simps) (simp add: Let_def ret_def)
    then show ?thesis by (simp add: leak sum(1) out(1) cudd_ref_def add.assoc) (simp add: out(2))
  qed
qed

text \<open>A whole extraction, with and without the references.\<close>

lemma extract_esop_leaks:
  assumes "dd_size D \<le> 32" and "ok f" and "m_vars s = []" and "length (m_var_values s) = dd_size D"
  obtains s' es e costs where "extract_esop P D (Some f) s = Some (s', es)"
    and "count_cubes D f Map.empty = Some (e, costs)" and "known costs f"
    and "extract_esop_refs P D (Some f) s refs = Some (s', es, refs + leaked D Map.empty costs)"
proof -
  obtain e costs where c: "count_cubes D f Map.empty = Some (e, costs)" "counted f Map.empty e costs"
    using count_cubes_counted [OF assms(2), of Map.empty] by (auto simp: table_ok_def)
  obtain s' es where x: "extract_esop P D (Some f) s = Some (s', es)"
    using extract_esop_spec [OF assms(1) _ assms(3,4), of "Some f" P] assms(2) by auto
  have l: "count_cubes_refs D f Map.empty refs = Some (e, costs, refs + leaked D Map.empty costs)"
    by (rule count_cubes_leaks [OF assms(2) _ c(1)]) (simp add: table_ok_def)
  have "extract_esop_refs P D (Some f) s refs = Some (s', es, refs + leaked D Map.empty costs)"
    using x by (auto simp: extract_esop_def extract_esop_refs_def Let_def bind_eq_Some_conv c(1) l generate_exact_balanced)
  with x c countedD(3) [OF c(2)] that show thesis by blast
qed

end

end
