(* ===== verification/Cube32_Test.thy ===== *)
theory Cube32_Test
  imports Cube32
begin

text \<open>
  \<^verbatim>\<open>test/cube32.cpp\<close>: the repository's unit tests as functions of the model. Each is the
  conjunction of its \<^verbatim>\<open>REQUIRE\<close>s, in the order in which the sections run them, and each holds. They
  compare cubes with 64-bit numbers, and so fix the layout of the union: the mask is the upper half.
\<close>

definition test_instantiation :: bool where
  "test_instantiation \<longleftrightarrow>
     cube_eq cube32_default cube32_one \<and>
     list_all (\<lambda>i. cube_eq_value (Cube32 (shl1 i) (shl1 i)) (push_bit i 0x0000000100000001)) [0..<32] \<and>
     list_all (\<lambda>i. cube_eq_value (Cube32 (shl1 i) 0) (push_bit i 0x0000000100000000)) [0..<32]"

text \<open>The loop of the first section of \<^verbatim>\<open>and\<close>, with its two variables.\<close>

fun and_literals :: "nat list \<Rightarrow> cube32 \<Rightarrow> u64 \<Rightarrow> bool" where
  "and_literals [] cube ret = True"
| "and_literals (i # is) cube ret =
     (let cube' = cube_and cube (Cube32 (shl1 i) (shl1 i)); ret' = ret OR push_bit i 0x0000000100000001
      in cube_eq_value cube' ret' \<and> and_literals is cube' ret')"

definition even_vars :: "nat list" where
  "even_vars = map (\<lambda>k. 2 * k) [0..<16]"

definition test_and :: bool where
  "test_and \<longleftrightarrow>
     and_literals even_vars cube32_default 0 \<and>
     list_all (\<lambda>i. cube_eq_value (cube_and (Cube32 (shl1 i) (shl1 i)) (Cube32 (shl1 (i + 1)) (shl1 (i + 1))))
       (push_bit i 0x0000000300000003)) even_vars \<and>
     list_all (\<lambda>i. cube_eq (cube_and (Cube32 (shl1 i) (shl1 i)) (Cube32 (shl1 i) 0)) cube32_zero) [0..<32]"

lemma test_instantiation_sections:
  "list_all (\<lambda>i. cube_eq_value (Cube32 (shl1 i) (shl1 i)) (push_bit i 0x0000000100000001)) [0..<32]"
  "list_all (\<lambda>i. cube_eq_value (Cube32 (shl1 i) 0) (push_bit i 0x0000000100000000)) [0..<32]"
  by code_simp+

lemma test_and_literals: "and_literals even_vars cube32_default 0"
  by code_simp

lemma test_and_sections:
  "list_all (\<lambda>i. cube_eq_value (cube_and (Cube32 (shl1 i) (shl1 i)) (Cube32 (shl1 (i + 1)) (shl1 (i + 1))))
     (push_bit i 0x0000000300000003)) even_vars"
  "list_all (\<lambda>i. cube_eq (cube_and (Cube32 (shl1 i) (shl1 i)) (Cube32 (shl1 i) 0)) cube32_zero) [0..<32]"
  by code_simp+

lemma unit_tests_hold: "test_instantiation" "test_and"
  unfolding test_instantiation_def test_and_def
  using test_instantiation_sections test_and_literals test_and_sections by (simp_all only: cube_eq_iff cube32_default_one simp_thms)

end
