(* ===== verification/Spec2Isabelle.thy ===== *)
theory Spec2Isabelle
  imports Collapse_Example Tool_Chain Losys_Main Bdd_Refs Cube32_Test
begin

text \<open>
The program. \<^verbatim>\<open>losys\<close> turns and-inverter graphs into exclusive sums of products (ESOPs) with up
  to 32 inputs and minimises them. A product is a \<^verbatim>\<open>cube32\<close>, a function with several outputs a
  \<^verbatim>\<open>two_lvl32\<close>, one list of cubes per output. The collapse tool reads a graph, sets some inputs to
  constants in all ways, collapses each cofactor by one of two methods (node by node, or by way of a
  BDD and its cheapest pseudo-Kronecker expression), adds the literals of those inputs back, joins
  the results, minimises them if asked to, writes PLA files and can build a graph again for an
  equivalence check. The exorcism tool reads a PLA file and minimises it.

  Theories and code, in the order of their imports; the state of a component is a \<open>record\<close> with the
  fields of the class, an operation is a function of the source's name where Isabelle allows it.

  \<^item> \<open>Prelude\<close>: vectors whose accesses are checked, \<^verbatim>\<open>__builtin_popcount\<close>, the bit idioms. \<open>Printf\<close>: the
    conversions of \<^verbatim>\<open>fprintf\<close>; what a routine prints is part of its result. \<open>Output\<close>: where several
    channels are used (console logger, data logger, standard output) the result is a list of \<open>event\<close>s in the
    order of the calls.
  \<^item> \<open>Unordered_Set\<close>: \<^verbatim>\<open>std::unordered_set\<close>. The order of iteration is an argument, the \<open>policy\<close>, so that
    each theorem holds for every order. Locales \<open>unordered_set\<close> and \<open>parity_set\<close>.
  \<^item> \<open>Cube32\<close>, \<open>Two_Lvl32\<close>: \<^verbatim>\<open>source/kernel\<close>, on 32-bit and 64-bit words; a cube by its literals
    (\<open>lit_at\<close>) and as a function (\<open>cube_eval\<close>, \<open>esop_eval\<close>); \<open>cube_ok n\<close> and \<open>two_lvl_ok\<close> are the
    well-formedness of a cube over \<open>n\<close> inputs and of a form.
  \<^item> \<open>Exorlink\<close>, \<open>Esop_Rewriting\<close>, \<open>Exorcism\<close>, \<open>Exorcism_Store\<close>, \<open>Exorcism_Correct\<close>: \<^verbatim>\<open>source/opt/exorcism32\<close>; the
    reshaping of two cubes as a path from one to the other, the abstract minimiser as a step
    relation \<open>esop_step\<close> on multisets of cubes, the manager and its operations, the buckets as
    one set (a second interpretation of \<open>unordered_set\<close>) with the invariant \<open>exo_inv\<close>, and the proofs
    of all passes: each operation is a sequence of abstract steps on the cubes it holds. The counters
    and lines of the verbose mode are modelled; \<open>tallied\<close> relates the counters to the cubes saved.
  \<^item> \<open>Aig\<close>, \<open>Xor_Adder\<close>, \<open>Aig_Collapse\<close>: \<^verbatim>\<open>source/base/collapse\<close>, with its progress and the
    lines of the data logger. The locale \<open>xor_adder\<close> is what the two \<^verbatim>\<open>add_cube\<close> routines of the methods share.
  \<^item> \<open>Psdkro\<close>: \<^verbatim>\<open>source/bdd/collapse\<close>; the locale \<open>bdd_package\<close> holds what CUDD documents of its nodes.
  \<^item> \<open>Aig_To_Bdd\<close>, \<open>Prime_Cover\<close>: \<^verbatim>\<open>source/xforms/aig_to_bdd.cpp\<close>, with the locales \<open>bdd_builder\<close>, which
    extends \<open>bdd_package\<close>, and \<open>cover_calls\<close>; \<open>Robdd\<close> interprets them on decision trees.
  \<^item> \<open>Bdd_Refs\<close>: the routines of \<open>Psdkro\<close> with the references to nodes that they take and give back, a
    multiset; what they compute does not depend on them.
  \<^item> \<open>Esop_To_Aig\<close>, \<open>Gia_Graph\<close>: \<^verbatim>\<open>source/xforms/esop_to_aig.cpp\<close>, its locale \<open>gia_builder\<close> of the graph
    constructors, and an interpretation on lists of gates.
  \<^item> \<open>Cofactor\<close>, \<open>Aig_Support\<close>, \<open>Bdd_Support\<close>: cofactors of a graph (locale \<open>aig_cofactoring\<close>, interpreted on
    a substitution with constant propagation), and that neither method puts an input into a cube
    that the graph does not depend on.
  \<^item> \<open>Pla\<close>: \<^verbatim>\<open>source/io\<close>, over a model of \<^verbatim>\<open>std::stringstream\<close> with its flags.
  \<^item> \<open>Tool_Support\<close>, \<open>Exorcism_Tool\<close>, \<open>Collapse_Tool\<close>, \<open>Losys_Main\<close>: \<^verbatim>\<open>print_stats\<close> and the main programs of
    \<^verbatim>\<open>tools/exorcism\<close>, \<^verbatim>\<open>tools/collapse\<close> and \<^verbatim>\<open>source/main.cpp\<close>. \<open>Collapse_Example\<close> puts the instances
    together for the examples, with the whole output of two runs. \<open>Tool_Chain\<close> feeds the files of the
    collapse tool to the exorcism tool.
  \<^item> \<open>Cube32_Test\<close>: \<^verbatim>\<open>test/cube32.cpp\<close>, the unit tests as functions, which evaluate to true.

  Errors. \<open>None\<close> is undefined behaviour: an index out of range, a shift by 32 or more, a null BDD or
  a reference that is given back but not held. For the routines defined by \<open>partial_function\<close>
  (\<open>run_loop\<close>, \<open>count_cubes\<close>, \<open>generate_exact\<close>, \<open>read_cubes\<close>, \<open>cover_loop\<close>) it is also a run that does not end. The
  theorems state that the result is \<open>Some\<close>, so that each access is in range and each loop ends. There is no fuel:
  the other loops are structural, or decrease the number of stored cubes (both \<^verbatim>\<open>add_cube\<close>), and
  the partial ones are proved to return by the number of cubes and idle rounds (at most three rounds
  for each cube removed and three more), the level in the
  variable order, the text left, and the points not yet covered.

  What the lemmas show. The specification of a form is the list of its functions, \<open>esop_sem\<close>, that of a
  graph \<open>aig_sem\<close>; the collapse tool refines the one by the other, for both methods, with and without
  cofactors and minimiser (the first two theorems), and the graph it hands to the checker has the
  same functions; its files can be given to the exorcism tool, and the flags that only concern what is
  shown, logged or reordered change no file. The minimiser refines the rewriting system and so keeps
  the functions, ends, and leaves cubes that are pairwise at distance 2 or more; the ESOP of a BDD is as small as any pseudo-Kronecker expression in the order; what is
  written is read back; reading is total when the header declares something.

  Bounds. Cubes have 32 variables. With 32 inputs the pattern \<^verbatim>\<open>cube32_zero\<close> is a minterm, so that the products
  of the AIG method are right below 32 inputs only. Costs of the BDD method are at most \<open>2 ^ 31\<close>.

  Parameters. ABC and CUDD are not in the repository. What is used of them are the records \<open>aig\<close>, \<open>cudd\<close>,
  \<open>bdd_api\<close>, \<open>cover_api\<close>, \<open>gia_api\<close> and \<open>packages\<close>, with the documented laws as the assumptions of the locales.
  The hash function and the order of iteration are arguments as well.

  Not modelled: command line parsing (CLI11, \<^verbatim>\<open>getopt\<close>), an argument of the main programs; the digits of
  elapsed times, an event \<open>Elapsed\<close> or \<open>Timed_Data\<close> without them; what ABC and CUDD print themselves, where a
  call only prints it is an event that names the call; the contents of the file system, of which
  the files written and read are all that the model keeps. The members that are declared and
  have no body (\<^verbatim>\<open>compute_xor\<close>, \<^verbatim>\<open>debug\<close>, \<^verbatim>\<open>find_pairs\<close>) and third-party code have nothing to translate.
\<close>

section \<open>From graphs to two-level forms\<close>



text \<open>
  C2. The same for the AIG method, for fewer than 32 inputs, where no graph is excluded. In both cases the lines of the
  console are those of the cofactors in their order, nothing goes to the data logger unless it was asked
  for, and with \<^verbatim>\<open>-v\<close> or \<^verbatim>\<open>-w\<close> the statistics of the result come last.
\<close>

theorem collapse_aig_refines:
  assumes "aig_cofactoring (p_cofactor K)" and "gia_builder (p_gia K) wfg lits lit_val n_cis outs"
    and "parse default_opts argv = Parsed opts (path # rest)"
    and "p_read K path = Some g" and "suffix ''.aig'' path" and "aig_ok g" and "ci_num g < 32"
    and "o_cofactors opts \<le> ci_num g" and "o_method opts \<noteq> ''bdd''" and "\<forall>r. n_cis r = ci_num g \<and> length (outs r) = length (co_nodes g) \<longrightarrow> p_miter K g r"
  shows "\<exists>f run. collapse_main P K k0 n0 parse argv = Some run \<and> c_status run = EXIT_SUCCESS \<and>
    console_lines (c_output run) = run_log opts [0..<2 ^ o_cofactors opts] \<and>
    (\<not> o_data opts \<longrightarrow> filter is_data (c_output run) = []) \<and>
    (o_verbose opts \<or> o_werbose opts \<longrightarrow> last (c_output run) = Print (print_stats f)) \<and>
    c_files run = write_pla (o_method opts @ ''_'' @ extrac_fname path) f \<and>
    two_lvl_ok f \<and> n_inputs f = ci_num g \<and> esop_sem f = aig_sem g \<and>
    (case c_checked run of None \<Rightarrow> \<not> o_check opts | Some r \<Rightarrow> o_check opts \<and> outs r = aig_sem g)"
proof -
  have one: "\<exists>f. collapses P K (o_method opts) (o_cofactors opts) (cf_aigs (p_cofactor K) (o_cofactors opts) g ! i) f"
    if "i < 2 ^ o_cofactors opts" for i
    by (rule aig_cofactor_collapses [OF assms(1,6-9) that])
  have "ci_num g \<le> 32" using assms(7) by simp
  from collapse_main_run [where parse = parse, OF assms(1-6) this assms(8) one refl] assms(10) show ?thesis by blast
qed

theorem collapse_aig_refines_witness:
  "\<exists>f r run. collapse_main newest_first example_packages SOP 0 example_parse [''aig'', ''dir/a.aig''] = Some run \<and>
    c_status run = EXIT_SUCCESS \<and> c_files run = write_pla (''aig_'' @ extrac_fname ''dir/a.aig'') f \<and> c_checked run = Some r \<and>
    esop_sem f = [\<lambda>v. v 0 \<and> \<not> v 1] \<and> graph_outs r = [\<lambda>v. v 0 \<and> \<not> v 1]"
proof -
  have h: "aig_cofactoring (p_cofactor example_packages)"
      "gia_builder (p_gia example_packages) graph_ok graph_has graph_lit gr_cis graph_outs"
      "p_read example_packages ''dir/a.aig'' = Some example_aig" "suffix ''.aig'' ''dir/a.aig''"
    using sb.aig_cofactoring_axioms gr.gia_builder_axioms by (simp_all add: suffix_def)
  have n: "ci_num example_aig < 32" "o_cofactors (example_opts ''aig'') \<le> ci_num example_aig"
      "o_method (example_opts ''aig'') \<noteq> ''bdd''" "\<forall>r. gr_cis r = ci_num example_aig \<and> length (graph_outs r) = length (co_nodes example_aig) \<longrightarrow>
        p_miter example_packages example_aig r"
    by (simp_all add: example_aig_ok)
  from collapse_aig_refines [where parse = example_parse and rest = "[]", OF h(1,2) example_parse_simps h(3,4) example_aig_ok(1) n , of newest_first SOP 0] obtain f run where
    "collapse_main newest_first example_packages SOP 0 example_parse [''aig'', ''dir/a.aig''] = Some run"
    "c_status run = EXIT_SUCCESS" "c_files run = write_pla (''aig_'' @ extrac_fname ''dir/a.aig'') f"
    "esop_sem f = aig_sem example_aig"
    "case c_checked run of None \<Rightarrow> \<not> o_check (example_opts ''aig'')
      | Some r \<Rightarrow> o_check (example_opts ''aig'') \<and> graph_outs r = aig_sem example_aig"
    by auto
  then show ?thesis by (cases "c_checked run") (auto simp: example_sem)
qed





section \<open>The minimiser\<close>

text \<open>
  C5. The minimiser. On every form that is not an inclusive sum, with at most 32 inputs and
  cubes over them, \<^verbatim>\<open>exorcise\<close> returns: no access is out of range, no invalid iterator is used and
  the loop of \<^verbatim>\<open>run\<close> ends, whatever the iteration order of the hash sets. Each output of the
  result has the function of the input's, and the result is well-formed again. The verbose mode
  changes what is printed and nothing else.
\<close>

theorem exorcise_correct:
  assumes "two_lvl_ok f" and "kind f \<noteq> SOP"
  shows "\<exists>g. (\<forall>verbose. \<exists>out. exorcise P verbose f = Some (g, out)) \<and>
    kind g = kind f \<and> n_inputs g = n_inputs f \<and> two_lvl_ok g \<and> length (cubes g) = length (cubes f) \<and>
    (\<forall>k < length (cubes f). \<forall>v. output_eval g k v = output_eval f k v)"
proof -
  obtain g where g: "\<forall>w. \<exists>out. exorcise P w f = Some (g, out)" "kind g = kind f" "n_inputs g = n_inputs f"
      "two_lvl_ok g" "length (cubes g) = length (cubes f)"
      "\<forall>k < length (cubes f). \<forall>v. esop_eval v (cubes g ! k) = esop_eval v (cubes f ! k)"
    using exorcise_keeps [OF assms(1), of P] by blast
  then show ?thesis using assms(2) by (intro exI [of _ g]) (simp add: output_eval_def)
qed

theorem exorcise_correct_witness:
  "\<exists>g out. exorcise newest_first True \<lparr>kind = ESOP, n_inputs = 2, cubes = [[Cube32 1 1, Cube32 3 3]]\<rparr> = Some (g, out) \<and>
    length (cubes g) = 1 \<and> (\<forall>v. output_eval g 0 v = (v 0 \<and> \<not> v 1))"
proof -
  let ?f = "\<lparr>kind = ESOP, n_inputs = 2, cubes = [[Cube32 1 1, Cube32 3 3]]\<rparr>"
  have ok: "two_lvl_ok ?f" "kind ?f \<noteq> SOP" by code_simp+
  have fv: "output_eval ?f 0 v = (v 0 \<and> \<not> v 1)" for v
    by (simp add: output_eval_def cube_eval_def lit_at_def upt_rec [of _ 32] bit_1_iff) (auto simp: numeral_eq_Suc)
  obtain g where g: "\<forall>verbose. \<exists>out. exorcise newest_first verbose ?f = Some (g, out)" "length (cubes g) = length (cubes ?f)"
      "\<forall>k < length (cubes ?f). \<forall>v. output_eval g k v = output_eval ?f k v"
    using exorcise_correct [OF ok, of newest_first] by blast
  obtain out where "exorcise newest_first True ?f = Some (g, out)" using g(1) by blast
  moreover have "length (cubes g) = 1 \<and> (\<forall>v. output_eval g 0 v = (v 0 \<and> \<not> v 1))"
    using g(2,3) fv by simp
  ultimately show ?thesis by blast
qed

text \<open>
  C6. The minimiser refines the rewriting system of \<open>Esop_Rewriting\<close>, for every kind of form: the
  cubes of an output of the result are reached from those of the input's by cancelling two
  equal cubes, merging two cubes at distance 1, and replacing two cubes at distance 2 or 3 by
  the merged neighbours of a shortest path between them.
\<close>

theorem exorcise_refines:
  assumes "two_lvl_ok f"
  shows "\<exists>g out. exorcise P verbose f = Some (g, out) \<and>
    list_all2 (\<lambda>cs ds. esop_steps (n_inputs f) (mset cs) (mset ds)) (cubes f) (cubes g)"
proof -
  obtain g out where "exorcise P verbose f = Some (g, out)" "list_all2 (minimised (n_inputs f)) (cubes f) (cubes g)"
    using exorcise_spec [OF assms, of P] by blast
  then show ?thesis by (auto simp: minimised_def list_all2_conv_all_nth)
qed

theorem exorcise_refines_witness:
  "\<exists>g out. exorcise newest_first False \<lparr>kind = SOP, n_inputs = 2, cubes = [[Cube32 1 1, Cube32 3 3]]\<rparr> = Some (g, out) \<and>
    esop_steps 2 {#Cube32 1 1, Cube32 3 3#} (mset (cubes g ! 0))"
proof -
  let ?f = "\<lparr>kind = SOP, n_inputs = 2, cubes = [[Cube32 1 1, Cube32 3 3]]\<rparr>"
  have ok: "two_lvl_ok ?f" by code_simp
  show ?thesis using exorcise_refines [OF ok, of newest_first False] by (auto simp: list_all2_Cons1)
qed

text \<open>
  C7. What the minimiser reaches, for every kind of form: no output grows, and the cubes of an
  output are pairwise different and at distance 2 or more, so that no two of them merge.
\<close>

theorem exorcise_minimised:
  assumes "two_lvl_ok f"
  shows "\<exists>g out. exorcise P verbose f = Some (g, out) \<and> length (cubes g) = length (cubes f) \<and>
    (\<forall>k < length (cubes f). length (cubes g ! k) \<le> length (cubes f ! k) \<and>
       distinct (cubes g ! k) \<and> far_apart (cubes g ! k))"
proof -
  obtain g out where "exorcise P verbose f = Some (g, out)" "list_all2 (minimised (n_inputs f)) (cubes f) (cubes g)"
    using exorcise_spec [OF assms, of P] by blast
  then show ?thesis by (auto simp: minimised_def list_all2_conv_all_nth)
qed

theorem exorcise_minimised_witness:
  "\<exists>g out. exorcise newest_first True \<lparr>kind = UNDEF, n_inputs = 3, cubes = [[Cube32 7 7, Cube32 7 5, Cube32 1 0]]\<rparr> = Some (g, out) \<and>
    length (cubes g ! 0) \<le> 3 \<and> far_apart (cubes g ! 0)"
proof -
  let ?f = "\<lparr>kind = UNDEF, n_inputs = 3, cubes = [[Cube32 7 7, Cube32 7 5, Cube32 1 0]]\<rparr>"
  have ok: "two_lvl_ok ?f" by code_simp
  show ?thesis using exorcise_minimised [OF ok, of newest_first True] by auto
qed

text \<open>
  C8. \<^verbatim>\<open>add_cube(c, add)\<close> of the minimiser, on any manager that satisfies the invariant: it
  returns, keeps the invariant, and if it was told to add the cube or reports a gain \<open>r\<close>,
  it has rewritten the cubes and \<open>c\<close>: their exclusive sum is that of before with \<open>c\<close>, in
  one cube more less \<open>r\<close>. Otherwise the cubes are as they were.
\<close>

theorem add_cube_correct:
  assumes "exo_inv n m" and "cube_ok n c"
  shows "\<exists>m' r. exo_add_cube P c add m = Some (m', r) \<and> exo_inv n m' \<and>
    (if add \<or> r > 0
     then esop_steps n (mset (c # all_cubes m)) (mset (all_cubes m')) \<and>
       (\<forall>v. esop_eval v (all_cubes m') = (esop_eval v (all_cubes m) \<noteq> cube_eval c v)) \<and>
       length (all_cubes m') + r = Suc (length (all_cubes m))
     else m_cubes m' = m_cubes m)"
proof -
  obtain m' r where e: "exo_add_cube P c add m = Some (m', r)" and p: "add_post n c add m m' r"
    using exo_add_cube_spec [OF assms] by blast
  note d = add_postD [OF p]
  show ?thesis
  proof (cases "add \<or> r > 0")
    case True
    with added_func [OF d(3)] d(1,3) e show ?thesis by (simp add: added_def exo_func_def held_def n_all_def)
  qed (use d e in auto)
qed

theorem add_cube_correct_witness:
  "\<exists>m' r. exo_add_cube newest_first (Cube32 1 1) False (exo_empty 2) = Some (m', r) \<and> exo_inv 2 m'"
proof -
  have "exo_inv 2 (exo_empty 2)" "cube_ok 2 (Cube32 1 1)" by code_simp+
  from add_cube_correct [OF this, of newest_first False] show ?thesis by blast
qed

text \<open>
  C9. The loop of \<^verbatim>\<open>run\<close> ends from every state in the invariant and every value of its counter
  that it can have: a round that reports a gain has removed a cube, and three rounds
  without a gain stop it. The number of rounds, which the verbose mode counts, is at most three for
  each cube that has been removed, and three more.
\<close>

theorem run_terminates:
  assumes "exo_inv n m" and "without_improv \<le> 2"
  shows "\<exists>m'. (\<forall>verbose iteration. \<exists>iteration' out.
      run_loop P verbose without_improv iteration m = Some (m', iteration', out) \<and> iteration \<le> iteration' \<and>
      iteration' - iteration + without_improv \<le> 3 * (length (all_cubes m) - length (all_cubes m')) + 3) \<and>
    exo_inv n m' \<and> (\<forall>v. esop_eval v (all_cubes m') = esop_eval v (all_cubes m))"
proof -
  obtain m' where m': "runs_to n P without_improv m m'" using run_loop_spec [OF assms, of P] by blast
  then have r: "reshaped n m m'" by (simp add: runs_to_def)
  then have le: "n_all m' \<le> n_all m" and "exo_inv n m' \<and> (\<forall>v. esop_eval v (all_cubes m') = esop_eval v (all_cubes m))"
    using reshaped_func [OF r] by (simp_all add: reshaped_def exo_func_def)
  moreover have "\<exists>iteration' out. run_loop P verbose without_improv iteration m = Some (m', iteration', out) \<and>
      iteration \<le> iteration' \<and> iteration' - iteration + without_improv \<le> 3 * (n_all m - n_all m') + 3" for verbose iteration
  proof -
    obtain it' out where it: "run_loop P verbose without_improv iteration m = Some (m', it', out)" "iteration \<le> it'"
        "it' + 3 * n_all m' + without_improv \<le> iteration + 3 * n_all m + 3"
      using m' unfolding runs_to_def by blast
    have "it' - iteration + without_improv \<le> 3 * (n_all m - n_all m') + 3" using it(2,3) le by arith
    with it(1,2) show ?thesis by blast
  qed
  ultimately show ?thesis unfolding n_all_def by blast
qed

theorem run_terminates_witness:
  "\<exists>m' rounds out. run_loop newest_first True 0 0 (exo_empty 32) = Some (m', rounds, out) \<and> exo_inv 32 m' \<and> rounds \<le> 3"
proof -
  have i: "exo_inv 32 (exo_empty 32)" and e: "length (all_cubes (exo_empty 32)) = 0"
    by (rule exo_empty_inv) (simp_all add: all_cubes_def exo_empty_def)
  obtain m' where m': "\<And>verbose iteration. \<exists>iteration' out.
      run_loop newest_first verbose 0 iteration (exo_empty 32) = Some (m', iteration', out) \<and> iteration \<le> iteration' \<and>
      iteration' - iteration + 0 \<le> 3 * (length (all_cubes (exo_empty 32)) - length (all_cubes m')) + 3" "exo_inv 32 m'"
    using run_terminates [OF i, of 0 newest_first] by blast
  obtain r out where "run_loop newest_first True 0 0 (exo_empty 32) = Some (m', r, out)" "r \<le> 3"
    using m'(1) [of True 0] unfolding e by auto
  with m'(2) show ?thesis by blast
qed

text \<open>
  C10. A pass over the pairs at distance 2: it returns, the exclusive sum is unchanged, there are
  no more cubes than before, and the gain reported is the number of cubes saved. The rollbacks
  and the restored pairs of the unsuccessful attempts are part of this. The verbose line tells the
  number of cubes left and of those saved; there are no more attempts than pairs queued, no more
  reshapes than attempts, and each reshape has saved a cube.
\<close>

theorem exorlink2_pass:
  assumes "exo_inv n m"
  shows "\<exists>m' att resh. (\<forall>verbose. exorlink2 P verbose m = Some (m', of_nat (length (all_cubes m) - length (all_cubes m')),
      if verbose then pass_line ''ExorLink-2'' (length (m_pairs m ! 0)) (of_nat att) (of_nat resh)
        (of_nat (length (all_cubes m'))) (of_nat (length (all_cubes m) - length (all_cubes m'))) else '''')) \<and>
    resh \<le> att \<and> att \<le> length (m_pairs m ! 0) \<and> length (all_cubes m') + resh \<le> length (all_cubes m) \<and>
    exo_inv n m' \<and> (\<forall>v. esop_eval v (all_cubes m') = esop_eval v (all_cubes m))"
proof -
  obtain m' i j where p: "\<And>w. exorlink2 P w m = Some (m', of_nat (n_all m - n_all m'),
        if w then pass_report ''ExorLink-2'' (length (m_pairs m ! 0)) m m' i j else '''')"
      "reshaped n m m'" "i \<le> length (m_pairs m ! 0)" "j \<le> i" "n_all m' + j \<le> n_all m"
    by (rule exorlink2_spec [OF assms, of P]) (rule that)
  have "exo_inv n m' \<and> (\<forall>v. esop_eval v (all_cubes m') = esop_eval v (all_cubes m))"
    using p(2) reshaped_func [OF p(2)] by (simp add: reshaped_def exo_func_def)
  with p(1,3-5) show ?thesis unfolding pass_report_def n_all_def by blast
qed

theorem exorlink2_pass_witness:
  "\<exists>m m' out. exo_init newest_first [Cube32 3 3, Cube32 3 0] 2 = Some m \<and>
    exorlink2 newest_first True m = Some (m', of_nat (length (all_cubes m) - length (all_cubes m')), out)"
proof -
  have n: "(2::nat) \<le> 32" and cs: "list_all (cube_ok 2) [Cube32 3 3, Cube32 3 0]" by code_simp+
  obtain m where m: "exo_init newest_first [Cube32 3 3, Cube32 3 0] 2 = Some m" "exo_inv 2 m"
    using exo_init_spec [OF n cs, of newest_first] by blast
  from exorlink2_pass [OF m(2), of newest_first] m(1) show ?thesis by blast
qed

text \<open>
  C11. A pass over the pairs at distance 3 has the same contract, but for its verbose line: it
  says that nothing was reshaped even when it was, because the counter is never increased.
\<close>

theorem exorlink3_pass:
  assumes "exo_inv n m"
  shows "\<exists>m' att. (\<forall>verbose. exorlink3 P verbose m = Some (m', of_nat (length (all_cubes m) - length (all_cubes m')),
      if verbose then pass_line ''ExorLink-3'' (length (m_pairs m ! 1)) (of_nat att) 0
        (of_nat (length (all_cubes m'))) (of_nat (length (all_cubes m) - length (all_cubes m'))) else '''')) \<and>
    att \<le> length (m_pairs m ! 1) \<and> length (all_cubes m') \<le> length (all_cubes m) \<and>
    exo_inv n m' \<and> (\<forall>v. esop_eval v (all_cubes m') = esop_eval v (all_cubes m))"
proof -
  obtain m' i where p: "\<And>w. exorlink3 P w m = Some (m', of_nat (n_all m - n_all m'),
        if w then pass_report ''ExorLink-3'' (length (m_pairs m ! 1)) m m' i 0 else '''')"
      "reshaped n m m'" "i \<le> length (m_pairs m ! 1)"
    by (rule exorlink3_spec [OF assms, of P]) (rule that)
  have "exo_inv n m' \<and> (\<forall>v. esop_eval v (all_cubes m') = esop_eval v (all_cubes m)) \<and> n_all m' \<le> n_all m"
    using p(2) reshaped_func [OF p(2)] by (simp add: reshaped_def exo_func_def)
  with p(1,3) show ?thesis
    by (intro exI [of _ m'] exI [of _ i]) (simp add: pass_report_def n_all_def del: of_nat_diff)
qed

theorem exorlink3_pass_witness:
  "\<exists>m m' out. exo_init newest_first [Cube32 7 7, Cube32 7 0] 3 = Some m \<and>
    exorlink3 newest_first True m = Some (m', of_nat (length (all_cubes m) - length (all_cubes m')), out)"
proof -
  have n: "(3::nat) \<le> 32" and cs: "list_all (cube_ok 3) [Cube32 7 7, Cube32 7 0]" by code_simp+
  obtain m where m: "exo_init newest_first [Cube32 7 7, Cube32 7 0] 3 = Some m" "exo_inv 3 m"
    using exo_init_spec [OF n cs, of newest_first] by blast
  from exorlink3_pass [OF m(2), of newest_first] m(1) show ?thesis by blast
qed

text \<open>
  C12. The reshaping of two cubes at distance 2 or 3, for each of the two groups of the one
  table and the six of the other: as many cubes over the same variables as the distance,
  with the exclusive sum of the two.
\<close>

theorem exorlink_correct:
  assumes "cube_ok n a" and "cube_ok n b" and "distance a b = d"
    and "d = 2 \<and> g \<in> {0, 4} \<and> grp = drop g cube_groups2 \<or>
         d = 3 \<and> g \<in> {0, 9, 18, 27, 36, 45} \<and> grp = drop g cube_groups3"
  shows "\<exists>ns. exorlink a b d grp = Some (ns @ replicate (4 - d) cube32_default) \<and> length ns = d \<and>
    list_all (cube_ok n) ns \<and> (\<forall>v. esop_eval v ns = (cube_eval a v \<noteq> cube_eval b v))"
proof -
  have "group_ok d grp" and "d \<le> 4"
    using assms(4) cube_groups2_ok [of g] cube_groups3_ok [of g] by auto
  from exorlink_spec [OF assms(1-3) this(2,1)] show ?thesis by metis
qed

theorem exorlink_correct_witness:
  "\<exists>ns. exorlink (Cube32 3 3) (Cube32 3 0) 2 (drop 4 cube_groups2) = Some (ns @ replicate 2 cube32_default) \<and>
    (\<forall>v. esop_eval v ns = (cube_eval (Cube32 3 3) v \<noteq> cube_eval (Cube32 3 0) v))"
proof -
  have "cube_ok 2 (Cube32 3 3)" "cube_ok 2 (Cube32 3 0)" "distance (Cube32 3 3) (Cube32 3 0) = 2"
    by code_simp+
  from exorlink_correct [OF this, of 4 "drop 4 cube_groups2"] show ?thesis by auto
qed

text \<open>
  C13. The reshaping against its textbook definition: the new cubes are those of a path from one
  of the two cubes to the other, each move changing one variable, and a new cube is the
  \<^verbatim>\<open>merge\<close> of the cubes before and after its move.
\<close>

theorem exorlink_is_path:
  assumes "cube_ok n a" and "cube_ok n b" and "distance a b = d"
    and "d = 2 \<and> g \<in> {0, 4} \<and> grp = drop g cube_groups2 \<or>
         d = 3 \<and> g \<in> {0, 9, 18, 27, 36, 45} \<and> grp = drop g cube_groups3"
  shows "\<exists>ns. exorlink a b d grp = Some (ns @ replicate (4 - d) cube32_default) \<and> length ns = d \<and>
    (cube_path n a ns b \<or> cube_path n b ns a)"
proof -
  have "group_ok d grp" and "d \<le> 4"
    using assms(4) cube_groups2_ok [of g] cube_groups3_ok [of g] by auto
  from exorlink_path [OF assms(1-3) this(2,1)] show ?thesis by metis
qed

theorem exorlink_is_path_witness:
  "\<exists>ns. exorlink (Cube32 7 7) (Cube32 7 0) 3 (drop 27 cube_groups3) = Some (ns @ replicate 1 cube32_default) \<and>
    (cube_path 3 (Cube32 7 7) ns (Cube32 7 0) \<or> cube_path 3 (Cube32 7 0) ns (Cube32 7 7))"
proof -
  have "cube_ok 3 (Cube32 7 7)" "cube_ok 3 (Cube32 7 0)" "distance (Cube32 7 7) (Cube32 7 0) = 3"
    by code_simp+
  from exorlink_is_path [OF this, of 27 "drop 27 cube_groups3"] show ?thesis by auto
qed

text \<open>
  C14. The pairs \<^verbatim>\<open>add_cube\<close> collects. When it reports no gain, queue \<open>q\<close> has grown by the
  pairs of the cube with exactly the cubes of the manager at distance \<open>q + 2\<close>, each once: the
  range of buckets that is looked at misses none of them.
\<close>

theorem add_cube_pairs:
  assumes "exo_inv n m" and "cube_ok n c" and "exo_add_cube P c add m = Some (m', 0)" and "q < 2"
  shows "\<exists>ds. m_pairs m' ! q = m_pairs m ! q @ map (Pair c) ds \<and> distinct ds \<and>
    set ds = {d \<in> set (all_cubes m). distance c d = q + 2}"
  using exo_add_cube_pairs [OF assms] by blast

theorem add_cube_pairs_witness:
  "\<exists>ds m m'. exo_init newest_first [Cube32 3 3] 2 = Some m \<and>
    exo_add_cube newest_first (Cube32 3 0) True m = Some (m', 0) \<and>
    m_pairs m' ! 0 = m_pairs m ! 0 @ map (Pair (Cube32 3 0)) ds \<and> set ds = {Cube32 3 3}"
proof -
  have n: "(2::nat) \<le> 32" and cs: "list_all (cube_ok 2) [Cube32 3 3]" by code_simp+
  obtain m where m: "exo_init newest_first [Cube32 3 3] 2 = Some m" "exo_inv 2 m"
    using exo_init_spec [OF n cs, of newest_first] by blast
  have ok: "cube_ok 2 (Cube32 3 0)" by code_simp
  have 1: "map_option all_cubes (exo_init newest_first [Cube32 3 3] 2) = Some [Cube32 3 3]"
    and 2: "Option.bind (exo_init newest_first [Cube32 3 3] 2)
      (\<lambda>m. map_option snd (exo_add_cube newest_first (Cube32 3 0) True m)) = Some 0"
    and d: "distance (Cube32 3 0) (Cube32 3 3) = 2"
    by code_simp+
  have all: "all_cubes m = [Cube32 3 3]" using 1 unfolding m(1) by simp
  have "map_option snd (exo_add_cube newest_first (Cube32 3 0) True m) = Some 0"
    using 2 unfolding m(1) by simp
  then obtain m' where m': "exo_add_cube newest_first (Cube32 3 0) True m = Some (m', 0)"
    by (cases "exo_add_cube newest_first (Cube32 3 0) True m") auto
  obtain ds where "m_pairs m' ! 0 = m_pairs m ! 0 @ map (Pair (Cube32 3 0)) ds"
      "set ds = {d \<in> set (all_cubes m). distance (Cube32 3 0) d = 0 + 2}"
    using add_cube_pairs [OF m(2) ok m', of 0] by auto
  moreover have "{d \<in> set (all_cubes m). distance (Cube32 3 0) d = 0 + 2} = {Cube32 3 3}"
    unfolding all using d by auto
  ultimately show ?thesis using m(1) m' by blast
qed



section \<open>The two collapsing methods\<close>

text \<open>
  C16. Collapsing a graph with at most 31 inputs: no access is out of range, and each output's
  ESOP has the value of the output, for every input assignment and the valuation of the
  nodes it determines. The form does not depend on the verbose mode and the data logger.
\<close>

theorem aig_extract_correct:
  fixes g :: aig
  assumes "aig_ok g" and "ci_num g < 32"
  shows "\<exists>f. (\<forall>verbose data. \<exists>evs :: 'b event list. aig_extract P verbose data g = Some (evs, Inr f)) \<and>
    kind f = ESOP \<and> n_inputs f = ci_num g \<and> two_lvl_ok f \<and> length (cubes f) = length (co_nodes g) \<and>
    (\<forall>k < length (co_nodes g). \<forall>v w. aig_model g v w \<longrightarrow>
       output_eval f k v = fanin_val w (co_nodes g ! k))"
proof -
  obtain f rows where f: "\<forall>verbose data. \<exists>evs :: 'b event list. aig_run P verbose data g aig_extr_init = Some (f, evs) \<and>
        aig_log verbose data rows (cubes f) evs" "kind f = ESOP" "n_inputs f = ci_num g" "two_lvl_ok f"
      "list_all2 (\<lambda>fi e. \<forall>v w. aig_model g v w \<longrightarrow> esop_eval v e = fanin_val w fi) (co_nodes g) (cubes f)"
    using aig_run_spec [where 'b = 'b and P = P, OF assms] by blast
  have "\<exists>evs :: 'b event list. aig_extract P verbose data g = Some (evs, Inr f)" for verbose data
    using f(1) [rule_format, of verbose data] assms(2) by (auto simp: aig_extract_def)
  with f(2-) show ?thesis by (intro exI [of _ f]) (auto simp: output_eval_def list_all2_conv_all_nth)
qed

theorem aig_extract_correct_witness:
  "\<exists>f. (\<exists>evs :: robdd event list. aig_extract newest_first True True \<lparr>obj_num = 5, ci_ids = [1, 2],
      and_nodes = [(3, (1, False), (2, True))], co_nodes = [(3, True)]\<rparr> = Some (evs, Inr f)) \<and>
    (\<forall>v. output_eval f 0 v = (v 0 \<longrightarrow> v 1))"
proof -
  let ?g = "\<lparr>obj_num = 5, ci_ids = [1, 2], and_nodes = [(3, (1, False), (2, True))], co_nodes = [(3, True)]\<rparr>"
  have ok: "aig_ok ?g" and n: "ci_num ?g < 32" by code_simp+
  have "aig_model ?g v (\<lambda>i. if i = 1 then v 0 else if i = 2 then v 1 else if i = 3 then v 0 \<and> \<not> v 1 else False)" for v
    by (simp add: aig_model_def ci_num_def fanin_val_def upt_rec)
  note model = this
  obtain f where f: "\<forall>verbose data. \<exists>evs :: robdd event list. aig_extract newest_first verbose data ?g = Some (evs, Inr f)"
      "\<forall>k < length (co_nodes ?g). \<forall>v w. aig_model ?g v w \<longrightarrow> output_eval f k v = fanin_val w (co_nodes ?g ! k)"
    using aig_extract_correct [where 'b = robdd, OF ok n, of newest_first] by blast
  have "output_eval f 0 v = (v 0 \<longrightarrow> v 1)" for v
    using f(2) [rule_format, OF _ model, of 0 v] by (simp add: fanin_val_def)
  with f(1) show ?thesis by blast
qed



text \<open>
  C18. Collapsing by BDD, for every package that keeps the laws of \<open>bdd_package\<close> and has at most 32
  variables: each output's ESOP has the function of the output's BDD, a null node giving
  the constant 0.
\<close>

theorem bdd_extract_correct:
  fixes D :: "'d cudd"
  assumes "bdd_package D level ok val" and "dd_size D \<le> 32"
    and "\<And>f. Some f \<in> set outputs \<Longrightarrow> ok f"
  shows "\<exists>g. bdd_extract P D outputs = Some ([Print (''[i] Collapsing using BDD'' @ [newline]), Elapsed] :: 'd event list, Inr g) \<and> kind g = ESOP \<and> n_inputs g = dd_size D \<and>
    two_lvl_ok g \<and> length (cubes g) = length outputs \<and>
    (\<forall>k < length outputs. distinct (cubes g ! k) \<and>
       (\<forall>v. output_eval g k v = (case outputs ! k of None \<Rightarrow> False | Some f \<Rightarrow> val f v)))"
proof -
  have "list_all (\<lambda>fo. case fo of None \<Rightarrow> True | Some f \<Rightarrow> ok f) outputs"
    using assms(3) by (auto simp: list_all_iff split: option.splits)
  from bdd_package.bdd_extract_spec [where 'b = 'd, OF assms(1,2) this, of P] show ?thesis
    by (auto simp: output_eval_def list_all2_conv_all_nth bdd_package.extracted_def [OF assms(1)]
        split: option.splits)
qed

theorem bdd_extract_correct_witness:
  "\<exists>evs g. bdd_extract newest_first (robdd_package 2) [Some (Node 0 (Leaf False) (Node 1 (Leaf True) (Leaf False))), None] =
      Some (evs :: robdd event list, Inr g) \<and> (\<forall>v. output_eval g 0 v = (v 0 \<and> \<not> v 1)) \<and> (\<forall>v. \<not> output_eval g 1 v)"
proof -
  let ?f = "Node 0 (Leaf False) (Node 1 (Leaf True) (Leaf False))"
  have d: "dd_size (robdd_package 2) \<le> 32" by code_simp
  have "\<And>f. Some f \<in> set [Some ?f, None] \<Longrightarrow> robdd_ok 2 0 f" by simp
  from bdd_extract_correct [where outputs = "[Some ?f, None]" and P = newest_first, OF rb.bdd_package_axioms d this]
  show ?thesis by (auto simp: nth_Cons less_Suc_eq)
qed

text \<open>
  C19. The ESOP of a BDD is an exact minimum among the pseudo-Kronecker expressions in the variable
  order: it has as many cubes as the cheapest choice of an expansion at each node. The 32-bit
  costs do not wrap around, for up to 32 variables.
\<close>

theorem psdkro_minimal:
  assumes "bdd_package D level ok val" and "dd_size D \<le> 32" and "ok f"
    and "m_vars s = []" and "length (m_var_values s) = dd_size D"
  shows "\<exists>s' es. extract_esop P D (Some f) s = Some (s', es) \<and> psdkro_exp D f (length es) \<and>
    (\<forall>k. psdkro_exp D f k \<longrightarrow> length es \<le> k)"
  using bdd_package.extract_esop_spec [OF assms(1,2) _ assms(4,5), of "Some f" P] assms(3)
  by (auto simp: bdd_package.extracted_def [OF assms(1)] psdkro_min_def)

theorem psdkro_minimal_witness:
  "\<exists>s' es. extract_esop newest_first (robdd_package 1) (Some (Node 0 (Leaf True) (Leaf False))) (psdkro_init 1) =
      Some (s', es) \<and> psdkro_exp (robdd_package 1) (Node 0 (Leaf True) (Leaf False)) (length es)"
proof -
  have d: "dd_size (robdd_package 1) \<le> 32" "m_vars (psdkro_init 1 :: robdd psdkro) = []"
      "length (m_var_values (psdkro_init 1 :: robdd psdkro)) = dd_size (robdd_package 1)"
      "robdd_ok 1 0 (Node 0 (Leaf True) (Leaf False))" by code_simp+
  from psdkro_minimal [OF rb.bdd_package_axioms d(1,4,2,3), of newest_first] show ?thesis by blast
qed

text \<open>
  C20. The 32-bit costs: with at most 32 variables every cost in the table is at most \<open>2 ^ (n - 1)\<close>, so that
  the sums do not wrap around, and the ESOP that is extracted has exactly as many cubes as the
  cost of the BDD says, at most \<open>2\<close> to the number of variables below its top one.
\<close>

theorem psdkro_cost_bounds:
  assumes "bdd_package D level ok val" and "dd_size D \<le> 32" and "ok f" and "f \<noteq> dd_zero D" and "f \<noteq> dd_one D"
    and "m_vars s = []" and "length (m_var_values s) = dd_size D"
  shows "\<exists>e costs s' es. count_cubes D f Map.empty = Some (e, costs) \<and>
    (\<forall>g e'. costs g = Some e' \<longrightarrow> unat (snd e') \<le> 2 ^ (dd_size D - 1)) \<and>
    extract_esop P D (Some f) s = Some (s', es) \<and> length es = unat (snd e) \<and>
    length es \<le> 2 ^ (dd_size D - 1 - level (dd_index D f))"
  using bdd_package.extract_bound [OF assms(1-3) _ assms(6,7), of P] assms(4,5) by (simp add: dd_level_def)

theorem psdkro_cost_bounds_witness:
  "\<exists>s' es. extract_esop newest_first (robdd_package 2) (Some (Node 1 (Leaf True) (Leaf False))) (psdkro_init 2) =
      Some (s', es) \<and> length es \<le> 1"
proof -
  let ?D = "robdd_package 2" and ?f = "Node 1 (Leaf True) (Leaf False)" and ?s = "psdkro_init 2 :: robdd psdkro"
  have h: "dd_size ?D \<le> 32" "robdd_ok 2 0 ?f" "?f \<noteq> dd_zero ?D" "?f \<noteq> dd_one ?D" "m_vars ?s = []"
      "length (m_var_values ?s) = dd_size ?D" "2 ^ (dd_size ?D - 1 - id (dd_index ?D ?f)) = (1 :: nat)"
    by code_simp+
  from psdkro_cost_bounds [OF rb.bdd_package_axioms h(1-6), of newest_first] h(7) show ?thesis by auto
qed

text \<open>
  C21. The references of the BDD method, for every package: \<^verbatim>\<open>generate_exact\<close> gives back all it takes, and
  never one that is not held; \<^verbatim>\<open>count_cubes\<close> takes one to the difference of the cofactors of each
  node it puts into the table and gives none back, so that the extraction of a node that is not
  constant leaves exactly these, at least the one of the node itself. Counting the references
  does not change the result.
\<close>

theorem bdd_references_leak:
  assumes "bdd_package D level ok val" and "dd_size D \<le> 32" and "ok f"
    and "f \<noteq> dd_zero D" and "f \<noteq> dd_one D"
    and "m_vars s = []" and "length (m_var_values s) = dd_size D"
  shows "\<exists>s' es e costs. extract_esop P D (Some f) s = Some (s', es) \<and>
    count_cubes D f Map.empty = Some (e, costs) \<and> f \<in> dom costs \<and>
    extract_esop_refs P D (Some f) s refs =
      Some (s', es, refs + image_mset (cofactor2 D) (mset_set (dom costs)))"
proof -
  obtain s' es e costs where "extract_esop P D (Some f) s = Some (s', es)"
      "count_cubes D f Map.empty = Some (e, costs)" "bdd_package.known D costs f"
      "extract_esop_refs P D (Some f) s refs = Some (s', es, refs + leaked D Map.empty costs)"
    by (rule bdd_package.extract_esop_leaks [OF assms(1-3,6,7), of P refs])
  then show ?thesis using assms(4,5) by (auto simp: bdd_package.known_def [OF assms(1)] leaked_def)
qed

theorem bdd_references_leak_witness:
  "\<exists>s' es e costs. extract_esop_refs newest_first (robdd_package 1) (Some (Node 0 (Leaf True) (Leaf False)))
      (psdkro_init 1) {#} = Some (s', es, image_mset (cofactor2 (robdd_package 1)) (mset_set (dom costs))) \<and>
    count_cubes (robdd_package 1) (Node 0 (Leaf True) (Leaf False)) Map.empty = Some (e, costs) \<and>
    Node 0 (Leaf True) (Leaf False) \<in> dom costs"
proof -
  have d: "dd_size (robdd_package 1) \<le> 32" "m_vars (psdkro_init 1 :: robdd psdkro) = []"
      "length (m_var_values (psdkro_init 1 :: robdd psdkro)) = dd_size (robdd_package 1)"
      "robdd_ok 1 0 (Node 0 (Leaf True) (Leaf False))"
      "Node 0 (Leaf True) (Leaf False) \<noteq> dd_zero (robdd_package 1)"
      "Node 0 (Leaf True) (Leaf False) \<noteq> dd_one (robdd_package 1)" by code_simp+
  from bdd_references_leak [OF rb.bdd_package_axioms d(1,4-6,2,3), of newest_first "{#}"] show ?thesis by auto
qed



text \<open>
  C23. Building a graph from a form: for every well-formed form and every implementation of the graph's
  constructors that keeps ABC's laws, the graph returned is over the form's inputs and its
  outputs are the exclusive sums of the lists.
\<close>

theorem esop_to_aig_correct:
  assumes "gia_builder G wfg lits lit_val n_cis outs" and "two_lvl_ok f"
  shows "\<exists>g. esop_to_aig G f = Some g \<and> wfg g \<and> n_cis g = n_inputs f \<and> outs g = esop_sem f"
  using gia_builder.esop_to_aig_spec [OF assms] by (simp add: esop_sem_def)

theorem esop_to_aig_correct_witness:
  "\<exists>g. esop_to_aig graph_api \<lparr>kind = ESOP, n_inputs = 2, cubes = [[Cube32 1 1, cube32_one], []]\<rparr> = Some g \<and>
    graph_outs g = esop_sem \<lparr>kind = ESOP, n_inputs = 2, cubes = [[Cube32 1 1, cube32_one], []]\<rparr>"
proof -
  have "two_lvl_ok \<lparr>kind = ESOP, n_inputs = 2, cubes = [[Cube32 1 1, cube32_one], []]\<rparr>" by code_simp
  from esop_to_aig_correct [OF gr.gia_builder_axioms this] show ?thesis by blast
qed

text \<open>
  C24. \<^verbatim>\<open>add_cube\<close> of the AIG method: the exclusive sum of the set changes by exactly the cube, the
  cubes are reached from those before and the new one by the rules of the abstract minimiser
  (cancelling and merging), the set grows by at most one element, and if no two of its cubes merged before (the
  constant one apart) none do after. The BDD method's routine, which looks at what it finds once
  more, computes the same set.
\<close>

theorem aig_add_cube_correct:
  assumes "esop_set_ok n s" and "cube_ok n c"
  shows "esop_set_ok n (aig_add_cube P n c s) \<and>
    psdkro_add_cube P n c s = aig_add_cube P n c s \<and>
    (\<forall>v. esop_eval v (elems (aig_add_cube P n c s)) = (esop_eval v (elems s) \<noteq> cube_eval c v)) \<and>
    length (elems (aig_add_cube P n c s)) \<le> Suc (length (elems s)) \<and>
    esop_steps n (add_mset c (mset (elems s))) (mset (elems (aig_add_cube P n c s))) \<and>
    (apart_but_one (elems s) \<longrightarrow> apart_but_one (elems (aig_add_cube P n c s)))"
  using ax.inv_add [OF assms] ax.parity_add [OF assms] ax.length_add [OF assms]
    aig_add_cube_summed [OF assms, of P] psdkro_add_cube_eq [of P n c s] by (simp_all add: summed_def)

theorem aig_add_cube_correct_witness:
  "elems (aig_add_cube newest_first 2 (Cube32 3 3) (uset_insert newest_first (Cube32 3 1) uset_empty)) = [Cube32 1 1] \<and>
   esop_set_ok 2 (aig_add_cube newest_first 2 (Cube32 3 3) (uset_insert newest_first (Cube32 3 1) uset_empty)) \<and>
   (\<forall>v. esop_eval v [Cube32 1 1] = (esop_eval v [Cube32 3 1] \<noteq> cube_eval (Cube32 3 3) v))"
proof -
  let ?s = "uset_insert newest_first (Cube32 3 1) uset_empty"
  have h: "esop_set_ok 2 ?s" "cube_ok 2 (Cube32 3 3)" "elems ?s = [Cube32 3 1]"
      "elems (aig_add_cube newest_first 2 (Cube32 3 3) ?s) = [Cube32 1 1]" by code_simp+
  from aig_add_cube_correct [OF h(1,2), of newest_first] h(3,4) show ?thesis by simp
qed

section \<open>Files and tools\<close>

text \<open>
  C25. Writing and reading: \<^verbatim>\<open>write_pla\<close> gives one file per output, named by its index, and
  \<^verbatim>\<open>read_pla\<close> returns on each of them the form with this output's cubes, in their order, and
  the same inputs. The kind is not written and comes back undefined. An output without cubes is read
  back as well, but with a message about inconsistent data on the error stream; it is the only one.
\<close>

theorem write_read_pla:
  assumes "two_lvl_ok f" and "k < length (cubes f)" and "length (cubes f ! k) < 2 ^ 32"
  shows "\<exists>text err. write_pla fname f ! k = (fname @ ''_'' @ show_nat k @ ''.pla'', text) \<and>
    (\<forall>k0 n0 verbose path. read_pla k0 n0 verbose path (Some text) = Some (Some (\<lparr>kind = UNDEF, n_inputs = n_inputs f, cubes = [cubes f ! k]\<rparr>,
      if verbose then pla_summary (n_inputs f) 1 (length (cubes f ! k)) else '''', err))) \<and>
    (err = '''' \<longleftrightarrow> cubes f ! k \<noteq> [])"
proof -
  have "list_all (cube_ok (n_inputs f)) (cubes f ! k)" and n: "n_inputs f \<le> 32"
    using assms(1,2) by (simp_all add: two_lvl_ok_def list_all_length)
  from read_pla_text [OF this assms(3)] assms(2) show ?thesis
    by (simp add: write_pla_def write_esops_nth)
qed

theorem write_read_pla_witness:
  "read_pla SOP 7 False ''p'' (Some (snd (write_pla ''f'' \<lparr>kind = ESOP, n_inputs = 2, cubes = [[Cube32 3 1]]\<rparr> ! 0))) =
    Some (Some (\<lparr>kind = UNDEF, n_inputs = 2, cubes = [[Cube32 3 1]]\<rparr>, '''', ''''))"
proof -
  let ?f = "\<lparr>kind = ESOP, n_inputs = 2, cubes = [[Cube32 3 1]]\<rparr>"
  have ok: "two_lvl_ok ?f" by code_simp
  have "0 < length (cubes ?f)" "length (cubes ?f ! 0) < 2 ^ 32" by simp_all
  note ok = ok this
  obtain pla err where w: "write_pla ''f'' ?f ! 0 = (''f'' @ ''_'' @ show_nat 0 @ ''.pla'', pla)"
    and r: "read_pla SOP 7 False ''p'' (Some pla) =
      Some (Some (\<lparr>kind = UNDEF, n_inputs = n_inputs ?f, cubes = [cubes ?f ! 0]\<rparr>, '''', err))"
    and e: "err = '''' \<longleftrightarrow> cubes ?f ! 0 \<noteq> []"
    using write_read_pla [OF ok, of "''f''"] by auto
  show ?thesis unfolding w snd_conv r using e by simp
qed

text \<open>
  C26. What the reader guarantees of its result: on every text, however malformed its rows, whose header
  declares at most 32 inputs and not both numbers 0, it returns a well-formed form with the
  declared numbers of inputs and outputs, without an access out of range. The verbose mode prints
  these numbers and that of the rows taken.
\<close>

theorem read_pla_type:
  assumes "h = fst (read_pla_header (open_stream content))" and "h_inputs h \<le> 32" and "h_inputs h \<noteq> 0 \<or> h_outputs h \<noteq> 0"
  shows "\<exists>f rows err. (\<forall>verbose. read_pla k0 n0 verbose path (Some content) =
      Some (Some (f, if verbose then pla_summary (h_inputs h) (h_outputs h) rows else '''', err))) \<and>
    two_lvl_ok f \<and> n_inputs f = h_inputs h \<and>
    length (cubes f) = h_outputs h \<and> kind f = kind (set_kind (h_type h) f)"
proof -
  obtain f rows err where "reads k0 n0 path content f rows err" "n_inputs f = h_inputs h"
      "length (cubes f) = h_outputs h" "kind f = kind (set_kind (h_type h) f)"
    using read_pla_ok [of content h "snd (read_pla_header (open_stream content))" k0 n0 path] assms by auto
  then show ?thesis unfolding reads_def by metis
qed

theorem read_pla_type_witness:
  "\<exists>f out err. read_pla SOP 7 True ''p'' (Some (''.o 3'' @ [newline])) = Some (Some (f, out, err)) \<and>
    two_lvl_ok f \<and> length (cubes f) = 3"
proof -
  have h: "fst (read_pla_header (open_stream (''.o 3'' @ [newline]))) =
      \<lparr>h_inputs = 0, h_outputs = 3, h_terms = 0, h_type = ''''\<rparr>"
    by (simp add: read_pla_header_def open_stream_def read_header.simps header_line_def getline_def peek_def
        good_def newline_def str_at_def read_uint_def num_get_def digits_value_def is_space_def is_digit_def)
  from read_pla_type [OF h [symmetric], of SOP 7 "''p''"] show ?thesis by auto
qed

text \<open>
  C27. The loop over the rows ends on every input if at least one input or output was
  declared, however the text is broken off; on a text without control lines, an empty file
  for example, nothing is declared and \<^verbatim>\<open>read_pla\<close> does not return.
\<close>

theorem read_pla_returns:
  "(n_in \<noteq> 0 \<or> n_out \<noteq> 0 \<longrightarrow> read_cubes n_in n_out rows s f \<noteq> None) \<and>
   read_pla k0 n0 verbose path (Some '''') = None"
proof -
  have "read_pla_header (open_stream '''') =
      (\<lparr>h_inputs = 0, h_outputs = 0, h_terms = 0, h_type = ''''\<rparr>, \<lparr>sbuf = '''', eofbit = True, failbit = False\<rparr>)"
    by (simp add: read_pla_header_def read_header.simps peek_def good_def open_stream_def)
  then have "read_pla k0 n0 verbose path (Some '''') = None"
    by (simp add: read_pla_def read_cubes_diverges good_def)
  with read_cubes_returns show ?thesis by blast
qed

theorem read_pla_returns_witness:
  "read_cubes 2 0 0 (open_stream ''1'') (two_lvl32_uninit SOP 0) \<noteq> None"
  using read_pla_returns [of 2 0 0 "open_stream ''1''" "two_lvl32_uninit SOP 0"] by simp



section \<open>The walk through a prime cover\<close>



text \<open>
  C30. The references on every exit, without any assumption on the calls: whenever the function comes back,
  the references are those of before the call.
\<close>

theorem prime_cover_balanced:
  assumes "prime_cover A lo refs s = Some (b, refs', s')"
  shows "refs' = refs \<and> b \<le> 1"
  using assms cover_loop_balanced [of A] by (auto simp: prime_cover_def cudd_ref_def split: option.splits)

theorem prime_cover_balanced_witness:
  "prime_cover (robdd_cover 2) None {#Leaf True#} () = Some (0, {#Leaf True#}, ()) \<and> (0 :: nat) \<le> 1"
proof -
  have r: "prime_cover (robdd_cover 2) None {#Leaf True#} () = Some (0, {#Leaf True#}, ())"
    by (simp add: prime_cover_def)
  from prime_cover_balanced [OF r] r show ?thesis by blast
qed

section \<open>Rows, and where the program departs from its intention\<close>





text \<open>
  C34. Where the two methods part: a complemented constant for an output, for example in a cofactor that
  has become constant, makes \<^verbatim>\<open>aig_to_bdd\<close> complement a BDD without a manager, undefined for
  every package; the AIG method returns the tautology for it.
\<close>

theorem constant_output_crash:
  assumes "aig_ok g" and "k < length (co_nodes g)" and "co_nodes g ! k = (0, True)" and "ci_num g < 32"
  shows "aig_to_bdd B reorder verbose g = None \<and>
    (\<exists>f evs. aig_extract P verbose data g = Some (evs :: 'b event list, Inr f) \<and> (\<forall>v. output_eval f k v))"
proof -
  have "(0, True) \<in> set (co_nodes g)" using nth_mem [OF assms(2)] assms(3) by simp
  moreover obtain f and evs :: "'b event list" where f: "aig_run P verbose data g aig_extr_init = Some (f, evs)" "kind f = ESOP"
      "list_all2 (\<lambda>fi e. \<forall>v w. aig_model g v w \<longrightarrow> esop_eval v e = fanin_val w fi) (co_nodes g) (cubes f)"
    using aig_run_spec [where 'b = 'b and P = P, OF assms(1,4)] by blast
  moreover have "output_eval f k v" for v
    using list_all2_nthD [OF f(3) assms(2)] aig_val_model [OF assms(1), of v] f(2)
    by (auto simp: output_eval_def assms(3) fanin_val_def aig_model_def)
  ultimately show ?thesis using aig_to_bdd_null [OF assms(1)] assms(4) by (auto simp: aig_extract_def)
qed

theorem constant_output_crash_witness:
  "aig_to_bdd robdd_api False True \<lparr>obj_num = 3, ci_ids = [1], and_nodes = [], co_nodes = [(0, True)]\<rparr> = None"
proof -
  let ?g = "\<lparr>obj_num = 3, ci_ids = [1], and_nodes = [], co_nodes = [(0, True)]\<rparr>"
  have h: "aig_ok ?g" "0 < length (co_nodes ?g)" "co_nodes ?g ! 0 = (0, True)" "ci_num ?g < 32" by code_simp+
  from constant_output_crash [where 'b = robdd, OF h, of robdd_api False True newest_first False] show ?thesis by blast
qed

section \<open>Cubes\<close>



text \<open>
  C36. The product of two cubes over fewer than 32 variables: \<^verbatim>\<open>cube32_zero\<close> exactly if they have no
  common point, otherwise the cube of their conjunction.
\<close>

theorem cube_and_correct:
  assumes "cube_ok n c" and "cube_ok n d" and "n < 32"
  shows "if cube_and c d = cube32_zero then \<nexists>v. cube_eval c v \<and> cube_eval d v
    else (\<exists>v. cube_eval c v \<and> cube_eval d v) \<and> cube_ok n (cube_and c d) \<and>
      (\<forall>v. cube_eval (cube_and c d) v = (cube_eval c v \<and> cube_eval d v))"
  using cube_and_zero_iff [OF assms] cube_ok_and [OF assms(1,2)]
    cube_eval_and [OF cube_ok_canonical [OF assms(1)] cube_ok_canonical [OF assms(2)]] by simp_all

theorem cube_and_correct_witness:
  "(\<nexists>v. cube_eval (Cube32 1 1) v \<and> cube_eval (Cube32 1 0) v)"
proof -
  have h: "cube_ok 1 (Cube32 1 1)" "cube_ok 1 (Cube32 1 0)" "(1::nat) < 32"
      "cube_and (Cube32 1 1) (Cube32 1 0) = cube32_zero" by code_simp+
  from cube_and_correct [OF h(1-3)] h(4) show ?thesis by simp
qed



text \<open>
  C38. The extent of a comment in the header: up to the first blank, wherever that is, and from there to the
  end of the line. What is read is what the rest alone would give. So \<open>u\<close> may contain ends of lines: a
  comment without a blank takes the next line with it, for example the declaration of the inputs.
\<close>

theorem comment_swallows_line:
  assumes "CHR '' '' \<notin> set u" and "newline \<notin> set v"
  shows "read_pla_header (open_stream (''#'' @ u @ '' '' @ v @ [newline] @ rest)) = read_pla_header (open_stream rest)"
  unfolding read_pla_header_def read_header_comment [OF assms] by (rule refl)

theorem comment_swallows_line_witness:
  "read_pla_header (open_stream (''#x'' @ [newline] @ ''.i 2'' @ [newline] @ ''.o 1'' @ [newline])) =
   read_pla_header (open_stream (''.o 1'' @ [newline]))"
  using comment_swallows_line [of "''x'' @ [newline] @ ''.i''" "''2''" "''.o 1'' @ [newline]"]
  by (simp add: newline_def)

text \<open>
  C39. How the tools end. \<^verbatim>\<open>exorcism\<close> and \<^verbatim>\<open>losys\<close> return a failure exactly if there is no \<^verbatim>\<open>-h\<close> and no
  file name, or one without the suffix, which the search for the last dot comes down to; in \<^verbatim>\<open>exorcism\<close> the
  second of two names is checked as well. A file that cannot be opened is reported on the error
  stream, and the run ends with success.
\<close>

theorem tools_exit_status:
  "(\<forall>r. exorcism_main P k0 n0 fs opts args = Some r \<longrightarrow>
     (status r = EXIT_FAILURE \<longleftrightarrow> CHR ''h'' \<notin> set opts \<and>
       (case args of [] \<Rightarrow> True | [inp, out] \<Rightarrow> \<not> suffix ''.pla'' inp \<or> \<not> suffix ''.pla'' out
        | inp # _ \<Rightarrow> \<not> suffix ''.pla'' inp))) \<and>
   (\<forall>r. losys_main read stats opts args = Some r \<longrightarrow>
     (status r = EXIT_FAILURE \<longleftrightarrow> CHR ''h'' \<notin> set opts \<and> (args = [] \<or> \<not> suffix ''.aig'' (hd args)))) \<and>
   (CHR ''h'' \<notin> set opts \<and> suffix ''.pla'' inp \<and> fs inp = None \<longrightarrow>
     (\<exists>out. exorcism_main P k0 n0 fs opts [inp] = Some \<lparr>status = EXIT_SUCCESS, stdout = out,
        stderr = ''[e] Couldn't open file: '' @ inp @ [newline]\<rparr>))"
  using exorcism_main_failure [of P k0 n0 fs opts args] losys_main_failure [of read stats opts args]
    exorcism_main_unreadable [of opts inp fs P k0 n0] by blast

theorem tools_exit_status_witness:
  "status (the (exorcism_main newest_first SOP 7 (\<lambda>_. None) ''v'' [''a.pla'', ''b.txt''])) = EXIT_FAILURE \<and>
   status (the (losys_main (\<lambda>_. None) (\<lambda>_. '''') '''' [''a.aag''])) = EXIT_FAILURE \<and>
   (\<exists>out. exorcism_main newest_first SOP 7 (\<lambda>_. None) ''v'' [''a.pla''] = Some \<lparr>status = EXIT_SUCCESS, stdout = out,
      stderr = ''[e] Couldn't open file: a.pla'' @ [newline]\<rparr>)"
proof -
  have d: "exorcism_main newest_first SOP 7 (\<lambda>_. None) ''v'' [''a.pla'', ''b.txt''] \<noteq> None"
      "losys_main (\<lambda>_. None) (\<lambda>_. '''') '''' [''a.aag''] \<noteq> None" by code_simp+
  have s: "suffix ''.pla'' ''a.pla''" "\<not> suffix ''.pla'' ''b.txt''" "\<not> suffix ''.aig'' ''a.aag''"
    by (simp_all add: suffix_def)
  obtain r r' where r: "exorcism_main newest_first SOP 7 (\<lambda>_. None) ''v'' [''a.pla'', ''b.txt''] = Some r"
      "losys_main (\<lambda>_. None) (\<lambda>_. '''') '''' [''a.aag''] = Some r'" using d by auto
  have "status r = EXIT_FAILURE"
    using tools_exit_status [of newest_first SOP 7 "\<lambda>_. None" "''v''" "[''a.pla'', ''b.txt'']"] r(1) s by simp
  moreover have "status r' = EXIT_FAILURE"
    using tools_exit_status [where read = "\<lambda>_. None" and stats = "\<lambda>_. ''''" and opts = "''''" and args = "[''a.aag'']"] r(2) s by simp
  moreover have "\<exists>out. exorcism_main newest_first SOP 7 (\<lambda>_. None) ''v'' [''a.pla''] = Some \<lparr>status = EXIT_SUCCESS, stdout = out,
      stderr = ''[e] Couldn't open file: a.pla'' @ [newline]\<rparr>"
    using tools_exit_status [of newest_first SOP 7 "\<lambda>_. None" "''v''" _ _ _ "''a.pla''"] s(1) by simp
  ultimately show ?thesis using r by simp
qed

text \<open>
  C40. How the collapse tool ends when it does not do its work: a name without the suffix is a failure with a
  message, but a graph with more than 32 inputs, for which nothing is written, ends with success. The
  verdict that \<^verbatim>\<open>-c\<close> gets from the equivalence checker is never looked at: a run is the same for all of them.
\<close>

theorem collapse_exit_status:
  assumes "parse default_opts argv = Parsed opts (path # rest)"
  shows "(\<not> suffix ''.aig'' path \<longrightarrow>
      (\<exists>msg. collapse_main P K k0 n0 parse argv = Some (collapse_stop EXIT_FAILURE [Console msg]))) \<and>
    (aig_cofactoring (p_cofactor K) \<and> o_method opts \<noteq> ''bdd'' \<and> p_read K path = Some g \<and> suffix ''.aig'' path \<and>
     aig_ok g \<and> 32 < ci_num g \<and> o_cofactors opts \<le> ci_num g \<longrightarrow>
      (\<exists>run. collapse_main P K k0 n0 parse argv = Some run \<and> c_status run = EXIT_SUCCESS \<and> c_files run = [] \<and>
        c_checked run = None \<and> console_lines (c_output run) =
          [aig_line (o_cofactors opts) 0, ''[I] Cannot handle more than 32 input variables''])) \<and>
    collapse_main P (K\<lparr>p_cec := verdict\<rparr>) k0 n0 parse argv = collapse_main P K k0 n0 parse argv"
  using collapse_main_bad_name [where K = K and parse = parse, OF assms] collapse_main_too_many [where K = K and parse = parse, OF _ assms] collapse_main_cec
  by blast

theorem collapse_exit_status_witness:
  "(\<exists>msg. collapse_main newest_first example_packages SOP 0 example_parse [''aig'', ''dir.aig/a''] =
      Some (collapse_stop EXIT_FAILURE [Console msg])) \<and>
   (\<exists>run. collapse_main newest_first (example_packages\<lparr>p_read := (\<lambda>_. Some \<lparr>obj_num = 34, ci_ids = [1..<34], and_nodes = [],
      co_nodes = [(1, False)]\<rparr>)\<rparr>) SOP 0 example_parse [''aig'', ''a.aig''] = Some run \<and> c_status run = EXIT_SUCCESS \<and>
      c_files run = [] \<and> console_lines (c_output run) = [''[I] [0 / 1] AIG'', ''[I] Cannot handle more than 32 input variables''])"
proof -
  let ?g = "\<lparr>obj_num = 34, ci_ids = [1..<34], and_nodes = [], co_nodes = [(1, False)]\<rparr>"
  let ?K = "example_packages\<lparr>p_read := (\<lambda>_. Some ?g)\<rparr>"
  have s: "\<not> suffix ''.aig'' ''dir.aig/a''" "suffix ''.aig'' ''a.aig''" by (simp_all add: suffix_def)
  have l: "aig_line 1 0 = ''[I] [0 / 1] AIG''" by code_simp
  have g: "aig_ok ?g" "ci_num ?g = 33" by code_simp+
  have "aig_cofactoring (p_cofactor ?K) \<and> o_method (example_opts ''aig'') \<noteq> ''bdd'' \<and> p_read ?K ''a.aig'' = Some ?g \<and>
      suffix ''.aig'' ''a.aig'' \<and> aig_ok ?g \<and> 32 < ci_num ?g \<and> o_cofactors (example_opts ''aig'') \<le> ci_num ?g"
    using sb.aig_cofactoring_axioms s(2) g by simp
  then have "\<exists>run. collapse_main newest_first ?K SOP 0 example_parse [''aig'', ''a.aig''] = Some run \<and> c_status run = EXIT_SUCCESS \<and>
      c_files run = [] \<and> console_lines (c_output run) = [aig_line 1 0, ''[I] Cannot handle more than 32 input variables'']"
    using collapse_exit_status [where K = ?K and P = newest_first and ?k0.0 = SOP and ?n0.0 = 0 and parse = example_parse and argv = "[''aig'', ''a.aig'']"
        and opts = "example_opts ''aig''" and path = "''a.aig''" and rest = "[]" and g = ?g, OF example_parse_simps] by simp blast
  moreover have "\<exists>msg. collapse_main newest_first example_packages SOP 0 example_parse [''aig'', ''dir.aig/a''] =
      Some (collapse_stop EXIT_FAILURE [Console msg])"
    using collapse_exit_status [where K = example_packages and P = newest_first and parse = example_parse, OF example_parse_simps] s(1) by blast
  ultimately show ?thesis unfolding l by blast
qed

end
